(* ===== verification/Prelude.thy ===== *)
theory Prelude
  imports Main "HOL-Library.Word" "HOL-Library.Monad_Syntax"
begin

unbundle bit_operations_syntax

text \<open>
  Shared vocabulary of the development: the machine integer types of the C sources, the
  option-valued results of code that can get stuck, the singly linked lists that run
  through a \<open>next\<close> field, and the lemma collections used by the component theories.

  A computation that changes the kernel state has a type of the form
  \<open>kernel \<Rightarrow> ('a \<times> kernel) option\<close>. The value \<open>None\<close> means that the code
  does not come back with a result: it dereferences a null pointer, leaves the bounds of an
  array, or spins for ever. Errors that the code itself reports are ordinary results.
\<close>

type_synonym u8 = "8 word"
type_synonym u16 = "16 word"
type_synonym u32 = "32 word"
type_synonym u64 = "64 word"

type_synonym ptr = "64 word"

named_theorems kdefs "definitions of straight-line kernel operations"

subsection \<open>Guards of partial operations\<close>

definition deref :: "ptr \<Rightarrow> unit option" where
  "deref p = (if p = 0 then None else Some ())"

definition in_bounds :: "nat \<Rightarrow> nat \<Rightarrow> unit option" where
  "in_bounds i n = (if i < n then Some () else None)"

lemma deref_simps [simp]:
  "deref 0 = None"
  "p \<noteq> 0 \<Longrightarrow> deref p = Some ()"
  by (simp_all add: deref_def)

lemma deref_Some [simp]: "deref p = Some u \<longleftrightarrow> p \<noteq> 0"
  by (simp add: deref_def)

lemma in_bounds_simps [simp]:
  "i < n \<Longrightarrow> in_bounds i n = Some ()"
  "\<not> i < n \<Longrightarrow> in_bounds i n = None"
  by (simp_all add: in_bounds_def)

lemma in_bounds_Some [simp]: "in_bounds i n = Some u \<longleftrightarrow> i < n"
  by (simp add: in_bounds_def)

subsection \<open>Linked lists through a next function\<close>

text \<open>
  \<open>llist nxt p xs\<close>: following \<open>nxt\<close> from \<open>p\<close> visits exactly the cells \<open>xs\<close>
  and ends at the null pointer.
\<close>

fun llist :: "(ptr \<Rightarrow> ptr) \<Rightarrow> ptr \<Rightarrow> ptr list \<Rightarrow> bool" where
  "llist nxt p [] \<longleftrightarrow> p = 0"
| "llist nxt p (x # xs) \<longleftrightarrow> p = x \<and> x \<noteq> 0 \<and> llist nxt (nxt x) xs"

lemma llist_null [simp]: "llist nxt 0 xs \<longleftrightarrow> xs = []"
  by (cases xs) auto

lemma llist_nonnull: "p \<noteq> 0 \<Longrightarrow> llist nxt p xs \<longleftrightarrow> (\<exists>ys. xs = p # ys \<and> llist nxt (nxt p) ys)"
  by (cases xs) auto

lemma llist_null_notin: "llist nxt p xs \<Longrightarrow> 0 \<notin> set xs"
  by (induction xs arbitrary: p) auto

lemma llist_hd: "llist nxt p xs \<Longrightarrow> xs \<noteq> [] \<Longrightarrow> hd xs = p"
  by (cases xs) auto

lemma llist_unique: "llist nxt p xs \<Longrightarrow> llist nxt p ys \<Longrightarrow> xs = ys"
  by (induction xs arbitrary: p ys) (auto simp: llist_nonnull)

lemma llist_upd_notin [simp]: "a \<notin> set xs \<Longrightarrow> llist (nxt(a := q)) p xs = llist nxt p xs"
  by (induction xs arbitrary: p) auto

lemma llist_cong: "(\<And>x. x \<in> set xs \<Longrightarrow> f x = g x) \<Longrightarrow> llist f p xs = llist g p xs"
  by (induction xs arbitrary: p) auto

fun lseg :: "(ptr \<Rightarrow> ptr) \<Rightarrow> ptr \<Rightarrow> ptr list \<Rightarrow> ptr \<Rightarrow> bool" where
  "lseg nxt p [] q \<longleftrightarrow> p = q"
| "lseg nxt p (x # xs) q \<longleftrightarrow> p = x \<and> x \<noteq> 0 \<and> lseg nxt (nxt x) xs q"

lemma lseg_upd_notin [simp]: "a \<notin> set xs \<Longrightarrow> lseg (nxt(a := r)) p xs q = lseg nxt p xs q"
  by (induction xs arbitrary: p) auto

lemma llist_append: "llist nxt p (xs @ ys) \<longleftrightarrow> (\<exists>q. lseg nxt p xs q \<and> llist nxt q ys)"
  by (induction xs arbitrary: p) auto

lemma lseg_append: "lseg nxt p (xs @ ys) r \<longleftrightarrow> (\<exists>q. lseg nxt p xs q \<and> lseg nxt q ys r)"
  by (induction xs arbitrary: p) auto

lemma lseg_fun: "lseg nxt p xs q \<Longrightarrow> lseg nxt p xs r \<Longrightarrow> q = r"
  by (induction xs arbitrary: p) auto

lemma llist_head_notin_tail: "llist nxt (nxt x) xs \<Longrightarrow> x \<notin> set xs"
proof
  assume l: "llist nxt (nxt x) xs" and "x \<in> set xs"
  then obtain us vs where "xs = us @ x # vs" by (auto dest: split_list)
  with l have "llist nxt (nxt x) vs" by (auto simp: llist_append)
  with l have "xs = vs" by (rule llist_unique)
  with \<open>xs = us @ x # vs\<close> show False by simp
qed

lemma llist_distinct: "llist nxt p xs \<Longrightarrow> distinct xs"
  by (induction xs arbitrary: p) (auto dest: llist_head_notin_tail)

text \<open>Appending a fresh cell at the end, as a queue with a tail pointer does.\<close>

lemma llist_snoc:
  assumes "llist nxt p xs" "xs \<noteq> []" "x \<notin> set xs" "x \<noteq> 0"
  shows "llist (nxt(last xs := x, x := 0)) p (xs @ [x])"
  using assms
proof (induction xs arbitrary: p)
  case Nil
  then show ?case by simp
next
  case (Cons a xs)
  show ?case
  proof (cases "xs = []")
    case True
    with Cons.prems show ?thesis by auto
  next
    case False
    moreover from Cons.prems have "a \<notin> set xs" by (auto dest: llist_head_notin_tail)
    moreover from False have "last xs \<in> set xs" by simp
    ultimately show ?thesis using Cons by auto
  qed
qed

text \<open>Unlinking an inner cell.\<close>

lemma llist_unlink:
  assumes "llist nxt p (xs @ a # b # ys)"
  shows "llist (nxt(a := nxt b)) p (xs @ a # ys)"
proof -
  from assms have "distinct (xs @ a # b # ys)" by (rule llist_distinct)
  with assms show ?thesis by (auto simp: llist_append)
qed

subsection \<open>Page alignment\<close>

lemma page_aligned_iff: "0x1000 dvd unat (w :: u64) \<longleftrightarrow> take_bit 12 w = 0"
proof -
  have "unat (take_bit 12 w) = take_bit 12 (unat w)" by (rule unsigned_take_bit_eq)
  then have "take_bit 12 w = 0 \<longleftrightarrow> take_bit 12 (unat w) = 0" by (metis unsigned_0 unsigned_word_eqI)
  then show ?thesis by (simp add: take_bit_eq_0_iff)
qed

lemma page_aligned_arith:
  fixes v w :: u64
  assumes "take_bit 12 v = 0" "take_bit 12 w = 0"
  shows "take_bit 12 (v + w) = 0" "take_bit 12 (v - w) = 0"
  using assms unfolding take_bit_eq_0_iff by (simp_all add: dvd_add dvd_diff)

lemma page_aligned_neg:
  fixes w :: u64
  assumes "take_bit 12 w = 0"
  shows "take_bit 12 (- w) = 0"
  using assms unfolding take_bit_eq_0_iff by simp

lemma page_aligned_mask:
  fixes w m :: u64
  assumes "take_bit 12 m = 0"
  shows "take_bit 12 (w AND m) = 0"
  using assms by (simp add: take_bit_and)

text \<open>Words that are multiples of a power of two.\<close>

lemma aligned_bit:
  assumes "take_bit n (x :: 'a::len word) = 0" "k < n"
  shows "\<not> bit x k"
proof
  assume "bit x k"
  then have "bit (take_bit n x) k" using assms(2) by (simp add: bit_take_bit_iff)
  then show False using assms(1) by simp
qed

lemma aligned_mask:
  assumes "take_bit n (x :: 'a::len word) = 0"
  shows "x AND NOT (mask n) = x"
  by (rule bit_word_eqI) (use aligned_bit [OF assms] in \<open>auto simp: bit_simps\<close>)

end
