(* ===== verification/Kernel_State.thy ===== *)
theory Kernel_State
  imports Prelude
begin

text \<open>
  The data of the kernel: the C structures of \<open>src/pinion64/internal.h\<close> and of the
  static variables of \<open>src/pinion64/*.c\<close> and \<open>*.s\<close>, as one record \<open>kernel\<close> with
  a field per static variable. Thread control blocks live in \<open>tcbs\<close>, a memory of
  \<open>struct tcb\<close> cells indexed by address; all other dynamically allocated memory is
  \<open>mem\<close>, a memory of 64-bit words indexed by address. Arrays that are reached only
  through one static table slot (the subtables of the TCB table, the route pages of the
  interrupt vector table) are values of that slot, \<open>None\<close> standing for a null pointer.
\<close>

subsection \<open>Thread control blocks\<close>

definition TCB_STATE_FREE :: u16 where "TCB_STATE_FREE = 0"
definition TCB_STATE_SUSPENDEDWAITING :: u16 where "TCB_STATE_SUSPENDEDWAITING = 1"
definition TCB_STATE_SUSPENDED :: u16 where "TCB_STATE_SUSPENDED = 2"
definition TCB_STATE_WAITING :: u16 where "TCB_STATE_WAITING = 3"
definition TCB_STATE_QUEUED :: u16 where "TCB_STATE_QUEUED = 4"
definition TCB_STATE_RUNNING :: u16 where "TCB_STATE_RUNNING = 5"

lemmas tcb_state_defs =
  TCB_STATE_FREE_def TCB_STATE_SUSPENDEDWAITING_def TCB_STATE_SUSPENDED_def
  TCB_STATE_WAITING_def TCB_STATE_QUEUED_def TCB_STATE_RUNNING_def

lemma tcb_state_distinct [simp]:
  "TCB_STATE_FREE \<noteq> TCB_STATE_SUSPENDEDWAITING" "TCB_STATE_FREE \<noteq> TCB_STATE_SUSPENDED"
  "TCB_STATE_FREE \<noteq> TCB_STATE_WAITING" "TCB_STATE_FREE \<noteq> TCB_STATE_QUEUED"
  "TCB_STATE_FREE \<noteq> TCB_STATE_RUNNING"
  "TCB_STATE_SUSPENDEDWAITING \<noteq> TCB_STATE_FREE"
  "TCB_STATE_SUSPENDEDWAITING \<noteq> TCB_STATE_SUSPENDED"
  "TCB_STATE_SUSPENDEDWAITING \<noteq> TCB_STATE_WAITING"
  "TCB_STATE_SUSPENDEDWAITING \<noteq> TCB_STATE_QUEUED"
  "TCB_STATE_SUSPENDEDWAITING \<noteq> TCB_STATE_RUNNING"
  "TCB_STATE_SUSPENDED \<noteq> TCB_STATE_FREE" "TCB_STATE_SUSPENDED \<noteq> TCB_STATE_SUSPENDEDWAITING"
  "TCB_STATE_SUSPENDED \<noteq> TCB_STATE_WAITING" "TCB_STATE_SUSPENDED \<noteq> TCB_STATE_QUEUED"
  "TCB_STATE_SUSPENDED \<noteq> TCB_STATE_RUNNING"
  "TCB_STATE_WAITING \<noteq> TCB_STATE_FREE" "TCB_STATE_WAITING \<noteq> TCB_STATE_SUSPENDEDWAITING"
  "TCB_STATE_WAITING \<noteq> TCB_STATE_SUSPENDED" "TCB_STATE_WAITING \<noteq> TCB_STATE_QUEUED"
  "TCB_STATE_WAITING \<noteq> TCB_STATE_RUNNING"
  "TCB_STATE_QUEUED \<noteq> TCB_STATE_FREE" "TCB_STATE_QUEUED \<noteq> TCB_STATE_SUSPENDEDWAITING"
  "TCB_STATE_QUEUED \<noteq> TCB_STATE_SUSPENDED" "TCB_STATE_QUEUED \<noteq> TCB_STATE_WAITING"
  "TCB_STATE_QUEUED \<noteq> TCB_STATE_RUNNING"
  "TCB_STATE_RUNNING \<noteq> TCB_STATE_FREE" "TCB_STATE_RUNNING \<noteq> TCB_STATE_SUSPENDEDWAITING"
  "TCB_STATE_RUNNING \<noteq> TCB_STATE_SUSPENDED" "TCB_STATE_RUNNING \<noteq> TCB_STATE_WAITING"
  "TCB_STATE_RUNNING \<noteq> TCB_STATE_QUEUED"
  by (simp_all add: tcb_state_defs)

record tcb =
  tcb_reserved0 :: u16
  tcb_state :: u16
  tcb_id :: u32
  tcb_running_cpu :: u32
  tcb_tap :: "nat \<Rightarrow> u16"
  tcb_next :: ptr
  tcb_pcx_id :: u32
  tcb_fault_type :: u32
  tcb_fault_addr :: u64
  tcb_gs :: u64
  tcb_rax :: u64
  tcb_rcx :: u64
  tcb_rbx :: u64
  tcb_rdx :: u64
  tcb_rdi :: u64
  tcb_rsi :: u64
  tcb_rbp :: u64
  tcb_r8 :: u64
  tcb_r9 :: u64
  tcb_r10 :: u64
  tcb_r11 :: u64
  tcb_r12 :: u64
  tcb_r13 :: u64
  tcb_r14 :: u64
  tcb_r15 :: u64
  tcb_xstate :: ptr
  tcb_ivect :: u32
  tcb_saved :: u32
  tcb_error :: u64
  tcb_rip :: u64
  tcb_cs :: u64
  tcb_rflags :: u64
  tcb_rsp :: u64
  tcb_ss :: u64

text \<open>
  The first eight bytes of a block (\<open>reserved0\<close>, \<open>state\<close>, \<open>id\<close>) double as the
  link of the free list when the block is free, so the allocator reads and overwrites the
  thread state and id.
\<close>

definition tcb_word0 :: "tcb \<Rightarrow> u64" where
  "tcb_word0 t = ucast (tcb_reserved0 t) OR push_bit 16 (ucast (tcb_state t))
     OR push_bit 32 (ucast (tcb_id t))"

definition tcb_set_word0 :: "u64 \<Rightarrow> tcb \<Rightarrow> tcb" where
  "tcb_set_word0 w t = t\<lparr>tcb_reserved0 := ucast w, tcb_state := ucast (drop_bit 16 w),
     tcb_id := ucast (drop_bit 32 w)\<rparr>"

lemma tcb_word0_set [simp]: "tcb_word0 (tcb_set_word0 w t) = w"
proof (rule bit_word_eqI)
  fix n assume "n < LENGTH(64)"
  then show "bit (tcb_word0 (tcb_set_word0 w t)) n = bit w n"
    by (cases "n < 16"; cases "n < 32")
       (auto simp: tcb_word0_def tcb_set_word0_def bit_simps)
qed

lemma tcb_set_word0_simps [simp]:
  "tcb_state (tcb_set_word0 w t) = ucast (drop_bit 16 w)"
  "tcb_id (tcb_set_word0 w t) = ucast (drop_bit 32 w)"
  "tcb_next (tcb_set_word0 w t) = tcb_next t"
  "tcb_tap (tcb_set_word0 w t) = tcb_tap t"
  "tcb_pcx_id (tcb_set_word0 w t) = tcb_pcx_id t"
  by (simp_all add: tcb_set_word0_def)

subsection \<open>Interrupt vector pages\<close>

text \<open>
  The entries of the two static tables of function pointers of \<open>init.c\<close>, by name.
\<close>

datatype vec_handler = Pinion_on_reset | Irq_on_reset | Irq_on_fire

record interrupt_vector_page_vtable =
  on_reset :: "vec_handler option"
  on_fire :: "vec_handler option"

record interrupt_vector_page =
  route :: "(nat \<Rightarrow> nat \<Rightarrow> ptr) option"
  vtable :: "interrupt_vector_page_vtable option"

definition INTERRUPT_VECTOR_PAGES :: nat where "INTERRUPT_VECTOR_PAGES = 128"

subsection \<open>The memory maps of the physical memory manager\<close>

record pmm_map_entry =
  entry_base :: u64
  entry_size :: u64

record pmm_map =
  map_count :: u64
  map_entry :: "nat \<Rightarrow> pmm_map_entry"

text \<open>
  The maps live in arrays of 7 and 17 words: one word for the count and two for each
  entry, so they have room for 3 and for 8 entries.
\<close>

definition pmm_map_capacity :: "nat \<Rightarrow> nat" where
  "pmm_map_capacity words = (words - 1) div 2"

definition pmm_map_low_space :: nat where "pmm_map_low_space = 7"
definition pmm_map_high_space :: nat where "pmm_map_high_space = 17"

subsection \<open>The processor control block\<close>

record ccb =
  ccb_id :: u32
  active_tcb :: ptr
  active_pcx :: u64
  active_pcx_id :: u32
  tss_rsp0 :: u64
  tss_ist1 :: u64
  lapic_eoi :: nat  \<comment> \<open>number of end-of-interrupt signals written to the local APIC\<close>

subsection \<open>The kernel\<close>

record kernel =
  image_base :: u64      \<comment> \<open>linker symbol \<open>__baseaddr\<close>\<close>
  image_limit :: u64     \<comment> \<open>linker symbol \<open>__limitaddr\<close>\<close>
  pmm_map_cutoff :: u64
  pmm_map_low :: pmm_map
  pmm_map_high :: pmm_map
  pmm_mutex :: u8
  pmm_base :: u64
  pmm_alloc_base :: u64
  pmm_alloc_limit :: u64
  tcb_list :: ptr
  tcb_lock :: u8
  ccb_list :: ptr
  ccb_lock :: u8
  pge_list :: ptr
  pge_lock :: u8
  tcbs :: "ptr \<Rightarrow> tcb"
  mem :: "ptr \<Rightarrow> u64"
  tcb_table :: "nat \<Rightarrow> (nat \<Rightarrow> ptr) option"
  tcb_table_lock :: u8
  schedule_head :: ptr
  schedule_tail :: ptr
  idle_tcb :: ptr        \<comment> \<open>address of the static block \<open>idle_tcb\<close>\<close>
  pagefault_queue :: ptr
  miscfault_queue :: ptr
  zombie_queue :: ptr
  ccb_table :: ptr       \<comment> \<open>its only entry: \<open>LIMIT_CORES\<close> is 1\<close>
  ccb_table_lock :: u8
  the_ccb :: ccb         \<comment> \<open>the block that entry points to\<close>
  interrupt_vector_page_table :: "nat \<Rightarrow> interrupt_vector_page"
  pcx_root :: ptr
  pcx_root_lock :: u8
  cr3 :: u64
  idt :: ptr

text \<open>Writes through a block pointer, and the views of the block memory used in proofs.\<close>

definition upd_tcb :: "ptr \<Rightarrow> (tcb \<Rightarrow> tcb) \<Rightarrow> kernel \<Rightarrow> kernel" where
  "upd_tcb p f s = s\<lparr>tcbs := (tcbs s)(p := f (tcbs s p))\<rparr>"

abbreviation active :: "kernel \<Rightarrow> ptr" where
  "active s \<equiv> active_tcb (the_ccb s)"

abbreviation nxt :: "kernel \<Rightarrow> ptr \<Rightarrow> ptr" where
  "nxt s \<equiv> (\<lambda>p. tcb_next (tcbs s p))"

abbreviation st :: "kernel \<Rightarrow> ptr \<Rightarrow> u16" where
  "st s \<equiv> (\<lambda>p. tcb_state (tcbs s p))"

lemma tcbs_upd_tcb [simp]: "tcbs (upd_tcb p f s) = (tcbs s)(p := f (tcbs s p))"
  by (simp add: upd_tcb_def)

lemma upd_tcb_frame [simp]:
  "image_base (upd_tcb p f s) = image_base s"
  "image_limit (upd_tcb p f s) = image_limit s"
  "pmm_mutex (upd_tcb p f s) = pmm_mutex s"
  "pmm_base (upd_tcb p f s) = pmm_base s"
  "pmm_alloc_base (upd_tcb p f s) = pmm_alloc_base s"
  "pmm_alloc_limit (upd_tcb p f s) = pmm_alloc_limit s"
  "pmm_map_high (upd_tcb p f s) = pmm_map_high s"
  "tcb_list (upd_tcb p f s) = tcb_list s"
  "tcb_lock (upd_tcb p f s) = tcb_lock s"
  "pge_list (upd_tcb p f s) = pge_list s"
  "pge_lock (upd_tcb p f s) = pge_lock s"
  "mem (upd_tcb p f s) = mem s"
  "tcb_table (upd_tcb p f s) = tcb_table s"
  "tcb_table_lock (upd_tcb p f s) = tcb_table_lock s"
  "schedule_head (upd_tcb p f s) = schedule_head s"
  "schedule_tail (upd_tcb p f s) = schedule_tail s"
  "idle_tcb (upd_tcb p f s) = idle_tcb s"
  "pagefault_queue (upd_tcb p f s) = pagefault_queue s"
  "miscfault_queue (upd_tcb p f s) = miscfault_queue s"
  "zombie_queue (upd_tcb p f s) = zombie_queue s"
  "the_ccb (upd_tcb p f s) = the_ccb s"
  "interrupt_vector_page_table (upd_tcb p f s) = interrupt_vector_page_table s"
  "pcx_root (upd_tcb p f s) = pcx_root s"
  "pcx_root_lock (upd_tcb p f s) = pcx_root_lock s"
  "cr3 (upd_tcb p f s) = cr3 s"
  by (simp_all add: upd_tcb_def)

end
