(* ===== verification/Pmm.thy ===== *)
theory Pmm
  imports Kernel_State
begin

text \<open>
  Mutexes as the kernel uses them (\<open>mutex.s\<close>, one core, interrupts off), the page
  allocator and the memory maps of \<open>pmm.c\<close>, and the range of the kernel image
  (\<open>get_pinion_range\<close> of \<open>start.s\<close>).
\<close>

subsection \<open>Mutexes\<close>

text \<open>
  \<open>mutex_acquire\<close> spins until the byte is 0 and then sets it to 1. With interrupts
  disabled on the only core, nobody can release a mutex that is held, so acquiring a held
  mutex never returns.
\<close>

definition mutex_acquire :: "u8 \<Rightarrow> u8 option" where
  "mutex_acquire m = (if m = 0 then Some 1 else None)"

definition mutex_release :: "u8 \<Rightarrow> u8" where
  "mutex_release m = 0"

lemma mutex_acquire_simps [simp]:
  "mutex_acquire 0 = Some 1"
  "m \<noteq> 0 \<Longrightarrow> mutex_acquire m = None"
  by (simp_all add: mutex_acquire_def)

lemma mutex_release_0 [simp]: "mutex_release m = 0"
  by (simp add: mutex_release_def)

subsection \<open>Page frames\<close>

definition pmm_alloc :: "kernel \<Rightarrow> (ptr \<times> kernel) option" where
  "pmm_alloc s = do {
     m \<leftarrow> mutex_acquire (pmm_mutex s);
     let s = s\<lparr>pmm_mutex := m\<rparr>;
     let (addr, s) =
       (if pmm_alloc_base s = pmm_alloc_limit s then (0, s)
        else (pmm_alloc_base s + pmm_base s, s\<lparr>pmm_alloc_base := pmm_alloc_base s + 0x1000\<rparr>));
     Some (addr, s\<lparr>pmm_mutex := mutex_release (pmm_mutex s)\<rparr>)
   }"

definition pmm_get_pinion_load_addr :: "kernel \<Rightarrow> u64" where
  "pmm_get_pinion_load_addr s = pmm_base s + 0x200000"

text \<open>
  \<open>brk s\<close> is the address of the next page the allocator hands out. \<open>pmm_ok\<close> holds when
  the area is page aligned, does not wrap around and lies in the top gigabyte, where the
  kernel image is linked.
\<close>

definition brk :: "kernel \<Rightarrow> ptr" where
  "brk s = pmm_alloc_base s + pmm_base s"

definition pmm_ok :: "kernel \<Rightarrow> bool" where
  "pmm_ok s \<longleftrightarrow> pmm_mutex s = 0 \<and>
     unat (pmm_base s) + unat (pmm_alloc_limit s) < 2 ^ 64 \<and>
     pmm_alloc_base s \<le> pmm_alloc_limit s \<and>
     0x1000 dvd unat (pmm_base s) \<and>
     0x1000 dvd unat (pmm_alloc_base s) \<and> 0x1000 dvd unat (pmm_alloc_limit s) \<and>
     0xFFFFFFFFC0000000 \<le> pmm_base s"

lemma pmm_alloc_exhausted:
  "pmm_mutex s = 0 \<Longrightarrow> pmm_alloc_base s = pmm_alloc_limit s \<Longrightarrow>
   pmm_alloc s = Some (0, s\<lparr>pmm_mutex := 0\<rparr>)"
  by (simp add: pmm_alloc_def)

lemma pmm_alloc_page:
  "pmm_mutex s = 0 \<Longrightarrow> pmm_alloc_base s \<noteq> pmm_alloc_limit s \<Longrightarrow>
   pmm_alloc s = Some (brk s, s\<lparr>pmm_alloc_base := pmm_alloc_base s + 0x1000, pmm_mutex := 0\<rparr>)"
  by (simp add: pmm_alloc_def brk_def)

lemma pmm_ok_mutex: "pmm_ok s \<Longrightarrow> pmm_mutex s = 0"
  by (simp add: pmm_ok_def)

lemma unat_brk:
  assumes "pmm_ok s"
  shows "unat (brk s) = unat (pmm_alloc_base s) + unat (pmm_base s)"
proof -
  have "unat (pmm_alloc_base s) + unat (pmm_base s) < 2 ^ LENGTH(64)"
    using assms by (auto simp: pmm_ok_def word_le_nat_alt)
  then show ?thesis by (simp add: brk_def unat_word_ariths)
qed

lemma brk_high:
  assumes "pmm_ok s" shows "0xFFFFFFFFC0000000 \<le> brk s"
  using unat_brk [OF assms] assms by (simp add: pmm_ok_def word_le_nat_alt)

lemma brk_nonzero: "pmm_ok s \<Longrightarrow> brk s \<noteq> 0"
  by (auto dest: brk_high)

lemma pmm_room:
  assumes "pmm_ok s" "pmm_alloc_base s \<noteq> pmm_alloc_limit s"
  shows "unat (pmm_alloc_base s) + 0x1000 \<le> unat (pmm_alloc_limit s)"
proof -
  from assms have "unat (pmm_alloc_base s) < unat (pmm_alloc_limit s)"
    unfolding pmm_ok_def by (metis word_less_nat_alt order_le_neq_trans)
  with assms(1) show ?thesis
    unfolding pmm_ok_def by (elim conjE dvdE) simp
qed

text \<open>A successful allocation returns the break and moves it up by one page.\<close>

lemma pmm_alloc_step:
  assumes "pmm_ok s" "pmm_alloc_base s \<noteq> pmm_alloc_limit s"
  defines "s' \<equiv> s\<lparr>pmm_alloc_base := pmm_alloc_base s + 0x1000, pmm_mutex := 0\<rparr>"
  shows "pmm_ok s'" and "unat (brk s') = unat (brk s) + 0x1000"
proof -
  note room = pmm_room [OF assms(1,2)]
  have "unat (pmm_alloc_limit s) < 2 ^ LENGTH(64)" by (rule unsigned_less)
  with room have sum: "unat (pmm_alloc_base s + 0x1000) = unat (pmm_alloc_base s) + 0x1000"
    by (simp add: unat_word_ariths)
  show ok: "pmm_ok s'"
    using assms(1) room by (simp add: pmm_ok_def s'_def word_le_nat_alt sum)
  show "unat (brk s') = unat (brk s) + 0x1000"
    using unat_brk [OF ok] unat_brk [OF assms(1)] sum by (simp add: s'_def)
qed

subsection \<open>Memory maps\<close>

text \<open>The map handed over by the boot loader.\<close>

record unfold_mmap =
  mmap_total :: u64
  mmap_count :: u64
  mmap_entry :: "nat \<Rightarrow> pmm_map_entry"

definition get_pinion_range :: "kernel \<Rightarrow> u64 \<times> u64" where
  "get_pinion_range s = (image_base s AND NOT 0xFFF, - ((- image_limit s) AND NOT 0xFFF))"

definition pmm_cutoff :: "u64 \<Rightarrow> u64" where
  "pmm_cutoff tot = - ((- (tot div 256)) AND 0xFFFFFFFFFF800000)"

text \<open>Writes into the two maps; a write past the end of the backing array is stuck.\<close>

definition set_low_base :: "nat \<Rightarrow> u64 \<Rightarrow> kernel \<Rightarrow> kernel option" where
  "set_low_base i b s = do {
     _ \<leftarrow> in_bounds i (pmm_map_capacity pmm_map_low_space);
     Some (s\<lparr>pmm_map_low := (pmm_map_low s)\<lparr>map_entry := (map_entry (pmm_map_low s))
       (i := (map_entry (pmm_map_low s) i)\<lparr>entry_base := b\<rparr>)\<rparr>\<rparr>)
   }"

definition set_low_size :: "nat \<Rightarrow> u64 \<Rightarrow> kernel \<Rightarrow> kernel option" where
  "set_low_size i z s = do {
     _ \<leftarrow> in_bounds i (pmm_map_capacity pmm_map_low_space);
     Some (s\<lparr>pmm_map_low := (pmm_map_low s)\<lparr>map_entry := (map_entry (pmm_map_low s))
       (i := (map_entry (pmm_map_low s) i)\<lparr>entry_size := z\<rparr>)\<rparr>\<rparr>)
   }"

definition set_low_count :: "nat \<Rightarrow> kernel \<Rightarrow> kernel" where
  "set_low_count n s = s\<lparr>pmm_map_low := (pmm_map_low s)\<lparr>map_count := of_nat n\<rparr>\<rparr>"

definition set_high_entry :: "nat \<Rightarrow> u64 \<Rightarrow> u64 \<Rightarrow> kernel \<Rightarrow> kernel option" where
  "set_high_entry i b z s = do {
     _ \<leftarrow> in_bounds i (pmm_map_capacity pmm_map_high_space);
     Some (s\<lparr>pmm_map_high := (pmm_map_high s)\<lparr>map_entry := (map_entry (pmm_map_high s))
       (i := \<lparr>entry_base = b, entry_size = z\<rparr>)\<rparr>\<rparr>)
   }"

definition set_high_count :: "nat \<Rightarrow> kernel \<Rightarrow> kernel" where
  "set_high_count n s = s\<lparr>pmm_map_high := (pmm_map_high s)\<lparr>map_count := of_nat n\<rparr>\<rparr>"

text \<open>
  The loop that fills the low map: it returns the values of \<open>i\<close> and \<open>j\<close> with which the
  loop that fills the high map starts.
\<close>

function pmm_fill_low :: "unfold_mmap \<Rightarrow> nat \<Rightarrow> kernel \<Rightarrow> (nat \<times> nat \<times> kernel) option" where
  "pmm_fill_low mm i s =
     (if i < unat (mmap_count mm) then
        if 6 \<le> i then Some (0, i, set_low_count i s)
        else if entry_base (mmap_entry mm i) < pmm_map_cutoff s then do {
          s \<leftarrow> set_low_base i (entry_base (mmap_entry mm i)) s;
          if entry_base (mmap_entry mm i) + entry_size (mmap_entry mm i) \<le> pmm_map_cutoff s
          then do {
            s \<leftarrow> set_low_size i (entry_size (mmap_entry mm i)) s;
            pmm_fill_low mm (Suc i) s
          } else do {
            s \<leftarrow> set_low_size i (pmm_map_cutoff s - entry_base (mmap_entry mm i)) s;
            s \<leftarrow> set_high_entry 0 (pmm_map_cutoff s)
                   (entry_size (mmap_entry mm i) + entry_base (mmap_entry mm i) - pmm_map_cutoff s) s;
            Some (1, i, set_low_count (Suc i) s)
          }
        } else Some (0, i, set_low_count i s)
      else Some (i, 0, s))"
  by pat_completeness auto
termination
  by (relation "measure (\<lambda>(mm, i, s). 7 - i)") auto

declare pmm_fill_low.simps [simp del]

function pmm_fill_high :: "unfold_mmap \<Rightarrow> nat \<Rightarrow> nat \<Rightarrow> kernel \<Rightarrow> (nat \<times> kernel) option" where
  "pmm_fill_high mm i j s =
     (if i + j < unat (mmap_count mm) \<and> i < 16 then do {
        s \<leftarrow> set_high_entry i (entry_base (mmap_entry mm (i + j)))
               (entry_size (mmap_entry mm (i + j))) s;
        pmm_fill_high mm (Suc i) j s
      } else Some (i, s))"
  by pat_completeness auto
termination
  by (relation "measure (\<lambda>(mm, i, j, s). 16 - i)") auto

declare pmm_fill_high.simps [simp del]

definition pmm_init :: "unfold_mmap \<Rightarrow> kernel \<Rightarrow> kernel option" where
  "pmm_init mm s = do {
     let (base, limit) = get_pinion_range s;
     let s = s\<lparr>pmm_base := base - 0x200000\<rparr>;
     let s = s\<lparr>pmm_map_cutoff := pmm_cutoff (mmap_total mm)\<rparr>;
     let s = s\<lparr>pmm_alloc_base := limit - pmm_base s, pmm_alloc_limit := pmm_map_cutoff s\<rparr>;
     (i, j, s) \<leftarrow> pmm_fill_low mm 0 s;
     (i, s) \<leftarrow> pmm_fill_high mm i j s;
     Some (set_high_count i s)
   }"

text \<open>
  Reading the high map. The result \<open>None\<close> is a read past the array, \<open>Some None\<close> the
  return value false.
\<close>

definition pmm_get_high_memory_map :: "u64 \<Rightarrow> kernel \<Rightarrow> (u64 \<times> u64) option option" where
  "pmm_get_high_memory_map index s =
     (if map_count (pmm_map_high s) < index then Some None
      else do {
        _ \<leftarrow> in_bounds (unat index) (pmm_map_capacity pmm_map_high_space);
        let e = map_entry (pmm_map_high s) (unat index);
        Some (Some (entry_base e, entry_size e))
      })"

record memory_map_region =
  region_base :: u64
  region_limit :: u64

definition apilogic_memory_map_read :: "u32 \<Rightarrow> kernel \<Rightarrow> memory_map_region option" where
  "apilogic_memory_map_read index s = do {
     r \<leftarrow> pmm_get_high_memory_map (ucast index) s;
     Some (case r of
         None \<Rightarrow> \<lparr>region_base = 0, region_limit = 0\<rparr>
       | Some (b, z) \<Rightarrow> \<lparr>region_base = b, region_limit = z + b\<rparr>)
   }"

end
