(* ===== verification/Alloc.thy ===== *)
theory Alloc
  imports Pmm
begin

text \<open>
  The free-list allocators of \<open>alloc.s\<close>. The assembler macro \<open>allocator\<close> is expanded
  once per object kind; here it is a pair of operations over a record \<open>allocator\<close> of the
  accessors the macro parameter selects: the head of the list, its lock byte, and the
  first word of an object, which is the link while the object is free. The TCB allocator
  links free blocks through the word that otherwise holds thread state and id.
\<close>

record allocator =
  get_list :: "kernel \<Rightarrow> ptr"
  set_list :: "ptr \<Rightarrow> kernel \<Rightarrow> kernel"
  get_lock :: "kernel \<Rightarrow> u8"
  set_lock :: "u8 \<Rightarrow> kernel \<Rightarrow> kernel"
  rd_link :: "kernel \<Rightarrow> ptr \<Rightarrow> u64"
  wr_link :: "ptr \<Rightarrow> u64 \<Rightarrow> kernel \<Rightarrow> kernel"

definition allocator_release :: "allocator \<Rightarrow> kernel \<Rightarrow> kernel" where
  "allocator_release A s = set_lock A (mutex_release (get_lock A s)) s"

text \<open>The path from \<open>.retry\<close> to \<open>ret\<close> when the list is not empty.\<close>

definition allocator_pop :: "allocator \<Rightarrow> kernel \<Rightarrow> ptr \<times> kernel" where
  "allocator_pop A s =
     (let p = get_list A s; s = set_list A (rd_link A s p) s
      in (p, allocator_release A s))"

text \<open>
  The whole routine. A page fetched at \<open>.pull\<close> is put on the list and \<open>.retry\<close> then
  finds the list not empty.
\<close>

definition allocator_alloc :: "allocator \<Rightarrow> kernel \<Rightarrow> (ptr \<times> kernel) option" where
  "allocator_alloc A s = do {
     m \<leftarrow> mutex_acquire (get_lock A s);
     let s = set_lock A m s;
     if get_list A s \<noteq> 0 then Some (allocator_pop A s)
     else do {
       (page, s) \<leftarrow> pmm_alloc s;
       if page = 0 then Some (0, allocator_release A s)
       else do {
         let s = wr_link A page (get_list A s) s;
         let s = set_list A page s;
         Some (allocator_pop A s)
       }
     }
   }"

definition allocator_free :: "allocator \<Rightarrow> ptr \<Rightarrow> kernel \<Rightarrow> kernel option" where
  "allocator_free A p s = do {
     m \<leftarrow> mutex_acquire (get_lock A s);
     let s = set_lock A m s;
     let s = wr_link A p (get_list A s) s;
     let s = set_list A p s;
     Some (allocator_release A s)
   }"

subsection \<open>The expansions\<close>

definition tcb_allocator :: allocator where
  "tcb_allocator = \<lparr>
     get_list = tcb_list, set_list = (\<lambda>p s. s\<lparr>tcb_list := p\<rparr>),
     get_lock = tcb_lock, set_lock = (\<lambda>m s. s\<lparr>tcb_lock := m\<rparr>),
     rd_link = (\<lambda>s p. tcb_word0 (tcbs s p)),
     wr_link = (\<lambda>p w. upd_tcb p (tcb_set_word0 w))\<rparr>"

definition pge_allocator :: allocator where
  "pge_allocator = \<lparr>
     get_list = pge_list, set_list = (\<lambda>p s. s\<lparr>pge_list := p\<rparr>),
     get_lock = pge_lock, set_lock = (\<lambda>m s. s\<lparr>pge_lock := m\<rparr>),
     rd_link = mem,
     wr_link = (\<lambda>p w s. s\<lparr>mem := (mem s)(p := w)\<rparr>)\<rparr>"

definition ccb_allocator :: allocator where
  "ccb_allocator = \<lparr>
     get_list = ccb_list, set_list = (\<lambda>p s. s\<lparr>ccb_list := p\<rparr>),
     get_lock = ccb_lock, set_lock = (\<lambda>m s. s\<lparr>ccb_lock := m\<rparr>),
     rd_link = mem,
     wr_link = (\<lambda>p w s. s\<lparr>mem := (mem s)(p := w)\<rparr>)\<rparr>"

definition tcb_alloc :: "kernel \<Rightarrow> (ptr \<times> kernel) option" where
  "tcb_alloc = allocator_alloc tcb_allocator"

definition tcb_free :: "ptr \<Rightarrow> kernel \<Rightarrow> kernel option" where
  "tcb_free = allocator_free tcb_allocator"

definition pge_alloc :: "kernel \<Rightarrow> (ptr \<times> kernel) option" where
  "pge_alloc = allocator_alloc pge_allocator"

definition pge_free :: "ptr \<Rightarrow> kernel \<Rightarrow> kernel option" where
  "pge_free = allocator_free pge_allocator"

definition ccb_alloc :: "kernel \<Rightarrow> (ptr \<times> kernel) option" where
  "ccb_alloc = allocator_alloc ccb_allocator"

definition ccb_free :: "ptr \<Rightarrow> kernel \<Rightarrow> kernel option" where
  "ccb_free = allocator_free ccb_allocator"

subsection \<open>The free-list contract\<close>

text \<open>
  What the accessors of an expansion must satisfy: list head, lock and links are separate
  pieces of state, and none of them is part of the page allocator's state.
\<close>

definition pmm_view :: "kernel \<Rightarrow> u64 \<times> u64 \<times> u64 \<times> u8" where
  "pmm_view s = (pmm_base s, pmm_alloc_base s, pmm_alloc_limit s, pmm_mutex s)"

lemma pmm_ok_view: "pmm_view s = pmm_view t \<Longrightarrow> pmm_ok s = pmm_ok t"
  by (simp add: pmm_view_def pmm_ok_def)

lemma brk_view: "pmm_view s = pmm_view t \<Longrightarrow> brk s = brk t"
  by (simp add: pmm_view_def brk_def)

locale free_list =
  fixes A :: allocator
  assumes get_set_list [simp]: "get_list A (set_list A p s) = p"
    and get_list_set_lock [simp]: "get_list A (set_lock A m s) = get_list A s"
    and get_list_wr [simp]: "get_list A (wr_link A q w s) = get_list A s"
    and get_set_lock [simp]: "get_lock A (set_lock A m s) = m"
    and get_lock_set_list [simp]: "get_lock A (set_list A p s) = get_lock A s"
    and get_lock_wr [simp]: "get_lock A (wr_link A q w s) = get_lock A s"
    and rd_set_list [simp]: "rd_link A (set_list A p s) = rd_link A s"
    and rd_set_lock [simp]: "rd_link A (set_lock A m s) = rd_link A s"
    and rd_wr [simp]: "rd_link A (wr_link A q w s) = (rd_link A s)(q := w)"
    and view_set_list [simp]: "pmm_view (set_list A p s) = pmm_view s"
    and view_set_lock [simp]: "pmm_view (set_lock A m s) = pmm_view s"
    and view_wr [simp]: "pmm_view (wr_link A q w s) = pmm_view s"
    and pmm_upd [simp]:
      "get_list A (s\<lparr>pmm_alloc_base := b\<rparr>) = get_list A s"
      "get_lock A (s\<lparr>pmm_alloc_base := b\<rparr>) = get_lock A s"
      "rd_link A (s\<lparr>pmm_alloc_base := b\<rparr>) = rd_link A s"
      "get_list A (s\<lparr>pmm_mutex := n\<rparr>) = get_list A s"
      "get_lock A (s\<lparr>pmm_mutex := n\<rparr>) = get_lock A s"
      "rd_link A (s\<lparr>pmm_mutex := n\<rparr>) = rd_link A s"
begin

text \<open>
  The allocator's state: the free objects \<open>F\<close> in list order, all below the break, and
  the lock free.
\<close>

definition free_objects :: "ptr list \<Rightarrow> kernel \<Rightarrow> bool" where
  "free_objects F s \<longleftrightarrow> llist (rd_link A s) (get_list A s) F \<and> get_lock A s = 0 \<and>
     pmm_ok s \<and> (\<forall>p \<in> set F. unat p < unat (brk s))"

lemma pop_spec:
  assumes "allocator_pop A s = (p, s')" "get_list A s = x" "llist (rd_link A s) x (x # F)"
  shows "p = x \<and> llist (rd_link A s') (get_list A s') F \<and> get_lock A s' = 0 \<and>
    pmm_view s' = pmm_view s"
  using assms by (auto simp: allocator_pop_def allocator_release_def Let_def)

text \<open>Allocation from a list that is not empty takes its first object.\<close>

lemma alloc_reuse:
  assumes "free_objects (x # F) s"
  shows "\<exists>s'. allocator_alloc A s = Some (x, s') \<and> free_objects F s' \<and> brk s' = brk s"
proof -
  let ?s1 = "set_lock A 1 s"
  obtain p s' where pop: "allocator_pop A ?s1 = (p, s')" by fastforce
  from assms have x: "get_list A s = x" "x \<noteq> 0" and lock: "get_lock A s = 0"
    and l: "llist (rd_link A ?s1) x (x # F)"
    by (auto simp: free_objects_def)
  from pop_spec [OF pop _ l] x have spec: "p = x" "llist (rd_link A s') (get_list A s') F"
    "get_lock A s' = 0" "pmm_view s' = pmm_view s" by simp_all
  have "allocator_alloc A s = Some (x, s')"
    using x lock pop spec(1) by (simp add: allocator_alloc_def)
  moreover have "free_objects F s'"
    using assms spec pmm_ok_view [OF spec(4)] brk_view [OF spec(4)]
    by (auto simp: free_objects_def)
  ultimately show ?thesis using brk_view [OF spec(4)] by blast
qed

text \<open>Allocation from an empty list takes a page nobody has had before, or fails.\<close>

lemma alloc_fresh:
  assumes "free_objects [] s" "pmm_alloc_base s \<noteq> pmm_alloc_limit s"
  shows "\<exists>s'. allocator_alloc A s = Some (brk s, s') \<and> free_objects [] s' \<and>
    unat (brk s') = unat (brk s) + 0x1000"
proof -
  let ?s1 = "set_lock A 1 s"
  let ?s2 = "?s1\<lparr>pmm_alloc_base := pmm_alloc_base ?s1 + 0x1000, pmm_mutex := 0\<rparr>"
  let ?s3 = "set_list A (brk s) (wr_link A (brk s) 0 ?s2)"
  from assms have e: "get_list A s = 0" "get_lock A s = 0" "pmm_ok s"
    by (auto simp: free_objects_def)
  have v1: "pmm_view ?s1 = pmm_view s" by simp
  have ok1: "pmm_ok ?s1" and room1: "pmm_alloc_base ?s1 \<noteq> pmm_alloc_limit ?s1"
    and b1: "brk ?s1 = brk s"
    using e(3) assms(2) pmm_ok_view [OF v1] brk_view [OF v1] v1
    by (simp_all add: pmm_view_def)
  note step = pmm_alloc_step [OF ok1 room1]
  have v3: "pmm_view ?s3 = pmm_view ?s2" by simp
  obtain p s' where pop: "allocator_pop A ?s3 = (p, s')" by fastforce
  have nz: "brk s \<noteq> 0" using e(3) by (rule brk_nonzero)
  then have l: "llist (rd_link A ?s3) (brk s) (brk s # [])" by simp
  from pop_spec [OF pop _ l] have spec: "p = brk s" "get_list A s' = 0"
    "get_lock A s' = 0" "pmm_view s' = pmm_view ?s3" by simp_all
  have "allocator_alloc A s = Some (brk s, s')"
    using e nz pop spec(1) pmm_alloc_page [OF pmm_ok_mutex [OF ok1] room1] b1
    by (simp add: allocator_alloc_def)
  moreover have v: "pmm_view s' = pmm_view ?s2" using spec(4) v3 by simp
  ultimately show ?thesis
    using step spec pmm_ok_view [OF v] brk_view [OF v] b1
    by (auto simp: free_objects_def)
qed

lemma alloc_exhausted:
  assumes "free_objects [] s" "pmm_alloc_base s = pmm_alloc_limit s"
  shows "\<exists>s'. allocator_alloc A s = Some (0, s') \<and> free_objects [] s' \<and> brk s' = brk s"
proof -
  let ?s1 = "set_lock A 1 s"
  let ?s' = "allocator_release A (?s1\<lparr>pmm_mutex := 0\<rparr>)"
  from assms have e: "get_list A s = 0" "get_lock A s = 0" "pmm_ok s"
    by (auto simp: free_objects_def)
  have v1: "pmm_view ?s1 = pmm_view s" by simp
  then have m: "pmm_mutex ?s1 = 0" and lim: "pmm_alloc_base ?s1 = pmm_alloc_limit ?s1"
    using pmm_ok_mutex [OF e(3)] assms(2) by (simp_all add: pmm_view_def)
  from v1 m have "pmm_view (?s1\<lparr>pmm_mutex := 0\<rparr>) = pmm_view s"
    unfolding pmm_view_def by simp
  then have v: "pmm_view ?s' = pmm_view s" by (simp add: allocator_release_def)
  have "allocator_alloc A s = Some (0, ?s')"
    using e pmm_alloc_exhausted [OF m lim] by (simp add: allocator_alloc_def)
  moreover have "free_objects [] ?s'"
    using e pmm_ok_view [OF v] by (simp add: free_objects_def allocator_release_def)
  ultimately show ?thesis using brk_view [OF v] by blast
qed

text \<open>Freeing puts the object in front, so the next allocation returns it.\<close>

lemma free_spec:
  assumes "free_objects F s" "x \<noteq> 0" "x \<notin> set F" "unat x < unat (brk s)"
  shows "\<exists>s'. allocator_free A x s = Some s' \<and> free_objects (x # F) s' \<and> brk s' = brk s"
proof -
  let ?s' = "allocator_release A (set_list A x (wr_link A x (get_list A s) (set_lock A 1 s)))"
  have v: "pmm_view ?s' = pmm_view s" by (simp add: allocator_release_def)
  have "allocator_free A x s = Some ?s'"
    using assms(1) by (simp add: allocator_free_def free_objects_def)
  moreover have "free_objects (x # F) ?s'"
    using assms pmm_ok_view [OF v] brk_view [OF v]
    by (auto simp: free_objects_def allocator_release_def)
  ultimately show ?thesis using brk_view [OF v] by blast
qed

lemma free_then_alloc:
  assumes "free_objects F s" "x \<noteq> 0" "x \<notin> set F" "unat x < unat (brk s)"
  shows "\<exists>s' s''. allocator_free A x s = Some s' \<and> allocator_alloc A s' = Some (x, s'') \<and>
    free_objects F s''"
  using free_spec [OF assms] alloc_reuse by blast

end

interpretation tcb_fl: free_list tcb_allocator
  by unfold_locales (auto simp: tcb_allocator_def pmm_view_def upd_tcb_def)

interpretation pge_fl: free_list pge_allocator
  by unfold_locales (auto simp: pge_allocator_def pmm_view_def)

interpretation ccb_fl: free_list ccb_allocator
  by unfold_locales (auto simp: ccb_allocator_def pmm_view_def)

text \<open>The state of the block allocator, written out.\<close>

definition tcb_free_list :: "ptr list \<Rightarrow> kernel \<Rightarrow> bool" where
  "tcb_free_list F s \<longleftrightarrow> llist (\<lambda>p. tcb_word0 (tcbs s p)) (tcb_list s) F \<and> tcb_lock s = 0 \<and>
     pmm_ok s \<and> (\<forall>p \<in> set F. unat p < unat (brk s))"

lemma tcb_free_list_eq: "tcb_fl.free_objects F s \<longleftrightarrow> tcb_free_list F s"
  unfolding tcb_fl.free_objects_def tcb_free_list_def by (simp add: tcb_allocator_def)

subsection \<open>The two allocators the kernel runs on, as equations\<close>

lemma tcb_alloc_reuse:
  "tcb_lock s = 0 \<Longrightarrow> tcb_list s \<noteq> 0 \<Longrightarrow>
   tcb_alloc s = Some (tcb_list s,
     s\<lparr>tcb_list := tcb_word0 (tcbs s (tcb_list s)), tcb_lock := 0\<rparr>)"
  by (simp add: tcb_alloc_def allocator_alloc_def tcb_allocator_def allocator_pop_def
      allocator_release_def Let_def)

lemma tcb_alloc_fresh:
  assumes "tcb_lock s = 0" "tcb_list s = 0" "pmm_ok s" "pmm_alloc_base s \<noteq> pmm_alloc_limit s"
  shows "tcb_alloc s = Some (brk s,
    (upd_tcb (brk s) (tcb_set_word0 0) s)\<lparr>pmm_alloc_base := pmm_alloc_base s + 0x1000,
      pmm_mutex := 0, tcb_list := 0, tcb_lock := 0\<rparr>)"
proof -
  from assms(3) have "brk s \<noteq> 0" "pmm_mutex s = 0" by (simp_all add: brk_nonzero pmm_ok_mutex)
  with assms show ?thesis
    by (simp add: tcb_alloc_def allocator_alloc_def tcb_allocator_def allocator_pop_def
        allocator_release_def Let_def pmm_alloc_page upd_tcb_def brk_def)
qed

lemma tcb_alloc_exhausted:
  "tcb_lock s = 0 \<Longrightarrow> tcb_list s = 0 \<Longrightarrow> pmm_mutex s = 0 \<Longrightarrow>
   pmm_alloc_base s = pmm_alloc_limit s \<Longrightarrow>
   tcb_alloc s = Some (0, s\<lparr>pmm_mutex := 0, tcb_lock := 0\<rparr>)"
  by (simp add: tcb_alloc_def allocator_alloc_def tcb_allocator_def allocator_release_def Let_def
      pmm_alloc_exhausted)

lemma tcb_free_eq:
  "tcb_lock s = 0 \<Longrightarrow>
   tcb_free p s = Some ((upd_tcb p (tcb_set_word0 (tcb_list s)) s)\<lparr>tcb_list := p, tcb_lock := 0\<rparr>)"
  by (simp add: tcb_free_def allocator_free_def tcb_allocator_def allocator_release_def Let_def upd_tcb_def)

lemma pge_alloc_fresh:
  assumes "pge_lock s = 0" "pge_list s = 0" "pmm_ok s" "pmm_alloc_base s \<noteq> pmm_alloc_limit s"
  shows "pge_alloc s = Some (brk s,
    s\<lparr>pmm_alloc_base := pmm_alloc_base s + 0x1000, pmm_mutex := 0,
      mem := (mem s)(brk s := 0), pge_list := 0, pge_lock := 0\<rparr>)"
proof -
  from assms(3) have "brk s \<noteq> 0" "pmm_mutex s = 0" by (simp_all add: brk_nonzero pmm_ok_mutex)
  with assms show ?thesis
    by (simp add: pge_alloc_def allocator_alloc_def pge_allocator_def allocator_pop_def
        allocator_release_def Let_def pmm_alloc_page brk_def)
qed

lemma pge_alloc_exhausted:
  "pge_lock s = 0 \<Longrightarrow> pge_list s = 0 \<Longrightarrow> pmm_mutex s = 0 \<Longrightarrow>
   pmm_alloc_base s = pmm_alloc_limit s \<Longrightarrow>
   pge_alloc s = Some (0, s\<lparr>pmm_mutex := 0, pge_lock := 0\<rparr>)"
  by (simp add: pge_alloc_def allocator_alloc_def pge_allocator_def allocator_release_def Let_def
      pmm_alloc_exhausted)

end
