(* ===== verification/Tcb.thy ===== *)
theory Tcb
  imports Alloc
begin

text \<open>
  The table of thread control blocks (\<open>tcb.c\<close>): a two-level table from thread ids to
  blocks, filled lazily, with \<open>tcb_new\<close>, \<open>tcb_del\<close> and \<open>tcb_get\<close>, and the memory
  invariant that keeps the blocks of live threads apart from the free ones.
\<close>

definition TCB_LIMIT :: nat where "TCB_LIMIT = 65536"

text \<open>The entry for an id: null when its subtable has not been allocated.\<close>

definition tcb_entry :: "kernel \<Rightarrow> nat \<Rightarrow> ptr" where
  "tcb_entry s i = (case tcb_table s (i div 512) of None \<Rightarrow> 0 | Some sub \<Rightarrow> sub (i mod 512))"

definition set_tcb_entry :: "nat \<Rightarrow> ptr \<Rightarrow> kernel \<Rightarrow> kernel" where
  "set_tcb_entry i p s = s\<lparr>tcb_table := (tcb_table s)
     (i div 512 := map_option (\<lambda>sub. sub(i mod 512 := p)) (tcb_table s (i div 512)))\<rparr>"

definition tcb_table_release :: "kernel \<Rightarrow> kernel" where
  "tcb_table_release s = s\<lparr>tcb_table_lock := mutex_release (tcb_table_lock s)\<rparr>"

text \<open>Allocates and clears the subtable for index \<open>i\<close> if it is missing; false on failure.\<close>

definition tcb_subtable :: "nat \<Rightarrow> kernel \<Rightarrow> (bool \<times> kernel) option" where
  "tcb_subtable i s =
     (case tcb_table s (i div 512) of
        Some sub \<Rightarrow> Some (True, s)
      | None \<Rightarrow> do {
          (subtab, s) \<leftarrow> pge_alloc s;
          if subtab = 0 then Some (False, s)
          else Some (True, s\<lparr>tcb_table := (tcb_table s)(i div 512 := Some (\<lambda>j. 0))\<rparr>)
        })"

definition tcb_new_init :: "nat \<Rightarrow> tcb \<Rightarrow> tcb" where
  "tcb_new_init i t = t\<lparr>tcb_state := TCB_STATE_SUSPENDED, tcb_id := of_nat i,
     tcb_pcx_id := 0, tcb_xstate := 0, tcb_cs := 0x08, tcb_ss := 0x10,
     tcb_rflags := 0x200200\<rparr>"

text \<open>The search for an empty slot, from index \<open>i\<close> on.\<close>

function tcb_new_search :: "nat \<Rightarrow> ptr \<Rightarrow> kernel \<Rightarrow> (ptr \<times> kernel) option" where
  "tcb_new_search i tcb s =
     (if i < TCB_LIMIT then do {
        (ok, s) \<leftarrow> tcb_subtable i s;
        if \<not> ok then do {
          s \<leftarrow> tcb_free tcb (tcb_table_release s);
          Some (0, s)
        }
        else if tcb_entry s i = 0 then
          Some (tcb, tcb_table_release (upd_tcb tcb (tcb_new_init i) (set_tcb_entry i tcb s)))
        else tcb_new_search (Suc i) tcb s
      } else do {
        s \<leftarrow> tcb_free tcb (tcb_table_release s);
        Some (0, s)
      })"
  by pat_completeness auto
termination
  by (relation "measure (\<lambda>(i, tcb, s). TCB_LIMIT - i)") auto

declare tcb_new_search.simps [simp del]

definition tcb_new :: "kernel \<Rightarrow> (ptr \<times> kernel) option" where
  "tcb_new s = do {
     (tcb, s) \<leftarrow> tcb_alloc s;
     if tcb = 0 then Some (0, s)
     else do {
       m \<leftarrow> mutex_acquire (tcb_table_lock s);
       tcb_new_search 1 tcb (s\<lparr>tcb_table_lock := m\<rparr>)
     }
   }"

definition tcb_del :: "ptr \<Rightarrow> kernel \<Rightarrow> kernel option" where
  "tcb_del tcb s =
     (if tcb = 0 then Some s
      else if tcb_state (tcbs s tcb) = TCB_STATE_FREE then Some s
      else do {
        m \<leftarrow> mutex_acquire (tcb_table_lock s);
        let s = s\<lparr>tcb_table_lock := m\<rparr>;
        let i = unat (tcb_id (tcbs s tcb));
        if TCB_LIMIT \<le> i \<or> tcb_table s (i div 512) = None then Some (tcb_table_release s)
        else tcb_free tcb (tcb_table_release (set_tcb_entry i 0 s))
      })"

definition tcb_get :: "u32 \<Rightarrow> kernel \<Rightarrow> (ptr \<times> kernel) option" where
  "tcb_get thread_id s =
     (if TCB_LIMIT \<le> unat thread_id then Some (0, s)
      else do {
        m \<leftarrow> mutex_acquire (tcb_table_lock s);
        let s = s\<lparr>tcb_table_lock := m\<rparr>;
        if tcb_table s (unat thread_id div 512) = None then Some (0, tcb_table_release s)
        else Some (tcb_entry s (unat thread_id), tcb_table_release s)
      })"

subsection \<open>Table lookups and updates\<close>

lemma tcb_table_lock_same [simp]: "tcb_table_lock s = 0 \<Longrightarrow> s\<lparr>tcb_table_lock := 0\<rparr> = s"
  by (cases s) simp

lemma tcb_get_eq:
  assumes "tcb_table_lock s = 0"
  shows "tcb_get n s = Some (if unat n < TCB_LIMIT then tcb_entry s (unat n) else 0, s)"
  using assms by (auto simp: tcb_get_def tcb_table_release_def tcb_entry_def split: option.splits)

lemma tcb_entry_set:
  assumes "tcb_table s (i div 512) \<noteq> None"
  shows "tcb_entry (set_tcb_entry i p s) = (tcb_entry s)(i := p)"
proof
  fix k show "tcb_entry (set_tcb_entry i p s) k = ((tcb_entry s)(i := p)) k"
  proof (cases "k div 512 = i div 512")
    case True
    then have "k mod 512 = i mod 512 \<longleftrightarrow> k = i" by (metis div_mult_mod_eq)
    with True assms show ?thesis by (auto simp: tcb_entry_def set_tcb_entry_def)
  next
    case False
    then show ?thesis by (auto simp: tcb_entry_def set_tcb_entry_def)
  qed
qed

lemma tcb_entry_cong: "tcb_table s = tcb_table t \<Longrightarrow> tcb_entry s = tcb_entry t"
  by (simp add: tcb_entry_def fun_eq_iff)

lemma tcb_entry_frame [simp]:
  "tcb_entry (upd_tcb p f s) = tcb_entry s"
  "tcb_entry (tcb_table_release s) = tcb_entry s"
  "tcb_entry (s\<lparr>tcb_table_lock := m\<rparr>) = tcb_entry s"
  by (simp_all add: fun_eq_iff tcb_entry_def tcb_table_release_def)

lemma set_tcb_entry_frame [simp]:
  "tcbs (set_tcb_entry i p s) = tcbs s"
  by (simp add: set_tcb_entry_def)

definition live :: "kernel \<Rightarrow> ptr set" where
  "live s = {p. p \<noteq> 0 \<and> (\<exists>i < TCB_LIMIT. tcb_entry s i = p)}"

lemma liveI: "i < TCB_LIMIT \<Longrightarrow> tcb_entry s i \<noteq> 0 \<Longrightarrow> tcb_entry s i \<in> live s"
  by (auto simp: live_def)

subsection \<open>The memory invariant\<close>

text \<open>
  Free blocks \<open>F\<close> form the allocator's list; they and the blocks in the table lie below
  the break in the top gigabyte; no block is both free and in the table; a block in the
  table carries the id it is filed under; the static idle block is neither; the locks of the
  allocators are free.
\<close>

definition block :: "kernel \<Rightarrow> ptr \<Rightarrow> bool" where
  "block s p \<longleftrightarrow> 0xFFFFFFFFC0000000 \<le> p \<and> unat p < unat (brk s)"

definition mem_inv :: "ptr list \<Rightarrow> kernel \<Rightarrow> bool" where
  "mem_inv F s \<longleftrightarrow> pmm_ok s \<and> tcb_lock s = 0 \<and> pge_lock s = 0 \<and> pge_list s = 0 \<and>
     llist (\<lambda>p. tcb_word0 (tcbs s p)) (tcb_list s) F \<and>
     (\<forall>p \<in> set F. block s p) \<and> (\<forall>p \<in> live s. block s p) \<and> block s (idle_tcb s) \<and>
     set F \<inter> live s = {} \<and> idle_tcb s \<notin> set F \<and> idle_tcb s \<notin> live s \<and>
     tcb_entry s 0 = 0 \<and>
     (\<forall>i < TCB_LIMIT. tcb_entry s i \<noteq> 0 \<longrightarrow> tcb_id (tcbs s (tcb_entry s i)) = of_nat i)"

lemma block_nonzero: "block s p \<Longrightarrow> p \<noteq> 0"
  by (auto simp: block_def)

text \<open>The link of a free block never looks like one of the thread states.\<close>

lemma high_halfword:
  fixes w :: u64
  assumes "0xFFFFFFFFC0000000 \<le> w"
  shows "0xC000 \<le> (ucast (drop_bit 16 w) :: u16)"
proof -
  define q where "q = uint w div 2 ^ 16"
  have lo: "0xFFFFFFFFC0000000 \<le> uint w" using assms by (simp add: word_le_def)
  have hi: "uint w < 2 ^ LENGTH(64)" by (rule unsigned_less)
  have "0xFFFFFFFFC000 \<le> q" and "q < 0x1000000000000"
    using lo hi by (simp_all add: q_def)
  then obtain r where r: "q = 0xFFFFFFFFC000 + r" "0 \<le> r" "r < 0x4000"
    using that [of "q - 0xFFFFFFFFC000"] by simp
  have "q mod 2 ^ 16 = (0xFFFFFFFFC000 mod 2 ^ 16 + r) mod 2 ^ 16"
    unfolding r(1) by (rule mod_add_left_eq [symmetric])
  then have "0xC000 \<le> q mod 2 ^ 16" using r(2,3) by simp
  then show ?thesis
    by (simp add: word_le_def unsigned_ucast_eq take_bit_eq_mod unsigned_drop_bit_eq
        drop_bit_eq_div uint_div_distrib q_def)
qed

lemma free_link:
  "llist nx p F \<Longrightarrow> x \<in> set F \<Longrightarrow> nx x = 0 \<or> nx x \<in> set F"
proof (induction F arbitrary: p)
  case Nil
  then show ?case by simp
next
  case (Cons a F)
  then show ?case by (cases F) auto
qed

lemma tcb_state_word0: "tcb_state t = ucast (drop_bit 16 (tcb_word0 t))"
  by (rule bit_word_eqI) (auto simp: tcb_word0_def bit_simps dest: bit_imp_le_length)

lemma free_state:
  assumes "mem_inv F s" "p \<in> set F"
  shows "st s p = TCB_STATE_FREE \<or> 0xC000 \<le> st s p"
proof -
  from assms have "tcb_word0 (tcbs s p) = 0 \<or> tcb_word0 (tcbs s p) \<in> set F"
    unfolding mem_inv_def by (auto dest: free_link)
  then show ?thesis
  proof
    assume "tcb_word0 (tcbs s p) = 0"
    then show ?thesis by (simp add: tcb_state_word0 TCB_STATE_FREE_def)
  next
    assume "tcb_word0 (tcbs s p) \<in> set F"
    with assms(1) have "0xFFFFFFFFC0000000 \<le> tcb_word0 (tcbs s p)"
      by (auto simp: mem_inv_def block_def)
    then show ?thesis by (simp add: tcb_state_word0 high_halfword)
  qed
qed

lemma free_not_thread_state:
  assumes "mem_inv F s" "p \<in> set F"
  shows "st s p \<noteq> TCB_STATE_SUSPENDEDWAITING" "st s p \<noteq> TCB_STATE_SUSPENDED"
    "st s p \<noteq> TCB_STATE_WAITING" "st s p \<noteq> TCB_STATE_QUEUED" "st s p \<noteq> TCB_STATE_RUNNING"
  using free_state [OF assms] by (auto simp: tcb_state_defs word_le_nat_alt)

subsection \<open>Frame lemmas\<close>

definition mem_view where
  "mem_view s = (pmm_view s, (tcb_lock s, pge_lock s, pge_list s),
     tcb_list s, tcbs s, tcb_table s, idle_tcb s)"

text \<open>Everything the memory operations leave alone.\<close>

definition outside where
  "outside s = (schedule_head s, schedule_tail s, idle_tcb s, pagefault_queue s,
     miscfault_queue s, zombie_queue s, the_ccb s, interrupt_vector_page_table s,
     (pcx_root s, pcx_root_lock s, cr3 s, pmm_base s, pmm_map_high s))"

lemma block_view: "pmm_view s = pmm_view t \<Longrightarrow> block s = block t"
  by (simp add: fun_eq_iff block_def brk_view [of s t])

lemma live_cong: "tcb_table s = tcb_table t \<Longrightarrow> live s = live t"
  by (simp add: live_def tcb_entry_cong [of s t])

lemma mem_inv_view:
  assumes "mem_inv F s" "mem_view t = mem_view s"
  shows "mem_inv F t"
proof -
  from assms(2) have v: "pmm_view t = pmm_view s" and tab: "tcb_table t = tcb_table s"
    and rest: "tcb_lock t = tcb_lock s" "pge_lock t = pge_lock s" "pge_list t = pge_list s"
      "tcb_list t = tcb_list s" "tcbs t = tcbs s"
      "idle_tcb t = idle_tcb s"
    by (simp_all add: mem_view_def)
  show ?thesis
    using assms(1)
    by (simp add: mem_inv_def rest pmm_ok_view [OF v] block_view [OF v] live_cong [OF tab]
        tcb_entry_cong [OF tab])
qed

text \<open>Writes to a block that touch neither a free block's link nor an id keep the invariant.\<close>

lemma mem_inv_upd_tcb:
  assumes "mem_inv F s" "\<And>t. tcb_id (f t) = tcb_id t"
    and "p \<notin> set F \<or> (\<forall>t. tcb_word0 (f t) = tcb_word0 t)"
  shows "mem_inv F (upd_tcb p f s)"
proof -
  let ?s = "upd_tcb p f s"
  have v: "pmm_view ?s = pmm_view s" by (simp add: pmm_view_def)
  have lv: "live ?s = live s" by (rule live_cong) simp
  have "llist (\<lambda>q. tcb_word0 (tcbs ?s q)) (tcb_list s) F =
      llist (\<lambda>q. tcb_word0 (tcbs s q)) (tcb_list s) F"
    using assms(3) by (intro llist_cong) auto
  then show ?thesis
    using assms(1,2)
    by (auto simp: mem_inv_def pmm_ok_view [OF v] block_view [OF v] lv)
qed

lemma tcb_word0_frame [simp]:
  "tcb_word0 (t\<lparr>tcb_next := x\<rparr>) = tcb_word0 t"
  "tcb_word0 (t\<lparr>tcb_tap := tp\<rparr>) = tcb_word0 t"
  "tcb_word0 (t\<lparr>tcb_rax := r\<rparr>) = tcb_word0 t"
  by (simp_all add: tcb_word0_def)

subsection \<open>Allocation and release of blocks\<close>

text \<open>A block that is allocated but not yet filed: not free, not in the table, not the idle block.\<close>

definition limbo :: "ptr \<Rightarrow> ptr list \<Rightarrow> kernel \<Rightarrow> bool" where
  "limbo p F s \<longleftrightarrow> block s p \<and> p \<notin> set F \<and> p \<notin> live s \<and> p \<noteq> idle_tcb s"

lemma mem_inv_pmm_step:
  assumes "mem_inv F s" "pmm_alloc_base s \<noteq> pmm_alloc_limit s"
  defines "s' \<equiv> s\<lparr>pmm_alloc_base := pmm_alloc_base s + 0x1000, pmm_mutex := 0\<rparr>"
  shows "mem_inv F s'" and "limbo (brk s) F s'" and "unat (brk s) \<le> unat (brk s')"
    and "\<And>p. block s p \<Longrightarrow> block s' p"
proof -
  have ok: "pmm_ok s" using assms(1) by (simp add: mem_inv_def)
  note step = pmm_alloc_step [OF ok assms(2), folded s'_def]
  show le: "unat (brk s) \<le> unat (brk s')" using step(2) by simp
  show blk: "block s' p" if "block s p" for p
    using that le by (auto simp: block_def)
  have lv: "live s' = live s" by (rule live_cong) (simp add: s'_def)
  have ent: "tcb_entry s' = tcb_entry s" by (rule tcb_entry_cong) (simp add: s'_def)
  have fields: "tcb_lock s' = tcb_lock s" "pge_lock s' = pge_lock s" "pge_list s' = pge_list s"
    "tcb_list s' = tcb_list s" "tcbs s' = tcbs s"
    "idle_tcb s' = idle_tcb s" by (simp_all add: s'_def)
  show "mem_inv F s'"
    using assms(1) step(1) blk by (auto simp: mem_inv_def fields lv ent)
  have "block s' (brk s)" using step(2) brk_high [OF ok] by (simp add: block_def)
  moreover have "brk s \<notin> set F" "brk s \<notin> live s" "brk s \<noteq> idle_tcb s"
    using assms(1) by (auto simp: mem_inv_def block_def)
  ultimately show "limbo (brk s) F s'" by (simp add: limbo_def lv fields)
qed

lemma limbo_view: "mem_view t = mem_view s \<Longrightarrow> limbo p F t = limbo p F s"
proof -
  assume "mem_view t = mem_view s"
  then have "pmm_view t = pmm_view s" "tcb_table t = tcb_table s" "idle_tcb t = idle_tcb s"
    by (simp_all add: mem_view_def)
  then show ?thesis by (simp add: limbo_def block_view [of t s] live_cong [of t s])
qed

lemma mem_inv_drop_free:
  assumes "mem_inv (p # F) s"
  shows "mem_inv F (s\<lparr>tcb_list := tcb_word0 (tcbs s p)\<rparr>)" "limbo p F (s\<lparr>tcb_list := w\<rparr>)"
proof -
  from assms have "llist (\<lambda>p. tcb_word0 (tcbs s p)) (tcb_list s) (p # F)"
    unfolding mem_inv_def by blast
  then have d: "distinct (p # F)" by (rule llist_distinct)
  let ?s = "\<lambda>w. s\<lparr>tcb_list := w\<rparr>"
  have v: "pmm_view (?s w) = pmm_view s" for w by (simp add: pmm_view_def)
  have tab: "tcb_table (?s w) = tcb_table s" for w by simp
  show "mem_inv F (?s (tcb_word0 (tcbs s p)))"
    using assms by (auto simp: mem_inv_def pmm_ok_view [OF v] block_view [OF v]
        live_cong [OF tab] tcb_entry_cong [OF tab])
  show "limbo p F (?s w)"
    using assms d by (auto simp: mem_inv_def limbo_def block_view [OF v] live_cong [OF tab])
qed

lemma mem_inv_add_free:
  assumes "mem_inv F s" "limbo p F s"
  shows "mem_inv (p # F) ((upd_tcb p (tcb_set_word0 (tcb_list s)) s)\<lparr>tcb_list := p\<rparr>)"
proof -
  let ?s = "(upd_tcb p (tcb_set_word0 (tcb_list s)) s)\<lparr>tcb_list := p\<rparr>"
  have v: "pmm_view ?s = pmm_view s" by (simp add: pmm_view_def)
  have tab: "tcb_table ?s = tcb_table s" by simp
  have "llist (\<lambda>q. tcb_word0 (tcbs ?s q)) (tcb_list s) F =
      llist (\<lambda>q. tcb_word0 (tcbs s q)) (tcb_list s) F"
    using assms(2) by (intro llist_cong) (auto simp: limbo_def)
  moreover have "p \<noteq> 0" using assms(2) block_nonzero by (auto simp: limbo_def)
  ultimately show ?thesis
    using assms
    by (auto simp: mem_inv_def limbo_def pmm_ok_view [OF v] block_view [OF v]
        live_cong [OF tab] tcb_entry_cong [OF tab] dest: liveI)
qed

text \<open>
  \<open>mem_step p F s F' s'\<close>: a step of the memory manager that may have changed the block
  at \<open>p\<close> and nothing else a thread can see.
\<close>

definition mem_step :: "ptr \<Rightarrow> ptr list \<Rightarrow> kernel \<Rightarrow> ptr list \<Rightarrow> kernel \<Rightarrow> bool" where
  "mem_step p F s F' s' \<longleftrightarrow> outside s' = outside s \<and> set F \<subseteq> insert p (set F') \<and>
     (\<forall>q. q \<noteq> p \<longrightarrow> tcbs s' q = tcbs s q) \<and> (\<forall>q. block s q \<longrightarrow> block s' q)"

lemma mem_step_trans:
  "mem_step p F s F' s' \<Longrightarrow> mem_step p F' s' F'' s'' \<Longrightarrow> mem_step p F s F'' s''"
  unfolding mem_step_def by auto

lemma mem_step_pmm:
  assumes "mem_inv F s" "pmm_alloc_base s \<noteq> pmm_alloc_limit s"
  shows "mem_step p F s F (s\<lparr>pmm_alloc_base := pmm_alloc_base s + 0x1000, pmm_mutex := 0\<rparr>)"
  using mem_inv_pmm_step(4) [OF assms] by (auto simp: mem_step_def outside_def)

lemma tcb_alloc_spec:
  assumes "mem_inv F s"
  obtains p s' F' where "tcb_alloc s = Some (p, s')" "mem_inv F' s'" "mem_step p F s F' s'"
    "tcb_table s' = tcb_table s" "p = 0 \<longrightarrow> F' = F \<and> tcbs s' = tcbs s" "p \<noteq> 0 \<longrightarrow> limbo p F' s'"
    "\<forall>q. tcb_next (tcbs s' q) = tcb_next (tcbs s q) \<and> tcb_tap (tcbs s' q) = tcb_tap (tcbs s q)"
    "tcb_table_lock s' = tcb_table_lock s"
proof (cases F)
  case (Cons x G)
  with assms have x: "tcb_list s = x" "x \<noteq> 0" "tcb_lock s = 0" by (auto simp: mem_inv_def)
  let ?s = "s\<lparr>tcb_list := tcb_word0 (tcbs s x), tcb_lock := 0\<rparr>"
  have view: "mem_view ?s = mem_view (s\<lparr>tcb_list := tcb_word0 (tcbs s x)\<rparr>)"
    using x by (simp add: mem_view_def pmm_view_def)
  have "tcb_alloc s = Some (x, ?s)" using tcb_alloc_reuse x by simp
  moreover have "mem_inv G ?s" using mem_inv_view [OF mem_inv_drop_free(1) view] assms Cons by simp
  moreover have "limbo x G ?s"
    using limbo_view [OF view] mem_inv_drop_free(2) assms Cons by simp
  moreover have "block ?s = block s" by (rule block_view) (simp add: pmm_view_def)
  then have "mem_step x F s G ?s" using Cons by (auto simp: mem_step_def outside_def)
  ultimately show ?thesis using that [of x ?s G] x by simp
next
  case Nil
  with assms have e: "tcb_list s = 0" "tcb_lock s = 0" "pmm_ok s" by (auto simp: mem_inv_def)
  show ?thesis
  proof (cases "pmm_alloc_base s = pmm_alloc_limit s")
    case True
    let ?s = "s\<lparr>pmm_mutex := 0, tcb_lock := 0\<rparr>"
    have view: "mem_view ?s = mem_view s"
      using e pmm_ok_mutex [OF e(3)] by (simp add: mem_view_def pmm_view_def)
    have "tcb_alloc s = Some (0, ?s)"
      using e True pmm_ok_mutex [OF e(3)] by (simp add: tcb_alloc_exhausted)
    moreover have "block ?s = block s"
      using view by (intro block_view) (simp add: mem_view_def)
    then have "mem_step 0 F s F ?s" by (auto simp: mem_step_def outside_def)
    ultimately show ?thesis using that [of 0 ?s F] mem_inv_view [OF assms view] by simp
  next
    case False
    let ?p = "brk s"
    let ?s1 = "s\<lparr>pmm_alloc_base := pmm_alloc_base s + 0x1000, pmm_mutex := 0\<rparr>"
    let ?s = "(upd_tcb ?p (tcb_set_word0 0) s)\<lparr>pmm_alloc_base := pmm_alloc_base s + 0x1000,
      pmm_mutex := 0, tcb_list := 0, tcb_lock := 0\<rparr>"
    let ?t = "(upd_tcb ?p (tcb_set_word0 (tcb_list ?s1)) ?s1)\<lparr>tcb_list := ?p\<rparr>"
    note step = mem_inv_pmm_step [OF assms False]
    have "mem_inv [?p] ?t" using mem_inv_add_free [OF step(1,2)] Nil by simp
    note drop = mem_inv_drop_free [OF this]
    have view: "mem_view ?s = mem_view (?t\<lparr>tcb_list := tcb_word0 (tcbs ?t ?p)\<rparr>)"
      using e by (simp add: mem_view_def pmm_view_def)
    have "tcb_alloc s = Some (?p, ?s)" using e False by (simp add: tcb_alloc_fresh)
    moreover have "mem_inv [] ?s" using mem_inv_view [OF drop(1) view] .
    moreover have "limbo ?p [] ?s" using limbo_view [OF view] drop(2) by simp
    moreover have "block ?s = block ?s1" by (rule block_view) (simp add: pmm_view_def)
    then have "mem_step ?p F s [] ?s"
      using step(4) Nil by (auto simp: mem_step_def outside_def)
    ultimately show ?thesis
      using that [of ?p ?s "[]"] brk_nonzero [OF e(3)] by (simp add: upd_tcb_def)
  qed
qed

lemma tcb_free_spec:
  assumes "mem_inv F s" "limbo p F s"
  obtains s' where "tcb_free p s = Some s'" "mem_inv (p # F) s'" "mem_step p F s (p # F) s'"
    "tcb_table s' = tcb_table s"
    "\<forall>q. tcb_next (tcbs s' q) = tcb_next (tcbs s q) \<and> tcb_tap (tcbs s' q) = tcb_tap (tcbs s q)"
    "tcb_table_lock s' = tcb_table_lock s"
proof -
  have lock: "tcb_lock s = 0" using assms(1) by (simp add: mem_inv_def)
  let ?t = "(upd_tcb p (tcb_set_word0 (tcb_list s)) s)\<lparr>tcb_list := p\<rparr>"
  let ?s = "(upd_tcb p (tcb_set_word0 (tcb_list s)) s)\<lparr>tcb_list := p, tcb_lock := 0\<rparr>"
  have view: "mem_view ?s = mem_view ?t" using lock by (simp add: mem_view_def pmm_view_def)
  have blk: "block ?s = block s" by (rule block_view) (simp add: pmm_view_def)
  show ?thesis
  proof (rule that)
    show "tcb_free p s = Some ?s" using lock by (rule tcb_free_eq)
    show "mem_inv (p # F) ?s" by (rule mem_inv_view [OF mem_inv_add_free [OF assms] view])
    show "mem_step p F s (p # F) ?s" using blk by (auto simp: mem_step_def outside_def)
  qed (simp_all add: upd_tcb_def)
qed

lemma pge_alloc_spec:
  assumes "mem_inv F s"
  obtains page s' where "pge_alloc s = Some (page, s')" "mem_inv F s'" "tcbs s' = tcbs s"
    "tcb_table s' = tcb_table s" "outside s' = outside s" "tcb_table_lock s' = tcb_table_lock s"
    "\<And>p. block s p \<Longrightarrow> block s' p" "\<And>p. limbo p F s \<Longrightarrow> limbo p F s'"
proof (cases "pmm_alloc_base s = pmm_alloc_limit s")
  case True
  from assms have e: "pge_list s = 0" "pge_lock s = 0" "pmm_ok s" by (auto simp: mem_inv_def)
  let ?s = "s\<lparr>pmm_mutex := 0, pge_lock := 0\<rparr>"
  have view: "mem_view ?s = mem_view s"
    using e pmm_ok_mutex [OF e(3)] by (simp add: mem_view_def pmm_view_def)
  then have "block ?s = block s" by (intro block_view) (simp add: mem_view_def)
  then show ?thesis
    using that [of 0 ?s] e True pmm_ok_mutex [OF e(3)] mem_inv_view [OF assms view]
      limbo_view [OF view] by (simp add: pge_alloc_exhausted outside_def)
next
  case False
  from assms have e: "pge_list s = 0" "pge_lock s = 0" "pmm_ok s" by (auto simp: mem_inv_def)
  let ?s1 = "s\<lparr>pmm_alloc_base := pmm_alloc_base s + 0x1000, pmm_mutex := 0\<rparr>"
  let ?s = "s\<lparr>pmm_alloc_base := pmm_alloc_base s + 0x1000, pmm_mutex := 0,
    mem := (mem s)(brk s := 0), pge_list := 0, pge_lock := 0\<rparr>"
  note step = mem_inv_pmm_step [OF assms False]
  have view: "mem_view ?s = mem_view ?s1" using e by (simp add: mem_view_def pmm_view_def)
  have lv: "live ?s1 = live s" "live ?s = live s" by (simp_all add: live_def tcb_entry_def)
  have "block ?s = block ?s1" by (rule block_view) (simp add: pmm_view_def)
  moreover from this have "limbo p F ?s" if "limbo p F s" for p
    using that step(4) lv by (auto simp: limbo_def)
  ultimately show ?thesis
    using that [of "brk s" ?s] e False step mem_inv_view [OF step(1) view]
    by (simp add: pge_alloc_fresh outside_def)
qed

subsection \<open>The table operations\<close>

lemma tcb_subtable_spec:
  assumes "mem_inv F s"
  obtains ok s' where "tcb_subtable i s = Some (ok, s')" "mem_inv F s'" "tcbs s' = tcbs s"
    "tcb_entry s' = tcb_entry s" "outside s' = outside s" "tcb_table_lock s' = tcb_table_lock s"
    "\<And>p. block s p \<Longrightarrow> block s' p" "\<And>p. limbo p F s \<Longrightarrow> limbo p F s'"
    "ok \<Longrightarrow> tcb_table s' (i div 512) \<noteq> None"
proof (cases "tcb_table s (i div 512)")
  case (Some sub)
  then show ?thesis using that [of True s] assms by (simp add: tcb_subtable_def)
next
  case None
  obtain page t where alloc: "pge_alloc s = Some (page, t)" "mem_inv F t" "tcbs t = tcbs s"
    "tcb_table t = tcb_table s" "outside t = outside s" "tcb_table_lock t = tcb_table_lock s"
    "\<And>p. block s p \<Longrightarrow> block t p" "\<And>p. limbo p F s \<Longrightarrow> limbo p F t"
    using pge_alloc_spec [OF assms] by blast
  let ?t = "t\<lparr>tcb_table := (tcb_table t)(i div 512 := Some (\<lambda>j. 0))\<rparr>"
  have ent: "tcb_entry t = tcb_entry s" using alloc(4) by (rule tcb_entry_cong)
  have ent': "tcb_entry ?t = tcb_entry s"
    using None alloc(4) by (auto simp: fun_eq_iff tcb_entry_def)
  have v: "pmm_view ?t = pmm_view t" by (simp add: pmm_view_def)
  have lv: "live ?t = live t" using ent ent' by (simp add: live_def)
  have "mem_inv F ?t"
    using alloc(2) ent ent' lv by (simp add: mem_inv_def pmm_ok_view [OF v] block_view [OF v])
  moreover have "limbo p F ?t" if "limbo p F s" for p
    using alloc(8) [OF that] lv by (simp add: limbo_def block_view [OF v])
  moreover have "outside ?t = outside s" using alloc(5) by (simp add: outside_def)
  ultimately have post: "mem_inv F ?t" "\<And>p. limbo p F s \<Longrightarrow> limbo p F ?t" "outside ?t = outside s"
    by blast+
  show ?thesis
  proof (cases "page = 0")
    case True
    then show ?thesis using that [of False t] None alloc ent by (simp add: tcb_subtable_def)
  next
    case False
    show ?thesis
    proof (rule that [of True ?t])
      show "tcb_subtable i s = Some (True, ?t)"
        using None alloc(1) False by (simp add: tcb_subtable_def)
      show "block s p \<Longrightarrow> block ?t p" for p using alloc(7) by (simp add: block_view [OF v])
    qed (use post alloc ent' in simp_all)
  qed
qed

text \<open>Filing a block under an id.\<close>

lemma mem_inv_file:
  assumes inv: "mem_inv F s" and limbo: "limbo p F s"
    and slot: "0 < i" "i < TCB_LIMIT" "tcb_entry s i = 0" "tcb_table s (i div 512) \<noteq> None"
  defines "s' \<equiv> tcb_table_release (upd_tcb p (tcb_new_init i) (set_tcb_entry i p s))"
  shows "mem_inv F s'" "live s' = insert p (live s)" "tcb_entry s' = (tcb_entry s)(i := p)"
    "tcbs s' = (tcbs s)(p := tcb_new_init i (tcbs s p))" "outside s' = outside s"
    "tcb_table_lock s' = 0" "block s' = block s"
proof -
  have v: "pmm_view s' = pmm_view s"
    by (simp add: s'_def pmm_view_def upd_tcb_def set_tcb_entry_def tcb_table_release_def)
  show blk: "block s' = block s" by (rule block_view [OF v])
  show ent: "tcb_entry s' = (tcb_entry s)(i := p)"
    using tcb_entry_set [OF slot(4)] by (simp add: s'_def)
  show tcbs: "tcbs s' = (tcbs s)(p := tcb_new_init i (tcbs s p))"
    by (simp add: s'_def tcb_table_release_def)
  show "outside s' = outside s" "tcb_table_lock s' = 0"
    by (simp_all add: s'_def outside_def upd_tcb_def set_tcb_entry_def tcb_table_release_def)
  have p: "p \<noteq> 0" "p \<notin> set F" "p \<notin> live s" "p \<noteq> idle_tcb s" "block s p"
    using limbo block_nonzero by (auto simp: limbo_def)
  show lv: "live s' = insert p (live s)"
    unfolding live_def ent using slot p(1) by auto
  have ll: "llist (\<lambda>q. tcb_word0 (tcbs s' q)) (tcb_list s) F =
      llist (\<lambda>q. tcb_word0 (tcbs s q)) (tcb_list s) F"
    using p(2) by (intro llist_cong) (auto simp: tcbs)
  have fields: "tcb_lock s' = tcb_lock s" "pge_lock s' = pge_lock s" "pge_list s' = pge_list s"
    "tcb_list s' = tcb_list s" "idle_tcb s' = idle_tcb s"
    by (simp_all add: s'_def upd_tcb_def set_tcb_entry_def tcb_table_release_def)
  have ids: "\<forall>k < TCB_LIMIT. tcb_entry s' k \<noteq> 0 \<longrightarrow>
      tcb_id (tcbs s' (tcb_entry s' k)) = of_nat k"
    using inv p(3) by (auto simp: mem_inv_def ent tcbs tcb_new_init_def dest: liveI)
  show "mem_inv F s'"
    using inv p slot(1) ids
    by (auto simp: mem_inv_def fields ll lv blk pmm_ok_view [OF v] ent)
qed

lemma tcb_new_search_spec:
  assumes "mem_inv F s" "limbo p F s" "0 < i"
  obtains (none) s' where "tcb_new_search i p s = Some (0, s')" "mem_inv (p # F) s'"
      "mem_step p F s (p # F) s'" "tcb_entry s' = tcb_entry s" "tcb_table_lock s' = 0"
    | (found) k s' where "tcb_new_search i p s = Some (p, s')" "mem_inv F s'"
      "mem_step p F s F s'" "tcb_table_lock s' = 0" "i \<le> k" "k < TCB_LIMIT"
      "tcb_entry s k = 0" "\<forall>j. i \<le> j \<and> j < k \<longrightarrow> tcb_entry s j \<noteq> 0"
      "tcb_entry s' = (tcb_entry s)(k := p)" "live s' = insert p (live s)"
      "tcbs s' p = tcb_new_init k (tcbs s p)"
  using assms
proof (induction i p s arbitrary: thesis rule: tcb_new_search.induct)
  case (1 i p s)
  note IH = "1.IH" and none = "1.prems"(1) and found = "1.prems"(2)
    and inv = "1.prems"(3) and limbo = "1.prems"(4)
  have fail: thesis if "tcb_new_search i p s = do { s \<leftarrow> tcb_free p (tcb_table_release t); Some (0, s) }"
    and t: "mem_inv F t" "limbo p F t" "tcbs t = tcbs s" "outside t = outside s"
      "tcb_entry t = tcb_entry s" "\<And>p. block s p \<Longrightarrow> block t p" for t
  proof -
    have view: "mem_view (tcb_table_release t) = mem_view t"
      by (simp add: mem_view_def pmm_view_def tcb_table_release_def)
    have limbo': "limbo p F (tcb_table_release t)" using limbo_view [OF view] t(2) by simp
    obtain u where u: "tcb_free p (tcb_table_release t) = Some u" "mem_inv (p # F) u"
      "mem_step p F (tcb_table_release t) (p # F) u" "tcb_table u = tcb_table (tcb_table_release t)"
      "tcb_table_lock u = tcb_table_lock (tcb_table_release t)"
      using tcb_free_spec [OF mem_inv_view [OF t(1) view] limbo'] by blast
    have "block (tcb_table_release t) = block t"
      using view by (intro block_view) (simp add: mem_view_def)
    moreover have "outside (tcb_table_release t) = outside t" "tcbs (tcb_table_release t) = tcbs t"
      by (simp_all add: outside_def tcb_table_release_def)
    ultimately have "mem_step p F s (p # F) u"
      using u(3) t(3,4,6) by (auto simp: mem_step_def)
    moreover have "tcb_entry u = tcb_entry s" using tcb_entry_cong [OF u(4)] t(5) by simp
    ultimately show thesis
      using that(1) u by (intro none [of u]) (simp_all add: tcb_table_release_def)
  qed
  show thesis
  proof (cases "i < TCB_LIMIT")
    case False
    then have "tcb_new_search i p s =
        do { s \<leftarrow> tcb_free p (tcb_table_release s); Some (0, s) }"
      by (simp add: tcb_new_search.simps [of i p s])
    then show thesis by (rule fail) (use inv limbo in simp_all)
  next
    case True
    obtain ok t where sub: "tcb_subtable i s = Some (ok, t)" "mem_inv F t" "tcbs t = tcbs s"
      "tcb_entry t = tcb_entry s" "outside t = outside s" "\<And>p. block s p \<Longrightarrow> block t p"
      "limbo p F t" "ok \<Longrightarrow> tcb_table t (i div 512) \<noteq> None"
      using tcb_subtable_spec [OF inv, of i] limbo by metis
    consider (oom) "\<not> ok" | (hit) "ok" "tcb_entry s i = 0" | (skip) "ok" "tcb_entry s i \<noteq> 0"
      by blast
    then show thesis
    proof cases
      case oom
      then have "tcb_new_search i p s =
          do { s \<leftarrow> tcb_free p (tcb_table_release t); Some (0, s) }"
        using True sub(1) by (simp add: tcb_new_search.simps [of i p s])
      then show thesis by (rule fail) (use sub in simp_all)
    next
      case hit
      let ?u = "tcb_table_release (upd_tcb p (tcb_new_init i) (set_tcb_entry i p t))"
      have "tcb_entry t i = 0" "tcb_table t (i div 512) \<noteq> None" using hit sub by simp_all
      note filed = mem_inv_file [OF sub(2,7) "1.prems"(5) True this]
      have "mem_step p F s F ?u"
        using filed sub by (auto simp: mem_step_def)
      moreover have "tcb_new_search i p s = Some (p, ?u)"
        using True hit sub by (simp add: tcb_new_search.simps [of i p s])
      moreover have "live ?u = insert p (live s)"
        using filed(2) sub(4) by (simp add: live_def)
      ultimately show thesis
        using filed sub True hit by (intro found [of ?u i]) auto
    next
      case skip
      have eq: "tcb_new_search i p s = tcb_new_search (Suc i) p t"
        using True skip sub(1,4) by (simp add: tcb_new_search.simps [of i p s])
      have step: "mem_step p F s F t" using sub by (auto simp: mem_step_def)
      have lv: "live t = live s" using sub(4) by (simp add: live_def)
      show thesis
      proof (rule IH [OF True sub(1) refl])
        fix u
        assume u: "tcb_new_search (Suc i) p t = Some (0, u)" "mem_inv (p # F) u"
          "mem_step p F t (p # F) u" "tcb_entry u = tcb_entry t" "tcb_table_lock u = 0"
        from mem_step_trans [OF step u(3)] show thesis
          using u eq sub(4) by (intro none [of u]) simp_all
      next
        fix k u
        assume u: "tcb_new_search (Suc i) p t = Some (p, u)" "mem_inv F u" "mem_step p F t F u"
          "tcb_table_lock u = 0" "Suc i \<le> k" "k < TCB_LIMIT" "tcb_entry t k = 0"
          "\<forall>j. Suc i \<le> j \<and> j < k \<longrightarrow> tcb_entry t j \<noteq> 0"
          "tcb_entry u = (tcb_entry t)(k := p)" "live u = insert p (live t)"
          "tcbs u p = tcb_new_init k (tcbs t p)"
        have "\<forall>j. i \<le> j \<and> j < k \<longrightarrow> tcb_entry s j \<noteq> 0"
          using u(8) skip(2) sub(4) le_eq_less_or_eq Suc_le_eq by metis
        with mem_step_trans [OF step u(3)] show thesis
          using u eq sub(3,4) lv by (intro found [of u k]) simp_all
      qed (use sub skip in simp_all)
    qed
  qed
qed

text \<open>
  \<open>tcb_new\<close> either fails and leaves the table alone, or files a block that nobody holds
  under the least free id.
\<close>

lemma tcb_new_spec:
  assumes "mem_inv F s" "tcb_table_lock s = 0"
  obtains (none) p s' F' where "tcb_new s = Some (0, s')" "mem_inv F' s'" "mem_step p F s F' s'"
      "p \<notin> live s" "p \<noteq> idle_tcb s" "set F \<subseteq> set F'" "tcb_entry s' = tcb_entry s"
      "live s' = live s" "tcb_table_lock s' = 0"
    | (created) p k s' F' where "tcb_new s = Some (p, s')" "mem_inv F' s'"
      "mem_step p F s F' s'" "p \<notin> live s" "p \<noteq> idle_tcb s" "p \<noteq> 0" "tcb_table_lock s' = 0"
      "0 < k" "k < TCB_LIMIT" "tcb_entry s k = 0" "\<forall>j. 0 < j \<and> j < k \<longrightarrow> tcb_entry s j \<noteq> 0"
      "tcb_entry s' = (tcb_entry s)(k := p)" "live s' = insert p (live s)"
      "st s' p = TCB_STATE_SUSPENDED" "tcb_id (tcbs s' p) = of_nat k"
proof -
  obtain p t G where alloc: "tcb_alloc s = Some (p, t)" "mem_inv G t" "mem_step p F s G t"
    "tcb_table t = tcb_table s" "p = 0 \<longrightarrow> G = F \<and> tcbs t = tcbs s" "p \<noteq> 0 \<longrightarrow> limbo p G t"
    "tcb_table_lock t = tcb_table_lock s"
    using tcb_alloc_spec [OF assms(1)] by metis
  have ent: "tcb_entry t = tcb_entry s" using alloc(4) by (rule tcb_entry_cong)
  have lv: "live t = live s" using alloc(4) by (rule live_cong)
  have idle: "idle_tcb t = idle_tcb s" using alloc(3) by (simp add: mem_step_def outside_def)
  show ?thesis
  proof (cases "p = 0")
    case True
    have "0 \<notin> live s" by (simp add: live_def)
    moreover have "idle_tcb s \<noteq> 0" using assms(1) block_nonzero by (auto simp: mem_inv_def)
    ultimately show ?thesis
      using none [of t G 0] alloc ent lv True assms(2) by (simp add: tcb_new_def)
  next
    case False
    let ?t = "t\<lparr>tcb_table_lock := 1\<rparr>"
    have view: "mem_view ?t = mem_view t" by (simp add: mem_view_def pmm_view_def)
    have limbo: "limbo p G ?t" using alloc(6) False limbo_view [OF view] by simp
    have p: "p \<notin> live s" "p \<noteq> idle_tcb s" using alloc(6) False lv idle by (auto simp: limbo_def)
    have new: "tcb_new s = tcb_new_search 1 p ?t"
      using alloc(1,7) False assms(2) by (simp add: tcb_new_def)
    have step: "mem_step p F s G ?t"
      using alloc(3) block_view [of ?t t] view
      by (simp add: mem_step_def outside_def mem_view_def)
    have lv': "live ?t = live s" using lv by (simp add: live_def)
    have pos: "(0 :: nat) < 1" by simp
    show ?thesis
    proof (rule tcb_new_search_spec [OF mem_inv_view [OF alloc(2) view] limbo pos])
      fix u
      assume u: "tcb_new_search 1 p ?t = Some (0, u)" "mem_inv (p # G) u"
        "mem_step p G ?t (p # G) u" "tcb_entry u = tcb_entry ?t" "tcb_table_lock u = 0"
      have "live u = live s" using u(4) lv' by (simp add: live_def)
      moreover have "set F \<subseteq> set (p # G)" using step by (auto simp: mem_step_def)
      ultimately show ?thesis
        using u new p mem_step_trans [OF step u(3)] ent
        by (intro none [of u "p # G" p]) simp_all
    next
      fix k u
      assume u: "tcb_new_search 1 p ?t = Some (p, u)" "mem_inv G u" "mem_step p G ?t G u"
        "tcb_table_lock u = 0" "1 \<le> k" "k < TCB_LIMIT" "tcb_entry ?t k = 0"
        "\<forall>j. 1 \<le> j \<and> j < k \<longrightarrow> tcb_entry ?t j \<noteq> 0" "tcb_entry u = (tcb_entry ?t)(k := p)"
        "live u = insert p (live ?t)" "tcbs u p = tcb_new_init k (tcbs ?t p)"
      show ?thesis
        using u new p False mem_step_trans [OF step u(3)] ent lv'
        by (intro created [of p u G k]) (simp_all add: tcb_new_init_def Suc_le_eq)
    qed
  qed
qed

text \<open>\<open>tcb_del\<close> on a filed block empties its slot and frees the block.\<close>

lemma tcb_del_spec:
  assumes "mem_inv F s" "tcb_table_lock s = 0"
    and "i < TCB_LIMIT" "tcb_entry s i = p" "p \<noteq> 0" "st s p \<noteq> TCB_STATE_FREE"
  obtains s' where "tcb_del p s = Some s'" "mem_inv (p # F) s'" "mem_step p F s (p # F) s'"
    "tcb_entry s' = (tcb_entry s)(i := 0)" "live s' = live s - {p}" "tcb_table_lock s' = 0"
proof -
  have id: "tcb_id (tcbs s p) = of_nat i" and p: "p \<in> live s" "p \<notin> set F"
    using assms by (auto simp: mem_inv_def dest: liveI)
  have ui: "unat (tcb_id (tcbs s p)) = i"
    using assms(3) by (simp add: id TCB_LIMIT_def unat_of_nat)
  have tab: "tcb_table s (i div 512) \<noteq> None"
    using assms(4,5) by (auto simp: tcb_entry_def split: option.splits)
  let ?t = "tcb_table_release (set_tcb_entry i 0 (s\<lparr>tcb_table_lock := 1\<rparr>))"
  have v: "pmm_view ?t = pmm_view s"
    by (simp add: pmm_view_def set_tcb_entry_def tcb_table_release_def)
  have ent: "tcb_entry ?t = (tcb_entry s)(i := 0)"
    using tcb_entry_set [of "s\<lparr>tcb_table_lock := 1\<rparr>" i 0] tab by simp
  have other: "k = i" if "k < TCB_LIMIT" "tcb_entry s k = p" for k
  proof -
    from that assms(1,5) have "tcb_id (tcbs s p) = of_nat k" by (auto simp: mem_inv_def)
    then have "unat (of_nat k :: u32) = i" using ui by simp
    with that(1) show "k = i" by (simp add: TCB_LIMIT_def unat_of_nat)
  qed
  have "q \<in> live ?t \<longleftrightarrow> q \<in> live s - {p}" for q
    unfolding live_def ent mem_Collect_eq Diff_iff singleton_iff fun_upd_apply
    using other assms(3,4) by metis
  then have lv: "live ?t = live s - {p}" by blast
  have fields: "tcbs ?t = tcbs s" "tcb_list ?t = tcb_list s" "idle_tcb ?t = idle_tcb s"
    "tcb_lock ?t = tcb_lock s" "pge_lock ?t = pge_lock s" "pge_list ?t = pge_list s"
    by (simp_all add: set_tcb_entry_def tcb_table_release_def)
  have inv: "mem_inv F ?t"
    using assms(1)
    by (auto simp: mem_inv_def fields pmm_ok_view [OF v] block_view [OF v] lv ent [simplified])
  have limbo: "limbo p F ?t"
    using assms(1) p by (auto simp: mem_inv_def limbo_def block_view [OF v] lv fields)
  obtain u where u: "tcb_free p ?t = Some u" "mem_inv (p # F) u" "mem_step p F ?t (p # F) u"
    "tcb_table u = tcb_table ?t" "tcb_table_lock u = tcb_table_lock ?t"
    using tcb_free_spec [OF inv limbo] by blast
  have "outside ?t = outside s" by (simp add: outside_def set_tcb_entry_def tcb_table_release_def)
  then have step: "mem_step p F s (p # F) u"
    using u(3) fields block_view [OF v] by (simp add: mem_step_def)
  have "tcb_del p s = Some u"
    using assms(2,3,5,6) tab u(1) ui by (auto simp: tcb_del_def Let_def)
  moreover have "tcb_entry u = (tcb_entry s)(i := 0)" using tcb_entry_cong [OF u(4)] ent by simp
  moreover have "live u = live s - {p}" using live_cong [OF u(4)] lv by simp
  moreover have "tcb_table_lock u = 0" using u(5) by (simp add: tcb_table_release_def)
  ultimately show ?thesis using that [of u] u(2) step by blast
qed

end
