(* ===== verification/Paging.thy ===== *)
theory Paging
  imports Alloc
begin

text \<open>
  Paging contexts (\<open>page.c\<close>): so far the translation between physical addresses and the
  kernel's window onto them, and the lookup of a context by id.
\<close>

definition page_base :: u64 where "page_base = 0xFFFFFFFFC0000000"

definition pmm_vaddr :: "u64 \<Rightarrow> ptr" where
  "pmm_vaddr paddr =
     (if paddr < 0x20000000 then paddr + page_base
      else if 0xE0000000 < paddr \<and> paddr < 0x100000000 then
        paddr - 0xE0000000 + page_base + 0x20000000
      else 0)"

definition pcx_get :: "u32 \<Rightarrow> kernel \<Rightarrow> ptr" where
  "pcx_get pcx_id s = (if pcx_id = 0 then pcx_root s else 0)"

subsection \<open>Page table walks\<close>

definition PF_PRES :: u64 where "PF_PRES = 0x1"
definition PF_WRITE :: u64 where "PF_WRITE = 0x2"
definition PF_USER :: u64 where "PF_USER = 0x4"
definition PF_PWT :: u64 where "PF_PWT = 0x8"
definition PF_PCD :: u64 where "PF_PCD = 0x10"
definition PF_ACCS :: u64 where "PF_ACCS = 0x20"
definition PF_DIRTY :: u64 where "PF_DIRTY = 0x40"
definition PF_LARGE :: u64 where "PF_LARGE = 0x80"
definition PF_GLOBL :: u64 where "PF_GLOBL = 0x100"
definition PF_VALID :: u64 where "PF_VALID = 0x200"
definition PF_NREAD :: u64 where "PF_NREAD = 0x400"
definition PF_NX :: u64 where "PF_NX = 0x8000000000000000"
definition PF_BITS :: u64 where "PF_BITS = 0x8000000000000FFF"

lemmas pf_defs = PF_PRES_def PF_WRITE_def PF_USER_def PF_PWT_def PF_PCD_def PF_ACCS_def
  PF_DIRTY_def PF_LARGE_def PF_GLOBL_def PF_VALID_def PF_NREAD_def PF_NX_def PF_BITS_def

text \<open>
  Tables are numbered 4 (root) down to 1; level \<open>i\<close> is indexed by nine bits of the
  address from bit \<open>12 + 9 * (i - 1)\<close> on.
\<close>

definition level_shift :: "nat \<Rightarrow> nat" where
  "level_shift i = 12 + 9 * (i - 1)"

definition pt_index :: "nat \<Rightarrow> u64 \<Rightarrow> u64" where
  "pt_index i addr = drop_bit (level_shift i) addr AND 0x1FF"

definition pte_addr :: "nat \<Rightarrow> u64 \<Rightarrow> ptr \<Rightarrow> ptr" where
  "pte_addr i addr pt = pt + 8 * pt_index i addr"

definition next_table :: "u64 \<Rightarrow> ptr" where
  "next_table e = (e AND NOT PF_BITS) + page_base"

text \<open>
  The offset mask \<open>(1 << shift) - 1\<close> is computed in type \<open>int\<close>; a shift of 31 or more
  is undefined, which is the case at level 4.
\<close>

definition offset_mask :: "nat \<Rightarrow> u64 option" where
  "offset_mask i = (if level_shift i < 31 then Some (mask (level_shift i)) else None)"

fun trans_loop :: "(ptr \<Rightarrow> u64) \<Rightarrow> u64 \<Rightarrow> nat \<Rightarrow> ptr \<Rightarrow> u64 option" where
  "trans_loop m addr 0 pt = Some (- 1)"
| "trans_loop m addr (Suc k) pt =
     (let e = m (pte_addr (Suc k) addr pt) in
      if e AND PF_PRES = 0 then Some (- 1)
      else if e AND PF_LARGE \<noteq> 0 \<or> k = 0 then do {
        om \<leftarrow> offset_mask (Suc k);
        Some ((e AND NOT PF_BITS) + (addr AND om))
      }
      else trans_loop m addr k (next_table e))"

fun flags_loop :: "(ptr \<Rightarrow> u64) \<Rightarrow> u64 \<Rightarrow> nat \<Rightarrow> ptr \<Rightarrow> u64" where
  "flags_loop m addr 0 pt = 0"
| "flags_loop m addr (Suc k) pt =
     (let e = m (pte_addr (Suc k) addr pt) in
      if e AND PF_PRES = 0 then 0
      else if e AND PF_LARGE \<noteq> 0 \<or> k = 0 then e AND PF_BITS
      else flags_loop m addr k (next_table e))"

definition pcx_arg :: "ptr \<Rightarrow> kernel \<Rightarrow> ptr" where
  "pcx_arg pcx s = (if pcx = 0 then pcx_root s else pcx)"

text \<open>Both lookups release a lock that nothing acquires.\<close>

definition pcx_unlock :: "kernel \<Rightarrow> kernel" where
  "pcx_unlock s = s\<lparr>pcx_root_lock := mutex_release (pcx_root_lock s)\<rparr>"

definition pcx_get_trans :: "ptr \<Rightarrow> u64 \<Rightarrow> kernel \<Rightarrow> (u64 \<times> kernel) option" where
  "pcx_get_trans pcx addr s = do {
     r \<leftarrow> trans_loop (mem s) addr 4 (pcx_arg pcx s);
     Some (r, pcx_unlock s)
   }"

definition pcx_get_frame :: "ptr \<Rightarrow> u64 \<Rightarrow> kernel \<Rightarrow> (u64 \<times> kernel) option" where
  "pcx_get_frame pcx addr s = pcx_get_trans pcx (addr AND - 0x1000) s"

definition pcx_get_flags :: "ptr \<Rightarrow> u64 \<Rightarrow> kernel \<Rightarrow> (u64 \<times> kernel) option" where
  "pcx_get_flags pcx addr s = Some (flags_loop (mem s) addr 4 (pcx_arg pcx s), pcx_unlock s)"

subsection \<open>Mapping a frame\<close>

definition clear_page :: "ptr \<Rightarrow> (ptr \<Rightarrow> u64) \<Rightarrow> (ptr \<Rightarrow> u64)" where
  "clear_page p m = (\<lambda>a. if a - p < 0x1000 \<and> (a - p) AND 7 = 0 then 0 else m a)"

text \<open>
  The descent to the last table, which adds missing tables on the way; null means that a
  large page is in the way. A table that cannot be allocated is written through a null
  pointer.
\<close>

function set_frame_loop :: "u64 \<Rightarrow> nat \<Rightarrow> ptr \<Rightarrow> kernel \<Rightarrow> (ptr option \<times> kernel) option" where
  "set_frame_loop addr i pt s =
     (if i \<le> 1 then Some (Some pt, s)
      else do {
        let a = pte_addr i addr pt;
        s \<leftarrow> (if mem s a AND PF_PRES = 0 then do {
                (newpt, s) \<leftarrow> pge_alloc s;
                let s = s\<lparr>mem := (mem s)
                  (a := (newpt - page_base) OR PF_VALID OR PF_PRES OR PF_WRITE OR PF_USER)\<rparr>;
                _ \<leftarrow> deref newpt;
                Some (s\<lparr>mem := clear_page newpt (mem s)\<rparr>)
              } else Some s);
        if mem s a AND PF_LARGE \<noteq> 0 then Some (None, pcx_unlock s)
        else set_frame_loop addr (i - 1) (next_table (mem s a)) s
      })"
  by pat_completeness auto
termination
  by (relation "measure (\<lambda>(addr, i, pt, s). i)") auto

declare set_frame_loop.simps [simp del]

definition pcx_set_frame :: "ptr \<Rightarrow> u64 \<Rightarrow> u64 \<Rightarrow> u64 \<Rightarrow> u64 \<Rightarrow> kernel \<Rightarrow> (u32 \<times> kernel) option" where
  "pcx_set_frame pcx addr sz frame flags s =
     (if sz AND 0xFFF \<noteq> 0 \<or> addr AND 0xFFF \<noteq> 0 then Some (1, s)
      else do {
        (r, s) \<leftarrow> set_frame_loop addr 4 (pcx_arg pcx s) s;
        case r of
          None \<Rightarrow> Some (1, s)
        | Some pt \<Rightarrow> Some (0, s\<lparr>mem := (mem s)(pte_addr 1 addr pt := frame OR flags)\<rparr>)
      })"

end
