(* ===== verification/Scheduler.thy ===== *)
theory Scheduler
  imports Tcb Paging
begin

text \<open>
  The run queue and the context switch: \<open>scheduler.c\<close>, and \<open>ccb_load_tcb\<close>,
  \<open>ccb_unload_tcb\<close> of \<open>ccb.s\<close>. The run queue is a singly linked list through the
  \<open>next\<close> fields with a tail pointer; \<open>run_queue L s\<close> relates it to the list \<open>L\<close> of the
  blocks in the order in which they will run.
\<close>

subsection \<open>The processor\<close>

text \<open>
  \<open>ccb_load_tcb\<close> makes a block the active one, points the interrupt stacks at the end of
  its register area, and loads the paging context unless the active one will do.
\<close>

definition ccb_load_tcb :: "ptr \<Rightarrow> kernel \<Rightarrow> u64 \<times> kernel" where
  "ccb_load_tcb tcb s =
     (if active s \<noteq> 0 then (1, s)
      else
        let c = (the_ccb s)\<lparr>active_tcb := tcb, tss_rsp0 := tcb + 0x100, tss_ist1 := tcb + 0x100\<rparr>;
            pid = tcb_pcx_id (tcbs s tcb)
        in if active_pcx c = 0 \<or> (pid \<noteq> 0 \<and> pid \<noteq> active_pcx_id c) then
             let rax = pcx_get pid s - (image_base s - 0x200000)
             in (0, s\<lparr>the_ccb := c\<lparr>active_pcx_id := pid, active_pcx := rax\<rparr>, cr3 := rax\<rparr>)
           else (0, s\<lparr>the_ccb := c\<rparr>))"

text \<open>\<open>ccb_unload_tcb\<close> also clears the first byte of the block.\<close>

definition ccb_unload_tcb :: "kernel \<Rightarrow> ptr \<times> kernel" where
  "ccb_unload_tcb s =
     (let p = active s in
      if p = 0 then (0, s)
      else (p, upd_tcb p (\<lambda>t. t\<lparr>tcb_reserved0 := tcb_reserved0 t AND 0xFF00\<rparr>)
                 (s\<lparr>the_ccb := (the_ccb s)\<lparr>active_tcb := 0\<rparr>\<rparr>)))"

subsection \<open>The run queue\<close>

definition scheduler_push_tcb :: "ptr \<Rightarrow> kernel \<Rightarrow> kernel option" where
  "scheduler_push_tcb tcb s = do {
     _ \<leftarrow> deref tcb;
     let s = upd_tcb tcb (\<lambda>t. t\<lparr>tcb_next := 0\<rparr>) s;
     let s = (if schedule_tail s \<noteq> 0 then upd_tcb (schedule_tail s) (\<lambda>t. t\<lparr>tcb_next := tcb\<rparr>) s
              else s\<lparr>schedule_head := tcb\<rparr>);
     Some (s\<lparr>schedule_tail := tcb\<rparr>)
   }"

definition scheduler_pull_tcb :: "kernel \<Rightarrow> ptr \<times> kernel" where
  "scheduler_pull_tcb s =
     (let tcb = schedule_head s;
          s = (if schedule_head s \<noteq> 0 then s\<lparr>schedule_head := nxt s (schedule_head s)\<rparr> else s);
          s = (if schedule_tail s = tcb then s\<lparr>schedule_tail := 0\<rparr> else s)
      in (tcb, s))"

definition scheduler_add_tcb :: "ptr \<Rightarrow> kernel \<Rightarrow> kernel option" where
  "scheduler_add_tcb tcb s = scheduler_push_tcb tcb s"

text \<open>
  The loop of \<open>scheduler_rem_tcb\<close>: the first block whose successor is \<open>tcb\<close>, or null
  at the end of the list. On a cyclic list it may run for ever.
\<close>

partial_function (option) scheduler_find_prev :: "(ptr \<Rightarrow> ptr) \<Rightarrow> ptr \<Rightarrow> ptr \<Rightarrow> ptr option" where
  "scheduler_find_prev nx t tcb =
     (if t = 0 then Some 0
      else if nx t = tcb then Some t
      else scheduler_find_prev nx (nx t) tcb)"

definition scheduler_rem_tcb :: "ptr \<Rightarrow> kernel \<Rightarrow> (nat \<times> kernel) option" where
  "scheduler_rem_tcb tcb s =
     (if schedule_head s = tcb then do {
        _ \<leftarrow> deref (schedule_head s);
        let s = s\<lparr>schedule_head := nxt s (schedule_head s)\<rparr>;
        let s = (if schedule_tail s = tcb then s\<lparr>schedule_tail := 0\<rparr> else s);
        Some (0, s)
      } else do {
        t \<leftarrow> scheduler_find_prev (nxt s) (schedule_head s) tcb;
        if t = 0 then Some (1, s)
        else do {
          _ \<leftarrow> deref tcb;
          let s = upd_tcb t (\<lambda>b. b\<lparr>tcb_next := nxt s tcb\<rparr>) s;
          let s = (if schedule_tail s = tcb then s\<lparr>schedule_tail := t\<rparr> else s);
          Some (0, s)
        }
      })"

definition set_state :: "ptr \<Rightarrow> u16 \<Rightarrow> kernel \<Rightarrow> kernel" where
  "set_state p v s = upd_tcb p (\<lambda>t. t\<lparr>tcb_state := v\<rparr>) s"

text \<open>
  With an empty queue the idle block is loaded and \<open>idle\<close> halts the core inside this
  call; the returned state is the one in which it waits for the next interrupt.
\<close>

definition scheduler_schedule :: "kernel \<Rightarrow> kernel option" where
  "scheduler_schedule s = do {
     let (old_tcb, s) = ccb_unload_tcb s;
     s \<leftarrow> (if old_tcb \<noteq> 0 then scheduler_push_tcb old_tcb (set_state old_tcb TCB_STATE_QUEUED s)
           else Some s);
     let (new_tcb, s) = scheduler_pull_tcb s;
     if new_tcb \<noteq> 0 then
       Some (snd (ccb_load_tcb new_tcb (set_state new_tcb TCB_STATE_RUNNING s)))
     else Some (snd (ccb_load_tcb (idle_tcb s) s))
   }"

subsection \<open>Queue contract\<close>

text \<open>\<open>rotations pull push n s\<close>: take the first element and put it at the back, \<open>n\<close> times.\<close>

fun rotations ::
  "('s \<Rightarrow> 'a \<times> 's) \<Rightarrow> ('a \<Rightarrow> 's \<Rightarrow> 's option) \<Rightarrow> nat \<Rightarrow> 's \<Rightarrow> 's option" where
  "rotations pull push 0 s = Some s"
| "rotations pull push (Suc n) s =
     (case pull s of (x, s') \<Rightarrow> Option.bind (push x s') (rotations pull push n))"

locale fifo_queue =
  fixes push :: "'a \<Rightarrow> 's \<Rightarrow> 's option"
    and pull :: "'s \<Rightarrow> 'a \<times> 's"
    and remove :: "'a \<Rightarrow> 's \<Rightarrow> (nat \<times> 's) option"
    and null :: 'a
    and rep :: "'a list \<Rightarrow> 's \<Rightarrow> bool"
  assumes rep_distinct: "rep L s \<Longrightarrow> distinct L \<and> null \<notin> set L"
    and push_rep: "rep L s \<Longrightarrow> x \<noteq> null \<Longrightarrow> x \<notin> set L \<Longrightarrow> \<exists>s'. push x s = Some s' \<and> rep (L @ [x]) s'"
    and pull_empty: "rep [] s \<Longrightarrow> fst (pull s) = null \<and> rep [] (snd (pull s))"
    and pull_rep: "rep (x # L) s \<Longrightarrow> fst (pull s) = x \<and> rep L (snd (pull s))"
    and remove_in: "rep (xs @ x # ys) s \<Longrightarrow> \<exists>s'. remove x s = Some (0, s') \<and> rep (xs @ ys) s'"
    and remove_notin: "rep L s \<Longrightarrow> x \<noteq> null \<Longrightarrow> x \<notin> set L \<Longrightarrow> remove x s = Some (1, s)"
begin

lemma rotate_once:
  assumes "rep (x # L) s"
  shows "\<exists>s'. push (fst (pull s)) (snd (pull s)) = Some s' \<and> rep (L @ [x]) s'"
  using pull_rep [OF assms] rep_distinct [OF assms] push_rep [of L "snd (pull s)" x] by auto

lemma rotations_rep:
  assumes "rep L s" "L \<noteq> []"
  shows "\<exists>s'. rotations pull push n s = Some s' \<and> rep (rotate n L) s'"
  using assms
proof (induction n arbitrary: L s)
  case 0
  then show ?case by simp
next
  case (Suc n)
  then obtain x M where L: "L = x # M" by (cases L) auto
  with Suc.prems rotate_once obtain t
    where t: "push (fst (pull s)) (snd (pull s)) = Some t" "rep (M @ [x]) t" by blast
  from Suc.IH [OF t(2)] obtain s' where "rotations pull push n t = Some s'"
    "rep (rotate n (M @ [x])) s'" by auto
  moreover have "rotate n (M @ [x]) = rotate (Suc n) L"
    by (simp add: L rotate_add [of n 1, simplified])
  ultimately show ?case using t(1) by (auto simp: case_prod_beta)
qed

text \<open>No element starves: after \<open>i\<close> rotations the \<open>i\<close>-th element is at the front.\<close>

lemma rotations_reach:
  assumes "rep L s" "i < length L"
  shows "\<exists>s'. rotations pull push i s = Some s' \<and> fst (pull s') = L ! i"
proof -
  from assms have "L \<noteq> []" by auto
  with rotations_rep [OF assms(1)] obtain s'
    where s': "rotations pull push i s = Some s'" "rep (rotate i L) s'" by blast
  from assms(2) have "rotate i L = L ! i # (drop (Suc i) L @ take i L)"
    by (simp add: rotate_drop_take Cons_nth_drop_Suc [symmetric])
  with s' pull_rep show ?thesis by metis
qed

text \<open>Removing an element just appended gives the queue back.\<close>

lemma push_remove:
  assumes "rep L s" "x \<noteq> null" "x \<notin> set L"
  shows "\<exists>s' s''. push x s = Some s' \<and> remove x s' = Some (0, s'') \<and> rep L s''"
  using push_rep [OF assms] remove_in [of L x "[]"] by auto

end

subsection \<open>The run queue as a list\<close>

definition run_queue :: "ptr list \<Rightarrow> kernel \<Rightarrow> bool" where
  "run_queue L s \<longleftrightarrow> llist (nxt s) (schedule_head s) L \<and>
     schedule_tail s = (if L = [] then 0 else last L)"

text \<open>What queue operations leave alone: everything but head, tail and \<open>next\<close> fields.\<close>

definition no_sched :: "kernel \<Rightarrow> kernel" where
  "no_sched s = s\<lparr>schedule_head := 0, schedule_tail := 0,
     tcbs := (\<lambda>p. (tcbs s p)\<lparr>tcb_next := 0\<rparr>)\<rparr>"

lemma no_schedD:
  assumes "no_sched t = no_sched s"
  shows "(tcbs t p)\<lparr>tcb_next := 0\<rparr> = (tcbs s p)\<lparr>tcb_next := 0\<rparr>"
    "mem_view (t\<lparr>tcbs := g\<rparr>) = mem_view (s\<lparr>tcbs := g\<rparr>)" "tcb_table_lock t = tcb_table_lock s"
    "the_ccb t = the_ccb s" "interrupt_vector_page_table t = interrupt_vector_page_table s"
    "idle_tcb t = idle_tcb s" "tcb_table t = tcb_table s"
    "pagefault_queue t = pagefault_queue s" "miscfault_queue t = miscfault_queue s"
    "zombie_queue t = zombie_queue s"
proof -
  have "tcbs (no_sched t) p = tcbs (no_sched s) p" using assms by simp
  then show "(tcbs t p)\<lparr>tcb_next := 0\<rparr> = (tcbs s p)\<lparr>tcb_next := 0\<rparr>"
    by (simp add: no_sched_def)
  have "mem_view ((no_sched t)\<lparr>tcbs := g\<rparr>) = mem_view ((no_sched s)\<lparr>tcbs := g\<rparr>)"
    using assms by simp
  then show "mem_view (t\<lparr>tcbs := g\<rparr>) = mem_view (s\<lparr>tcbs := g\<rparr>)"
    by (simp add: no_sched_def mem_view_def pmm_view_def)
  have "tcb_table_lock (no_sched t) = tcb_table_lock (no_sched s)"
    "the_ccb (no_sched t) = the_ccb (no_sched s)"
    "interrupt_vector_page_table (no_sched t) = interrupt_vector_page_table (no_sched s)"
    "idle_tcb (no_sched t) = idle_tcb (no_sched s)" "tcb_table (no_sched t) = tcb_table (no_sched s)"
    "pagefault_queue (no_sched t) = pagefault_queue (no_sched s)"
    "miscfault_queue (no_sched t) = miscfault_queue (no_sched s)"
    "zombie_queue (no_sched t) = zombie_queue (no_sched s)"
    by (simp_all only: assms)
  then show "tcb_table_lock t = tcb_table_lock s"
    "the_ccb t = the_ccb s" "interrupt_vector_page_table t = interrupt_vector_page_table s"
    "idle_tcb t = idle_tcb s" "tcb_table t = tcb_table s"
    "pagefault_queue t = pagefault_queue s" "miscfault_queue t = miscfault_queue s"
    "zombie_queue t = zombie_queue s"
    by (simp_all add: no_sched_def)
qed

lemma no_sched_fields:
  assumes "no_sched t = no_sched s"
  shows "st t = st s" "tcb_tap (tcbs t p) = tcb_tap (tcbs s p)" "tcb_id (tcbs t p) = tcb_id (tcbs s p)"
    "tcb_word0 (tcbs t p) = tcb_word0 (tcbs s p)" "tcb_pcx_id (tcbs t p) = tcb_pcx_id (tcbs s p)"
    "tcb_rax (tcbs t p) = tcb_rax (tcbs s p)"
proof -
  note eq = no_schedD(1) [OF assms]
  have "tcb_state (tcbs t q) = tcb_state (tcbs s q)" for q
    using arg_cong [OF eq [of q], of tcb_state] by simp
  then show "st t = st s" by simp
  show "tcb_tap (tcbs t p) = tcb_tap (tcbs s p)" using arg_cong [OF eq, of tcb_tap] by simp
  show "tcb_id (tcbs t p) = tcb_id (tcbs s p)" using arg_cong [OF eq, of tcb_id] by simp
  show "tcb_word0 (tcbs t p) = tcb_word0 (tcbs s p)" using arg_cong [OF eq, of tcb_word0] by simp
  show "tcb_pcx_id (tcbs t p) = tcb_pcx_id (tcbs s p)" using arg_cong [OF eq, of tcb_pcx_id] by simp
  show "tcb_rax (tcbs t p) = tcb_rax (tcbs s p)" using arg_cong [OF eq, of tcb_rax] by simp
qed

lemma mem_inv_no_sched:
  assumes "mem_inv F s" "no_sched t = no_sched s"
  shows "mem_inv F t"
proof -
  let ?u = "s\<lparr>tcbs := tcbs t\<rparr>"
  have lv: "live ?u = live s" "tcb_entry ?u = tcb_entry s" by (simp_all add: live_def tcb_entry_def fun_eq_iff)
  have v: "pmm_view ?u = pmm_view s" by (simp add: pmm_view_def)
  have "mem_inv F ?u"
    using assms(1) no_sched_fields [OF assms(2)]
    by (simp add: mem_inv_def lv pmm_ok_view [OF v] block_view [OF v])
  moreover have "mem_view t = mem_view ?u"
    using no_schedD(2) [OF assms(2), of "tcbs t"] by simp
  ultimately show ?thesis by (rule mem_inv_view)
qed

lemma push_spec:
  assumes "run_queue L s" "p \<noteq> 0" "p \<notin> set L"
  shows "\<exists>s'. scheduler_push_tcb p s = Some s' \<and> run_queue (L @ [p]) s' \<and> no_sched s' = no_sched s"
proof (cases "L = []")
  case True
  with assms have e: "schedule_tail s = 0" "schedule_head s = 0" by (simp_all add: run_queue_def)
  let ?s = "(upd_tcb p (\<lambda>t. t\<lparr>tcb_next := 0\<rparr>) s)\<lparr>schedule_head := p, schedule_tail := p\<rparr>"
  have "scheduler_push_tcb p s = Some ?s" using assms(2) e by (simp add: scheduler_push_tcb_def)
  moreover have "run_queue [p] ?s" using assms(2) by (simp add: run_queue_def)
  moreover have "no_sched ?s = no_sched s" by (simp add: no_sched_def upd_tcb_def fun_eq_iff)
  ultimately show ?thesis using True by auto
next
  case False
  let ?l = "last L"
  have l: "schedule_tail s = ?l" "?l \<noteq> 0" "?l \<noteq> p"
    using assms False llist_null_notin last_in_set by (fastforce simp: run_queue_def)+
  let ?s = "(upd_tcb ?l (\<lambda>t. t\<lparr>tcb_next := p\<rparr>) (upd_tcb p (\<lambda>t. t\<lparr>tcb_next := 0\<rparr>) s))
    \<lparr>schedule_tail := p\<rparr>"
  have "scheduler_push_tcb p s = Some ?s" using assms(2) l by (simp add: scheduler_push_tcb_def)
  moreover have "run_queue (L @ [p]) ?s"
  proof -
    have eq: "nxt ?s = (nxt s)(?l := p, p := 0)" using l by (auto simp: fun_eq_iff)
    have "llist (nxt s) (schedule_head s) L" using assms(1) by (simp add: run_queue_def)
    from llist_snoc [OF this False assms(3,2)]
    show ?thesis unfolding run_queue_def eq by simp
  qed
  moreover have "no_sched ?s = no_sched s" by (simp add: no_sched_def upd_tcb_def fun_eq_iff)
  ultimately show ?thesis by blast
qed

lemma pull_spec:
  assumes "run_queue (p # L) s"
  shows "fst (scheduler_pull_tcb s) = p" "run_queue L (snd (scheduler_pull_tcb s))"
    "no_sched (snd (scheduler_pull_tcb s)) = no_sched s"
proof -
  from assms have p: "schedule_head s = p" "p \<noteq> 0" "llist (nxt s) (nxt s p) L"
    "schedule_tail s = last (p # L)" "p \<notin> set L"
    by (auto simp: run_queue_def dest: llist_head_notin_tail)
  then have "L \<noteq> [] \<Longrightarrow> last L \<noteq> p" using last_in_set by fastforce
  with p show "fst (scheduler_pull_tcb s) = p" "run_queue L (snd (scheduler_pull_tcb s))"
    "no_sched (snd (scheduler_pull_tcb s)) = no_sched s"
    by (auto simp: scheduler_pull_tcb_def run_queue_def no_sched_def Let_def)
qed

lemma pull_empty:
  assumes "run_queue [] s"
  shows "scheduler_pull_tcb s = (0, s)"
  using assms by (cases s) (simp add: scheduler_pull_tcb_def run_queue_def Let_def)

subsection \<open>Removal\<close>

lemma find_prev_hit:
  assumes "lseg nx t xs a" "nx a = p" "a \<noteq> 0" "\<forall>x \<in> set xs. nx x \<noteq> p"
  shows "scheduler_find_prev nx t p = Some a"
  using assms
proof (induction xs arbitrary: t)
  case Nil
  then show ?case by (subst scheduler_find_prev.simps) auto
next
  case (Cons x xs)
  then show ?case by (subst scheduler_find_prev.simps) auto
qed

lemma find_prev_miss:
  assumes "llist nx t xs" "p \<noteq> 0" "p \<notin> set xs"
  shows "scheduler_find_prev nx t p = Some 0"
  using assms
proof (induction xs arbitrary: t)
  case Nil
  then show ?case by (subst scheduler_find_prev.simps) auto
next
  case (Cons x xs)
  then have "nx x \<noteq> p" by (cases xs) auto
  with Cons show ?case by (subst scheduler_find_prev.simps) auto
qed

text \<open>In a list without repetitions only the predecessor of \<open>p\<close> points to \<open>p\<close>.\<close>

lemma llist_pred_unique:
  assumes "llist nx h (xs @ a # p # ys)"
  shows "lseg nx h xs a" "nx a = p" "a \<noteq> 0" "\<forall>x \<in> set xs. nx x \<noteq> p"
proof -
  from assms show "lseg nx h xs a" "nx a = p" "a \<noteq> 0" by (auto simp: llist_append)
  show "\<forall>x \<in> set xs. nx x \<noteq> p"
  proof
    fix x assume "x \<in> set xs"
    then obtain us vs where xs: "xs = us @ x # vs" by (auto dest: split_list)
    show "nx x \<noteq> p"
    proof
      assume "nx x = p"
      moreover from assms have "llist nx (nx x) (vs @ a # p # ys)" "llist nx p (p # ys)"
        by (auto simp: xs llist_append)
      ultimately have "vs @ a # p # ys = p # ys" by (metis llist_unique)
      then have "length (vs @ a # p # ys) = length (p # ys)" by (rule arg_cong)
      then show False by simp
    qed
  qed
qed

lemma rem_spec:
  assumes "run_queue (xs @ p # ys) s"
  shows "\<exists>s'. scheduler_rem_tcb p s = Some (0, s') \<and> run_queue (xs @ ys) s' \<and>
    no_sched s' = no_sched s"
proof (cases xs rule: rev_cases)
  case Nil
  with assms have p: "schedule_head s = p" "p \<noteq> 0" "llist (nxt s) (nxt s p) ys"
    "schedule_tail s = last (p # ys)" "p \<notin> set ys"
    by (auto simp: run_queue_def dest: llist_head_notin_tail)
  then have "ys \<noteq> [] \<Longrightarrow> last ys \<noteq> p" using last_in_set by fastforce
  with p Nil show ?thesis
    by (auto simp: scheduler_rem_tcb_def run_queue_def no_sched_def)
next
  case (snoc ws a)
  from assms have l: "llist (nxt s) (schedule_head s) (ws @ a # p # ys)"
    and tail: "schedule_tail s = last (a # p # ys)"
    by (simp_all add: run_queue_def snoc)
  have d: "distinct (ws @ a # p # ys)" using l by (rule llist_distinct)
  have nz: "a \<noteq> 0" "p \<noteq> 0" using llist_null_notin [OF l] by auto
  have head: "schedule_head s \<noteq> p"
    using llist_hd [OF l] d by (cases ws) auto
  have find: "scheduler_find_prev (nxt s) (schedule_head s) p = Some a"
    using find_prev_hit llist_pred_unique [OF l] by blast
  let ?s1 = "upd_tcb a (\<lambda>b. b\<lparr>tcb_next := nxt s p\<rparr>) s"
  let ?s = "if schedule_tail s = p then ?s1\<lparr>schedule_tail := a\<rparr> else ?s1"
  have rem: "scheduler_rem_tcb p s = Some (0, ?s)"
    using head find nz by (simp add: scheduler_rem_tcb_def)
  have eq: "nxt ?s = (nxt s)(a := nxt s p)" by (auto simp: fun_eq_iff)
  have hd: "schedule_head ?s = schedule_head s" by simp
  have "schedule_tail ?s = last (a # ys)"
    using tail d by (cases ys rule: rev_cases) auto
  then have "run_queue (xs @ ys) ?s"
    unfolding run_queue_def eq hd using llist_unlink [OF l] by (simp add: snoc)
  moreover have "no_sched ?s = no_sched s" by (simp add: no_sched_def upd_tcb_def fun_eq_iff)
  ultimately show ?thesis using rem by blast
qed

lemma rem_absent:
  assumes "run_queue L s" "p \<noteq> 0" "p \<notin> set L"
  shows "scheduler_rem_tcb p s = Some (1, s)"
proof -
  from assms have l: "llist (nxt s) (schedule_head s) L" by (simp add: run_queue_def)
  with assms have "schedule_head s \<noteq> p" by (cases L) auto
  with find_prev_miss [OF l assms(2,3)] show ?thesis by (simp add: scheduler_rem_tcb_def)
qed

lemma run_queue_distinct: "run_queue L s \<Longrightarrow> distinct L \<and> 0 \<notin> set L"
  using llist_distinct llist_null_notin by (auto simp: run_queue_def)

text \<open>The scheduler's queue satisfies the queue contract.\<close>

interpretation sched: fifo_queue scheduler_push_tcb scheduler_pull_tcb scheduler_rem_tcb 0 run_queue
proof unfold_locales
  fix L s assume "run_queue L s"
  then show "distinct L \<and> 0 \<notin> set L" by (rule run_queue_distinct)
next
  fix L s and x :: ptr assume "run_queue L s" "x \<noteq> 0" "x \<notin> set L"
  then show "\<exists>s'. scheduler_push_tcb x s = Some s' \<and> run_queue (L @ [x]) s'"
    using push_spec by blast
next
  fix s assume "run_queue [] s"
  then show "fst (scheduler_pull_tcb s) = 0 \<and> run_queue [] (snd (scheduler_pull_tcb s))"
    by (simp add: pull_empty)
next
  fix x L s assume "run_queue (x # L) s"
  then show "fst (scheduler_pull_tcb s) = x \<and> run_queue L (snd (scheduler_pull_tcb s))"
    by (simp add: pull_spec)
next
  fix xs x ys s assume "run_queue (xs @ x # ys) s"
  then show "\<exists>s'. scheduler_rem_tcb x s = Some (0, s') \<and> run_queue (xs @ ys) s'"
    using rem_spec by blast
next
  fix L s and x :: ptr assume "run_queue L s" "x \<noteq> 0" "x \<notin> set L"
  then show "scheduler_rem_tcb x s = Some (1, s)" by (rule rem_absent)
qed

subsection \<open>Context switches\<close>

text \<open>
  \<open>thread_step P s t\<close>: from \<open>s\<close> to \<open>t\<close> only thread state may have changed; the first
  words of blocks outside \<open>P\<close>, the ids and the memory manager are as before.
\<close>

definition fixed where
  "fixed s = (mem_view (s\<lparr>tcbs := undefined\<rparr>), tcb_table_lock s, interrupt_vector_page_table s)"

definition thread_step :: "ptr set \<Rightarrow> kernel \<Rightarrow> kernel \<Rightarrow> bool" where
  "thread_step P s t \<longleftrightarrow> fixed t = fixed s \<and>
     (\<forall>q. tcb_id (tcbs t q) = tcb_id (tcbs s q)) \<and>
     (\<forall>q. q \<notin> P \<longrightarrow> tcb_word0 (tcbs t q) = tcb_word0 (tcbs s q))"

lemma thread_step_refl [simp]: "thread_step P s s"
  by (simp add: thread_step_def)

lemma thread_step_trans:
  "thread_step P s t \<Longrightarrow> thread_step Q t u \<Longrightarrow> thread_step (P \<union> Q) s u"
  by (simp add: thread_step_def)

lemma thread_step_mono: "thread_step P s t \<Longrightarrow> P \<subseteq> Q \<Longrightarrow> thread_step Q s t"
  by (auto simp: thread_step_def)

lemma fixedD:
  assumes "fixed t = fixed s"
  shows "tcb_table t = tcb_table s" "idle_tcb t = idle_tcb s" "tcb_table_lock t = tcb_table_lock s"
    "interrupt_vector_page_table t = interrupt_vector_page_table s"
    "live t = live s" "tcb_entry t = tcb_entry s"
proof -
  from assms show t: "tcb_table t = tcb_table s" and "idle_tcb t = idle_tcb s"
    and "tcb_table_lock t = tcb_table_lock s"
    and "interrupt_vector_page_table t = interrupt_vector_page_table s"
    by (simp_all add: fixed_def mem_view_def)
  from t show "live t = live s" "tcb_entry t = tcb_entry s"
    by (rule live_cong, rule tcb_entry_cong)
qed

lemma thread_step_no_sched:
  assumes "no_sched t = no_sched s"
  shows "thread_step P s t"
  using no_schedD(2) [OF assms, of undefined] no_schedD(3,5) [OF assms] no_sched_fields(3,4) [OF assms]
  by (simp add: thread_step_def fixed_def)

lemma thread_step_upd_tcb: "(\<And>t. tcb_id (f t) = tcb_id t) \<Longrightarrow> p \<in> P \<Longrightarrow> thread_step P s (upd_tcb p f s)"
  by (simp add: thread_step_def fixed_def mem_view_def pmm_view_def)

lemma thread_step_set_state: "p \<in> P \<Longrightarrow> thread_step P s (set_state p v s)"
  unfolding set_state_def by (rule thread_step_upd_tcb) simp_all

lemma mem_inv_thread_step:
  assumes "mem_inv F s" "thread_step P s t" "P \<inter> set F = {}"
  shows "mem_inv F t"
proof -
  let ?u = "s\<lparr>tcbs := tcbs t\<rparr>"
  from assms(2) have fx: "fixed t = fixed s" by (simp add: thread_step_def)
  have lv: "live ?u = live s" "tcb_entry ?u = tcb_entry s"
    by (simp_all add: live_def tcb_entry_def fun_eq_iff)
  have v: "pmm_view ?u = pmm_view s" by (simp add: pmm_view_def)
  have "llist (\<lambda>q. tcb_word0 (tcbs t q)) (tcb_list s) F =
      llist (\<lambda>q. tcb_word0 (tcbs s q)) (tcb_list s) F"
    using assms(2,3) by (intro llist_cong) (auto simp: thread_step_def)
  then have "mem_inv F ?u"
    using assms(1,2)
    by (simp add: mem_inv_def lv pmm_ok_view [OF v] block_view [OF v] thread_step_def)
  moreover have "mem_view t = mem_view ?u"
    using fx by (simp add: fixed_def mem_view_def pmm_view_def)
  ultimately show ?thesis by (rule mem_inv_view)
qed

lemma set_state_frame [simp]:
  "schedule_head (set_state p v s) = schedule_head s"
  "schedule_tail (set_state p v s) = schedule_tail s"
  "the_ccb (set_state p v s) = the_ccb s"
  "idle_tcb (set_state p v s) = idle_tcb s"
  "interrupt_vector_page_table (set_state p v s) = interrupt_vector_page_table s"
  "tcb_table_lock (set_state p v s) = tcb_table_lock s"
  "pagefault_queue (set_state p v s) = pagefault_queue s"
  "miscfault_queue (set_state p v s) = miscfault_queue s"
  "zombie_queue (set_state p v s) = zombie_queue s"
  "tcb_next (tcbs (set_state p v s) q) = tcb_next (tcbs s q)"
  "tcb_tap (tcbs (set_state p v s) q) = tcb_tap (tcbs s q)"
  "tcb_id (tcbs (set_state p v s) q) = tcb_id (tcbs s q)"
  by (simp_all add: set_state_def)

lemma st_set_state [simp]: "st (set_state p v s) = (st s)(p := v)"
  by (simp add: set_state_def fun_eq_iff)

lemma run_queue_cong:
  "nxt t = nxt s \<Longrightarrow> schedule_head t = schedule_head s \<Longrightarrow> schedule_tail t = schedule_tail s \<Longrightarrow>
   run_queue L t = run_queue L s"
  by (simp add: run_queue_def)

lemma run_queue_set_state [simp]: "run_queue L (set_state p v s) = run_queue L s"
  by (rule run_queue_cong) simp_all

lemma unload_spec:
  assumes "ccb_unload_tcb s = (p, t)"
  shows "p = active s" "active t = 0" "nxt t = nxt s" "st t = st s"
    "schedule_head t = schedule_head s" "schedule_tail t = schedule_tail s"
    "thread_step {p} s t" "run_queue L t = run_queue L s" "tcb_tap (tcbs t q) = tcb_tap (tcbs s q)"
    "tcb_id (tcbs t q) = tcb_id (tcbs s q)"
proof -
  from assms show "p = active s" "active t = 0" "nxt t = nxt s" "st t = st s"
    "schedule_head t = schedule_head s" "schedule_tail t = schedule_tail s"
    "thread_step {p} s t" "tcb_tap (tcbs t q) = tcb_tap (tcbs s q)"
    "tcb_id (tcbs t q) = tcb_id (tcbs s q)"
    by (auto simp: ccb_unload_tcb_def Let_def thread_step_def fixed_def mem_view_def pmm_view_def
        fun_eq_iff upd_tcb_def split: if_splits)
  then show "run_queue L t = run_queue L s" by (intro run_queue_cong) simp_all
qed

lemma load_spec:
  assumes "active s = 0"
  shows "active (snd (ccb_load_tcb p s)) = p" "tcbs (snd (ccb_load_tcb p s)) = tcbs s"
    "schedule_head (snd (ccb_load_tcb p s)) = schedule_head s"
    "schedule_tail (snd (ccb_load_tcb p s)) = schedule_tail s"
    "thread_step P s (snd (ccb_load_tcb p s))" "run_queue L (snd (ccb_load_tcb p s)) = run_queue L s"
proof -
  show "active (snd (ccb_load_tcb p s)) = p" "tcbs (snd (ccb_load_tcb p s)) = tcbs s"
    "schedule_head (snd (ccb_load_tcb p s)) = schedule_head s"
    "schedule_tail (snd (ccb_load_tcb p s)) = schedule_tail s"
    "thread_step P s (snd (ccb_load_tcb p s))"
    using assms by (simp_all add: ccb_load_tcb_def Let_def thread_step_def fixed_def mem_view_def
        pmm_view_def)
  then show "run_queue L (snd (ccb_load_tcb p s)) = run_queue L s"
    by (intro run_queue_cong) simp_all
qed

text \<open>
  The context switch: the active block, if any, goes to the back of the queue as
  \<open>QUEUED\<close>, and the block at the front is loaded as \<open>RUNNING\<close>. Only with no active
  block and an empty queue is the idle block loaded.
\<close>

lemma schedule_spec:
  assumes "run_queue L s" "active s \<noteq> 0 \<longrightarrow> active s \<notin> set L"
  defines "a \<equiv> active s"
  defines "Q \<equiv> (if a = 0 then L else L @ [a])"
  obtains s' where "scheduler_schedule s = Some s'"
    "thread_step (insert a (set Q)) s s'" "\<And>q. tcb_tap (tcbs s' q) = tcb_tap (tcbs s q)"
    "Q = [] \<longrightarrow> active s' = idle_tcb s \<and> run_queue [] s' \<and> st s' = st s"
    "Q \<noteq> [] \<longrightarrow> active s' = hd Q \<and> run_queue (tl Q) s' \<and>
       st s' = (if a = 0 then st s else (st s)(a := TCB_STATE_QUEUED))(hd Q := TCB_STATE_RUNNING)"
proof -
  obtain p t where un: "ccb_unload_tcb s = (p, t)" by fastforce
  note un_spec = unload_spec [OF un]
  have p: "p = a" using un_spec(1) by (simp add: a_def)
  let ?q = "set_state p TCB_STATE_QUEUED t"
  obtain u where push: "(if p \<noteq> 0 then scheduler_push_tcb p ?q else Some t) = Some u"
    and rq: "run_queue Q u" and ns: "no_sched u = no_sched (if a = 0 then t else ?q)"
  proof (cases "a = 0")
    case True
    with assms(1) p un_spec(8) that [of t] show ?thesis by (simp add: Q_def)
  next
    case False
    from assms(1,2) un_spec(8) have "run_queue L ?q" "a \<notin> set L"
      using False by (simp_all add: a_def)
    from push_spec [OF this(1) False this(2)] that p False show ?thesis by (auto simp: Q_def)
  qed
  have st_u: "st u = (if a = 0 then st s else (st s)(a := TCB_STATE_QUEUED))"
    using no_sched_fields(1) [OF ns] un_spec(4) p by simp
  have act_u: "active u = 0" using no_schedD(4) [OF ns] un_spec(2) by (cases "a = 0") simp_all
  have idle_u: "idle_tcb u = idle_tcb s"
    using no_schedD(6) [OF ns] un_spec(7) by (cases "a = 0") (auto simp: thread_step_def dest: fixedD)
  have "thread_step {a} s (if a = 0 then t else ?q)"
    using thread_step_trans [OF un_spec(7) thread_step_set_state [of a "{a}"]] un_spec(7) p
    by (cases "a = 0") simp_all
  from thread_step_trans [OF this thread_step_no_sched [OF ns, of "{}"]]
  have step_u: "thread_step {a} s u" by simp
  have tap_u: "tcb_tap (tcbs u q) = tcb_tap (tcbs s q)" for q
    using no_sched_fields(2) [OF ns, of q] un_spec(9) by (cases "a = 0") simp_all
  have sched: "scheduler_schedule s =
      (let (n, v) = scheduler_pull_tcb u in
       Some (snd (ccb_load_tcb (if n = 0 then idle_tcb v else n)
         (if n = 0 then v else set_state n TCB_STATE_RUNNING v))))"
    unfolding scheduler_schedule_def un Let_def prod.case push Option.bind.bind_lunit
    by (simp add: case_prod_beta)
  show ?thesis
  proof (cases Q)
    case Nil
    note load = load_spec [OF act_u, where p = "idle_tcb u"]
    have a0: "a = 0" using Nil by (auto simp: Q_def split: if_splits)
    have "scheduler_schedule s = Some (snd (ccb_load_tcb (idle_tcb u) u))"
      using sched rq Nil by (simp add: pull_empty)
    then show ?thesis
      using thread_step_trans [OF step_u load(5)] load a0 st_u tap_u idle_u rq Nil
      by (intro that [of "snd (ccb_load_tcb (idle_tcb u) u)"]) simp_all
  next
    case (Cons x R)
    let ?v = "snd (scheduler_pull_tcb u)"
    let ?w = "set_state x TCB_STATE_RUNNING ?v"
    note pull = pull_spec [OF rq [unfolded Cons]]
    have x: "x \<noteq> 0" using run_queue_distinct [OF rq] Cons by auto
    have act_w: "active ?w = 0" using no_schedD(4) [OF pull(3)] act_u by simp
    note load = load_spec [OF act_w, where p = x]
    have "scheduler_schedule s = Some (snd (ccb_load_tcb x ?w))"
      using sched pull(1) x by (simp add: case_prod_beta)
    moreover have "st ?w = (if a = 0 then st s else (st s)(a := TCB_STATE_QUEUED))
        (x := TCB_STATE_RUNNING)"
      using no_sched_fields(1) [OF pull(3)] st_u by simp
    moreover have "thread_step ({a} \<union> {} \<union> {x} \<union> {}) s (snd (ccb_load_tcb x ?w))"
      by (rule thread_step_trans [OF thread_step_trans [OF thread_step_trans
            [OF step_u thread_step_no_sched [OF pull(3)]] thread_step_set_state] load(5)]) simp
    then have "thread_step (insert a (set Q)) s (snd (ccb_load_tcb x ?w))"
      by (rule thread_step_mono) (simp add: Cons)
    moreover have "tcb_tap (tcbs ?w q) = tcb_tap (tcbs s q)" for q
      using no_sched_fields(2) [OF pull(3), of q] tap_u by simp
    ultimately show ?thesis
      using load pull(2) Cons by (intro that [of "snd (ccb_load_tcb x ?w)"]) simp_all
  qed
qed

end
