(* ===== verification/Queues.thy ===== *)
theory Queues
  imports Scheduler
begin

text \<open>
  The queues of faulted and exited threads (\<open>queues.c\<close>). They are stacks: \<open>enqueue\<close>
  puts a block in front, \<open>get_queued\<close> takes the first one. They use the same \<open>next\<close>
  field as the run queue, so a block can be in one list at a time.
\<close>

text \<open>The three static queues; the C functions take a pointer to one of them.\<close>

datatype tcb_queue = Pagefault_queue | Miscfault_queue | Zombie_queue

fun queue_head :: "tcb_queue \<Rightarrow> kernel \<Rightarrow> ptr" where
  "queue_head Pagefault_queue s = pagefault_queue s"
| "queue_head Miscfault_queue s = miscfault_queue s"
| "queue_head Zombie_queue s = zombie_queue s"

fun set_queue_head :: "tcb_queue \<Rightarrow> ptr \<Rightarrow> kernel \<Rightarrow> kernel" where
  "set_queue_head Pagefault_queue p s = s\<lparr>pagefault_queue := p\<rparr>"
| "set_queue_head Miscfault_queue p s = s\<lparr>miscfault_queue := p\<rparr>"
| "set_queue_head Zombie_queue p s = s\<lparr>zombie_queue := p\<rparr>"

definition has_queued :: "tcb_queue \<Rightarrow> kernel \<Rightarrow> bool" where
  "has_queued queue s \<longleftrightarrow> queue_head queue s \<noteq> 0"

definition get_queued :: "tcb_queue \<Rightarrow> kernel \<Rightarrow> ptr \<times> kernel" where
  "get_queued queue s =
     (let tcb = queue_head queue s in
      (tcb, if tcb \<noteq> 0 then set_queue_head queue (nxt s tcb) s else s))"

definition enqueue :: "tcb_queue \<Rightarrow> ptr \<Rightarrow> kernel \<Rightarrow> kernel option" where
  "enqueue queue tcb s = do {
     _ \<leftarrow> deref tcb;
     let s = upd_tcb tcb (\<lambda>t. t\<lparr>tcb_next := queue_head queue s\<rparr>) s;
     Some (set_queue_head queue tcb s)
   }"

definition has_pagefault :: "kernel \<Rightarrow> bool" where "has_pagefault = has_queued Pagefault_queue"
definition has_miscfault :: "kernel \<Rightarrow> bool" where "has_miscfault = has_queued Miscfault_queue"
definition has_zombie :: "kernel \<Rightarrow> bool" where "has_zombie = has_queued Zombie_queue"

definition get_pagefault :: "kernel \<Rightarrow> ptr \<times> kernel" where "get_pagefault = get_queued Pagefault_queue"
definition get_miscfault :: "kernel \<Rightarrow> ptr \<times> kernel" where "get_miscfault = get_queued Miscfault_queue"
definition get_zombie :: "kernel \<Rightarrow> ptr \<times> kernel" where "get_zombie = get_queued Zombie_queue"

definition queue_pagefault :: "ptr \<Rightarrow> kernel \<Rightarrow> kernel option" where
  "queue_pagefault = enqueue Pagefault_queue"
definition queue_miscfault :: "ptr \<Rightarrow> kernel \<Rightarrow> kernel option" where
  "queue_miscfault = enqueue Miscfault_queue"
definition queue_zombie :: "ptr \<Rightarrow> kernel \<Rightarrow> kernel option" where
  "queue_zombie = enqueue Zombie_queue"

lemmas queue_op_defs = has_pagefault_def has_miscfault_def has_zombie_def
  get_pagefault_def get_miscfault_def get_zombie_def
  queue_pagefault_def queue_miscfault_def queue_zombie_def

subsection \<open>Stack contract\<close>

text \<open>\<open>pops pop n s\<close>: the elements of \<open>n\<close> pops in a row.\<close>

fun pops :: "('s \<Rightarrow> 'a \<times> 's) \<Rightarrow> nat \<Rightarrow> 's \<Rightarrow> 'a list \<times> 's" where
  "pops pop 0 s = ([], s)"
| "pops pop (Suc n) s =
     (case pop s of (x, s1) \<Rightarrow> case pops pop n s1 of (xs, s2) \<Rightarrow> (x # xs, s2))"

fun pushes :: "('a \<Rightarrow> 's \<Rightarrow> 's option) \<Rightarrow> 'a list \<Rightarrow> 's \<Rightarrow> 's option" where
  "pushes push [] s = Some s"
| "pushes push (x # xs) s = Option.bind (push x s) (pushes push xs)"

locale stack =
  fixes push :: "'a \<Rightarrow> 's \<Rightarrow> 's option"
    and pop :: "'s \<Rightarrow> 'a \<times> 's"
    and nonempty :: "'s \<Rightarrow> bool"
    and null :: 'a
    and rep :: "'a list \<Rightarrow> 's \<Rightarrow> bool"
  assumes push_rep: "rep L s \<Longrightarrow> x \<noteq> null \<Longrightarrow> x \<notin> set L \<Longrightarrow> \<exists>s'. push x s = Some s' \<and> rep (x # L) s'"
    and pop_rep: "rep (x # L) s \<Longrightarrow> fst (pop s) = x \<and> rep L (snd (pop s))"
    and pop_empty: "rep [] s \<Longrightarrow> pop s = (null, s)"
    and nonempty_rep: "rep L s \<Longrightarrow> nonempty s \<longleftrightarrow> L \<noteq> []"
begin

lemma pushes_rep:
  assumes "rep L s" "distinct xs" "set xs \<inter> set L = {}" "null \<notin> set xs"
  shows "\<exists>s'. pushes push xs s = Some s' \<and> rep (rev xs @ L) s'"
  using assms
proof (induction xs arbitrary: L s)
  case Nil
  then show ?case by simp
next
  case (Cons x xs)
  then obtain t where t: "push x s = Some t" "rep (x # L) t" using push_rep [of L s x] by auto
  have "\<exists>s'. pushes push xs t = Some s' \<and> rep (rev xs @ x # L) s'"
    using Cons.prems t(2) by (intro Cons.IH) auto
  then show ?case using t(1) by simp
qed

lemma pops_rep: "rep (xs @ L) s \<Longrightarrow> \<exists>s'. pops pop (length xs) s = (xs, s') \<and> rep L s'"
proof (induction xs arbitrary: s)
  case Nil
  then show ?case by simp
next
  case (Cons x xs)
  then have p: "fst (pop s) = x" "rep (xs @ L) (snd (pop s))" using pop_rep [of x "xs @ L" s] by auto
  from Cons.IH [OF p(2)] p(1) show ?case by (auto simp: case_prod_beta)
qed

text \<open>What was pushed comes out in reverse order, and the stack is as before.\<close>

lemma push_pop_reverse:
  assumes "rep L s" "distinct xs" "set xs \<inter> set L = {}" "null \<notin> set xs"
  shows "\<exists>s' s''. pushes push xs s = Some s' \<and> pops pop (length xs) s' = (rev xs, s'') \<and> rep L s''"
  using pushes_rep [OF assms] pops_rep [of "rev xs" L] by auto

end

definition fault_queue :: "tcb_queue \<Rightarrow> ptr list \<Rightarrow> kernel \<Rightarrow> bool" where
  "fault_queue q L s \<longleftrightarrow> llist (nxt s) (queue_head q s) L"

lemma queue_head_set [simp]: "queue_head q (set_queue_head q p s) = p"
  by (cases q) simp_all

lemma set_queue_head_frame [simp]:
  "tcbs (set_queue_head q p s) = tcbs s"
  "schedule_head (set_queue_head q p s) = schedule_head s"
  "schedule_tail (set_queue_head q p s) = schedule_tail s"
  "the_ccb (set_queue_head q p s) = the_ccb s"
  "idle_tcb (set_queue_head q p s) = idle_tcb s"
  "interrupt_vector_page_table (set_queue_head q p s) = interrupt_vector_page_table s"
  by (cases q; simp)+

lemma fixed_set_queue_head [simp]: "fixed (set_queue_head q p s) = fixed s"
  by (cases q) (simp_all add: fixed_def mem_view_def pmm_view_def)

lemma thread_step_set_queue_head: "thread_step P s (set_queue_head q p s)"
  by (simp add: thread_step_def)

lemma run_queue_set_queue_head [simp]: "run_queue L (set_queue_head q p s) = run_queue L s"
  by (rule run_queue_cong) simp_all

lemma enqueue_spec:
  assumes "fault_queue q L s" "p \<noteq> 0" "p \<notin> set L"
  shows "\<exists>s'. enqueue q p s = Some s' \<and> fault_queue q (p # L) s'"
  using assms by (cases q) (auto simp: enqueue_def fault_queue_def fun_upd_def
      intro: llist_cong [THEN iffD1, rotated])

lemma get_queued_spec:
  assumes "fault_queue q (p # L) s"
  shows "fst (get_queued q s) = p \<and> fault_queue q L (snd (get_queued q s))"
  using assms by (auto simp: get_queued_def fault_queue_def Let_def)

lemma fault_queue_stack: "stack (enqueue q) (get_queued q) (has_queued q) 0 (fault_queue q)"
proof
  fix L s and x :: ptr assume "fault_queue q L s" "x \<noteq> 0" "x \<notin> set L"
  then show "\<exists>s'. enqueue q x s = Some s' \<and> fault_queue q (x # L) s'" by (rule enqueue_spec)
next
  fix x L s assume "fault_queue q (x # L) s"
  then show "fst (get_queued q s) = x \<and> fault_queue q L (snd (get_queued q s))"
    by (rule get_queued_spec)
next
  fix s assume "fault_queue q [] s"
  then show "get_queued q s = (0, s)" by (simp add: get_queued_def fault_queue_def)
next
  fix L s assume "fault_queue q L s"
  then show "has_queued q s \<longleftrightarrow> L \<noteq> []" by (cases L) (auto simp: has_queued_def fault_queue_def)
qed

interpretation pagefaults: stack "enqueue Pagefault_queue" "get_queued Pagefault_queue"
  "has_queued Pagefault_queue" 0 "fault_queue Pagefault_queue"
  by (rule fault_queue_stack)

interpretation miscfaults: stack "enqueue Miscfault_queue" "get_queued Miscfault_queue"
  "has_queued Miscfault_queue" 0 "fault_queue Miscfault_queue"
  by (rule fault_queue_stack)

interpretation zombies: stack "enqueue Zombie_queue" "get_queued Zombie_queue"
  "has_queued Zombie_queue" 0 "fault_queue Zombie_queue"
  by (rule fault_queue_stack)

text \<open>Queueing a block that is not in the run queue leaves the run queue alone.\<close>

lemma enqueue_frame:
  assumes "enqueue q p s = Some s'"
  shows "thread_step P s s'" "the_ccb s' = the_ccb s" "st s' = st s" "p \<noteq> 0"
    "p \<notin> set L \<Longrightarrow> run_queue L s \<Longrightarrow> run_queue L s'" "tcb_tap (tcbs s' r) = tcb_tap (tcbs s r)"
proof -
  let ?t = "upd_tcb p (\<lambda>t. t\<lparr>tcb_next := queue_head q s\<rparr>) s"
  from assms have p: "p \<noteq> 0" and s': "s' = set_queue_head q p ?t"
    by (auto simp: enqueue_def bind_eq_Some_conv)
  show "p \<noteq> 0" by (rule p)
  show "the_ccb s' = the_ccb s" "st s' = st s" "tcb_tap (tcbs s' r) = tcb_tap (tcbs s r)"
    by (auto simp: s' fun_eq_iff)
  have "thread_step P s ?t"
    by (simp add: thread_step_def fixed_def mem_view_def pmm_view_def)
  with thread_step_trans [OF this thread_step_set_queue_head [of P]] show "thread_step P s s'"
    by (simp add: s')
  show "run_queue L s'" if "p \<notin> set L" "run_queue L s"
  proof -
    have "llist (nxt s') (schedule_head s) L = llist (nxt s) (schedule_head s) L"
      using that(1) by (intro llist_cong) (auto simp: s')
    with that(2) show ?thesis by (simp add: run_queue_def s')
  qed
qed

lemma get_queued_frame:
  assumes "get_queued q s = (p, s')"
  shows "thread_step P s s'" "the_ccb s' = the_ccb s" "tcbs s' = tcbs s" "run_queue L s' = run_queue L s"
  using assms by (auto simp: get_queued_def Let_def thread_step_set_queue_head split: if_splits)

end
