(* ===== verification/Interrupts.thy ===== *)
theory Interrupts
  imports Queues
begin

text \<open>
  Interrupt routing: \<open>interrupt_vector.c\<close>, the handlers of \<open>init.c\<close> that the vector
  pages point to, and the interrupt calls of \<open>api/interrupt_*.c\<close>. A vector page maps each
  of 128 vectors to at most four blocks; a block lists up to four vectors in its taps, whose
  top bit records that the vector has fired.
\<close>

definition TAP_COUNT :: nat where "TAP_COUNT = 4"

definition vector_page :: "u16 \<Rightarrow> kernel \<Rightarrow> interrupt_vector_page option" where
  "vector_page vec s = do {
     _ \<leftarrow> in_bounds (unat (drop_bit 7 vec)) INTERRUPT_VECTOR_PAGES;
     Some (interrupt_vector_page_table s (unat (drop_bit 7 vec)))
   }"

definition set_route :: "u16 \<Rightarrow> nat \<Rightarrow> ptr \<Rightarrow> kernel \<Rightarrow> kernel" where
  "set_route vec i p s =
     (let k = unat (drop_bit 7 vec); v = unat (vec AND 0x7F);
          page = interrupt_vector_page_table s k
      in s\<lparr>interrupt_vector_page_table := (interrupt_vector_page_table s)
           (k := page\<lparr>route := map_option (\<lambda>r. r(v := (r v)(i := p))) (route page)\<rparr>)\<rparr>)"

definition interrupt_add_vector_page ::
  "u16 \<Rightarrow> interrupt_vector_page_vtable \<Rightarrow> kernel \<Rightarrow> kernel option" where
  "interrupt_add_vector_page vec_base vt s = do {
     let k = unat (drop_bit 7 vec_base);
     _ \<leftarrow> in_bounds k INTERRUPT_VECTOR_PAGES;
     (page, s) \<leftarrow> pge_alloc s;
     _ \<leftarrow> deref page;
     Some (s\<lparr>interrupt_vector_page_table := (interrupt_vector_page_table s)
       (k := \<lparr>route = Some (\<lambda>i j. 0), vtable = Some vt\<rparr>)\<rparr>)
   }"

text \<open>A full route is only logged, and the caller is not told.\<close>

definition interrupt_add_route :: "ptr \<Rightarrow> u16 \<Rightarrow> kernel \<Rightarrow> kernel option" where
  "interrupt_add_route tcb vec s = do {
     page \<leftarrow> vector_page vec s;
     case route page of
       None \<Rightarrow> Some s
     | Some r \<Rightarrow>
         (case find (\<lambda>i. r (unat (vec AND 0x7F)) i = 0) [0..<TAP_COUNT] of
            Some i \<Rightarrow> Some (set_route vec i tcb s)
          | None \<Rightarrow> Some s)
   }"

definition interrupt_remove_route :: "ptr \<Rightarrow> u16 \<Rightarrow> kernel \<Rightarrow> kernel option" where
  "interrupt_remove_route tcb vec s = do {
     page \<leftarrow> vector_page vec s;
     case route page of
       None \<Rightarrow> Some s
     | Some r \<Rightarrow>
         (case find (\<lambda>i. r (unat (vec AND 0x7F)) i = tcb) [0..<TAP_COUNT] of
            Some i \<Rightarrow> Some (set_route vec i 0 s)
          | None \<Rightarrow> Some s)
   }"

subsection \<open>Firing a vector\<close>

text \<open>The effect of a fired vector on one block routed to it.\<close>

definition interrupt_notify :: "u16 \<Rightarrow> ptr \<Rightarrow> kernel \<Rightarrow> kernel option" where
  "interrupt_notify vec tcb s =
     (case find (\<lambda>j. tcb_tap (tcbs s tcb) j AND 0x3FFF = vec) [0..<TAP_COUNT] of
        None \<Rightarrow> Some s
      | Some j \<Rightarrow> do {
          let s = upd_tcb tcb (\<lambda>t. t\<lparr>tcb_tap := (tcb_tap t)(j := tcb_tap t j OR 0x8000)\<rparr>) s;
          if st s tcb = TCB_STATE_WAITING then do {
            s \<leftarrow> scheduler_add_tcb tcb s;
            let s = set_state tcb TCB_STATE_QUEUED s;
            Some (upd_tcb tcb (\<lambda>t. t\<lparr>tcb_rax := ucast vec\<rparr>) s)
          }
          else if st s tcb = TCB_STATE_SUSPENDEDWAITING then do {
            let s = set_state tcb TCB_STATE_SUSPENDED s;
            Some (upd_tcb tcb (\<lambda>t. t\<lparr>tcb_rax := ucast vec\<rparr>) s)
          }
          else Some s
        })"

fun interrupt_notify_all :: "u16 \<Rightarrow> ptr list \<Rightarrow> kernel \<Rightarrow> kernel option" where
  "interrupt_notify_all vec [] s = Some s"
| "interrupt_notify_all vec (tcb # ps) s =
     (if tcb = 0 then interrupt_notify_all vec ps s
      else do { s \<leftarrow> interrupt_notify vec tcb s; interrupt_notify_all vec ps s })"

text \<open>
  The \<open>on_fire\<close> entry. The IRQ handlers only write to the log; the table of the kernel's
  own vectors has no such entry, and its reset handler in that place would call itself.
\<close>

definition run_on_fire :: "interrupt_vector_page_vtable option \<Rightarrow> kernel \<Rightarrow> kernel option" where
  "run_on_fire vt s =
     (case Option.bind vt on_fire of
        None \<Rightarrow> Some s
      | Some Irq_on_fire \<Rightarrow> Some s
      | Some Irq_on_reset \<Rightarrow> Some s
      | Some Pinion_on_reset \<Rightarrow> None)"

definition interrupt_vector_fire :: "u16 \<Rightarrow> kernel \<Rightarrow> kernel option" where
  "interrupt_vector_fire vec s = do {
     page \<leftarrow> vector_page vec s;
     case route page of
       None \<Rightarrow> Some s
     | Some r \<Rightarrow> do {
         s \<leftarrow> run_on_fire (vtable page) s;
         interrupt_notify_all vec (map (r (unat (vec AND 0x7F))) [0..<TAP_COUNT]) s
       }
   }"

subsection \<open>Resetting a vector\<close>

text \<open>A vector of the kernel fires again at once while its queue is not empty.\<close>

definition pinion_on_reset :: "u16 \<Rightarrow> kernel \<Rightarrow> kernel option" where
  "pinion_on_reset vec s =
     (let v = vec AND 0x7F in
      if v = 0 then if has_pagefault s then interrupt_vector_fire vec s else Some s
      else if v = 1 then if has_miscfault s then interrupt_vector_fire vec s else Some s
      else if v = 2 then if has_zombie s then interrupt_vector_fire vec s else Some s
      else Some s)"

definition run_on_reset ::
  "interrupt_vector_page_vtable option \<Rightarrow> u16 \<Rightarrow> kernel \<Rightarrow> kernel option" where
  "run_on_reset vt vec s =
     (case Option.bind vt on_reset of
        None \<Rightarrow> Some s
      | Some Irq_on_fire \<Rightarrow> Some s
      | Some Irq_on_reset \<Rightarrow> Some s
      | Some Pinion_on_reset \<Rightarrow> pinion_on_reset vec s)"

definition interrupt_vector_reset :: "u16 \<Rightarrow> kernel \<Rightarrow> kernel option" where
  "interrupt_vector_reset vec s = do {
     page \<leftarrow> vector_page vec s;
     case route page of
       None \<Rightarrow> Some s
     | Some r \<Rightarrow> run_on_reset (vtable page) vec s
   }"

subsection \<open>The interrupt calls\<close>

text \<open>
  Vector ids and tap indices have the types \<open>uint_fast16_t\<close> and \<open>uint_fast8_t\<close>, which
  are 32 bits wide on the build's target; a stored tap is 16 bits wide.
\<close>

definition apilogic_interrupt_get_tap :: "u32 \<Rightarrow> kernel \<Rightarrow> u32 option" where
  "apilogic_interrupt_get_tap index s =
     (if TAP_COUNT \<le> unat index then Some 0
      else do {
        _ \<leftarrow> deref (active s);
        Some (ucast (tcb_tap (tcbs s (active s)) (unat index)))
      })"

definition set_tap :: "ptr \<Rightarrow> nat \<Rightarrow> u16 \<Rightarrow> kernel \<Rightarrow> kernel" where
  "set_tap p i v s = upd_tcb p (\<lambda>t. t\<lparr>tcb_tap := (tcb_tap t)(i := v)\<rparr>) s"

definition apilogic_interrupt_set_tap :: "u32 \<Rightarrow> u32 \<Rightarrow> kernel \<Rightarrow> (bool \<times> kernel) option" where
  "apilogic_interrupt_set_tap index vec s = do {
     let tcb = active s;
     if TAP_COUNT \<le> unat index then Some (False, s)
     else if vec AND 0xC000 \<noteq> 0 then Some (False, s)
     else do {
       _ \<leftarrow> deref tcb;
       let i = unat index;
       let old = tcb_tap (tcbs s tcb) i;
       s \<leftarrow> (if old AND 0x3FFF \<noteq> 0 then interrupt_remove_route tcb old s else Some s);
       let s = set_tap tcb i (ucast vec) s;
       s \<leftarrow> interrupt_add_route tcb (ucast vec) s;
       s \<leftarrow> interrupt_vector_reset (ucast vec) s;
       Some (True, s)
     }
   }"

definition apilogic_interrupt_reset :: "u32 \<Rightarrow> kernel \<Rightarrow> kernel option" where
  "apilogic_interrupt_reset vec s = do {
     let tcb = active s;
     _ \<leftarrow> deref tcb;
     case find (\<lambda>i. (ucast (tcb_tap (tcbs s tcb) i) :: u32) AND NOT 0xC000 = vec) [0..<TAP_COUNT] of
       None \<Rightarrow> Some s
     | Some i \<Rightarrow>
         interrupt_vector_reset (ucast vec) (set_tap tcb i (tcb_tap (tcbs s tcb) i AND NOT 0x8000) s)
   }"

definition apilogic_interrupt_wait :: "kernel \<Rightarrow> (u32 \<times> kernel) option" where
  "apilogic_interrupt_wait s = do {
     let tcb = active s;
     _ \<leftarrow> deref tcb;
     case find (\<lambda>i. tcb_tap (tcbs s tcb) i AND 0x8000 \<noteq> 0) [0..<TAP_COUNT] of
       Some i \<Rightarrow> Some (ucast (tcb_tap (tcbs s tcb) i AND NOT 0x8000), s)
     | None \<Rightarrow> Some (0, set_state tcb TCB_STATE_WAITING s)
   }"

subsection \<open>Shapes of the results\<close>

text \<open>A reset does nothing or fires; adding or removing a route writes at most one route.\<close>

lemma reset_cases:
  assumes "interrupt_vector_reset vec s = Some t"
  shows "t = s \<or> interrupt_vector_fire vec s = Some t"
  using assms by (auto simp: interrupt_vector_reset_def run_on_reset_def pinion_on_reset_def
      bind_eq_Some_conv Let_def split: option.splits vec_handler.splits if_splits)

lemma route_cases:
  assumes "interrupt_add_route p vec s = Some t \<or> interrupt_remove_route p vec s = Some t"
  shows "t = s \<or> (\<exists>i q. t = set_route vec i q s)"
  using assms by (elim disjE)
    (simp_all add: interrupt_add_route_def interrupt_remove_route_def bind_eq_Some_conv
      split: option.splits, auto)

end
