(* ===== verification/Threads.thy ===== *)
theory Threads
  imports Interrupts
begin

text \<open>
  The thread calls (\<open>api/thread_*.c\<close>). Thread ids have the type \<open>int_fast32_t\<close>, 32 bits
  wide on the build's target; null struct pointers are \<open>None\<close>.
\<close>

definition THREAD_ID_SELF :: u32 where "THREAD_ID_SELF = - 1"

definition apilogic_thread_create :: "kernel \<Rightarrow> (u32 \<times> kernel) option" where
  "apilogic_thread_create s = do {
     (new_tcb, s) \<leftarrow> tcb_new s;
     if new_tcb = 0 then Some (0, s)
     else do {
       let s = set_state new_tcb TCB_STATE_SUSPENDED s;
       Some (tcb_id (tcbs s new_tcb), s)
     }
   }"

text \<open>The id the caller means: \<open>-1\<close> stands for the active thread.\<close>

definition self_or :: "u32 \<Rightarrow> kernel \<Rightarrow> u32 option" where
  "self_or thread s =
     (if thread = THREAD_ID_SELF then do {
        _ \<leftarrow> deref (active s);
        Some (tcb_id (tcbs s (active s)))
      } else Some thread)"

definition apilogic_thread_pause :: "u32 \<Rightarrow> kernel \<Rightarrow> (bool \<times> kernel) option" where
  "apilogic_thread_pause thread s = do {
     thread \<leftarrow> self_or thread s;
     (tcb, s) \<leftarrow> tcb_get thread s;
     if tcb = 0 then Some (False, s)
     else if st s tcb = TCB_STATE_SUSPENDED \<or> st s tcb = TCB_STATE_SUSPENDEDWAITING then
       Some (True, s)
     else if st s tcb = TCB_STATE_WAITING then
       Some (True, set_state tcb TCB_STATE_SUSPENDEDWAITING s)
     else if st s tcb = TCB_STATE_QUEUED then do {
       (_, s) \<leftarrow> scheduler_rem_tcb tcb s;
       Some (True, set_state tcb TCB_STATE_SUSPENDED s)
     }
     else if st s tcb = TCB_STATE_RUNNING then
       Some (True, set_state tcb TCB_STATE_SUSPENDED s)
     else Some (False, s)
   }"

definition apilogic_thread_resume :: "u32 \<Rightarrow> kernel \<Rightarrow> (bool \<times> kernel) option" where
  "apilogic_thread_resume thread s = do {
     thread \<leftarrow> self_or thread s;
     (tcb, s) \<leftarrow> tcb_get thread s;
     if tcb = 0 then Some (False, s)
     else if st s tcb = TCB_STATE_SUSPENDED then do {
       s \<leftarrow> scheduler_add_tcb tcb s;
       Some (True, set_state tcb TCB_STATE_QUEUED s)
     }
     else if st s tcb = TCB_STATE_SUSPENDEDWAITING then
       Some (True, set_state tcb TCB_STATE_WAITING s)
     else Some (False, s)
   }"

definition apilogic_thread_reap :: "u32 \<Rightarrow> kernel \<Rightarrow> (bool \<times> kernel) option" where
  "apilogic_thread_reap thread s = do {
     (tcb, s) \<leftarrow> tcb_get thread s;
     if tcb = 0 then Some (False, s)
     else if st s tcb \<noteq> TCB_STATE_SUSPENDED then Some (False, s)
     else do {
       s \<leftarrow> tcb_del tcb s;
       Some (True, s)
     }
   }"

text \<open>The call itself does nothing; its entry in \<open>api.s\<close> yields afterwards.\<close>

definition apilogic_thread_yield :: "kernel \<Rightarrow> kernel" where
  "apilogic_thread_yield s = s"

definition PINION_INTERRUPT_PAGEFAULT :: u16 where "PINION_INTERRUPT_PAGEFAULT = 0x0080"
definition PINION_INTERRUPT_MISCFAULT :: u16 where "PINION_INTERRUPT_MISCFAULT = 0x0081"
definition PINION_INTERRUPT_ZOMBIE :: u16 where "PINION_INTERRUPT_ZOMBIE = 0x0082"

definition apilogic_thread_exit :: "kernel \<Rightarrow> kernel option" where
  "apilogic_thread_exit s = do {
     _ \<leftarrow> deref (active s);
     let s = set_state (active s) TCB_STATE_SUSPENDED s;
     s \<leftarrow> queue_zombie (active s) s;
     interrupt_vector_fire PINION_INTERRUPT_ZOMBIE s
   }"

subsection \<open>Register state\<close>

record thread_state =
  ts_rip :: u64
  ts_rsp :: u64
  ts_rbx :: u64
  ts_rbp :: u64
  ts_r12 :: u64
  ts_r13 :: u64
  ts_r14 :: u64
  ts_r15 :: u64
  ts_rax :: u64
  ts_rcx :: u64
  ts_rdx :: u64
  ts_rdi :: u64
  ts_rsi :: u64
  ts_r8 :: u64
  ts_r9 :: u64
  ts_r10 :: u64
  ts_r11 :: u64
  ts_fs :: u64
  ts_gs :: u64
  ts_cs :: u64
  ts_ss :: u64
  ts_ds :: u64

definition CLASS_REGS_CALLEE :: u32 where "CLASS_REGS_CALLEE = 0x0007"
definition CLASS_REGS_IP :: u32 where "CLASS_REGS_IP = 0x0001"
definition CLASS_REGS_SP :: u32 where "CLASS_REGS_SP = 0x0002"
definition CLASS_REGS_CALLER :: u32 where "CLASS_REGS_CALLER = 0x0008"
definition CLASS_REGS_SYSTEM :: u32 where "CLASS_REGS_SYSTEM = 0x0010"

lemmas class_defs = CLASS_REGS_CALLEE_def CLASS_REGS_IP_def CLASS_REGS_SP_def
  CLASS_REGS_CALLER_def CLASS_REGS_SYSTEM_def

definition pull_regs :: "u32 \<Rightarrow> tcb \<Rightarrow> thread_state \<Rightarrow> thread_state" where
  "pull_regs cls t r =
     (let r = (if cls AND CLASS_REGS_IP \<noteq> 0 then r\<lparr>ts_rip := tcb_rip t\<rparr> else r);
          r = (if cls AND CLASS_REGS_SP \<noteq> 0 then r\<lparr>ts_rsp := tcb_rsp t\<rparr> else r);
          r = (if cls AND CLASS_REGS_CALLEE \<noteq> 0 then
                 r\<lparr>ts_rbx := tcb_rbx t, ts_rbp := tcb_rbp t, ts_r12 := tcb_r12 t,
                   ts_r13 := tcb_r13 t, ts_r14 := tcb_r14 t, ts_r15 := tcb_r15 t\<rparr> else r);
          r = (if cls AND CLASS_REGS_CALLER \<noteq> 0 then
                 r\<lparr>ts_rax := tcb_rax t, ts_rcx := tcb_rcx t, ts_rdx := tcb_rdx t,
                   ts_rdi := tcb_rdi t, ts_rsi := tcb_rsi t, ts_r8 := tcb_r8 t,
                   ts_r9 := tcb_r9 t, ts_r10 := tcb_r10 t, ts_r11 := tcb_r11 t\<rparr> else r);
          r = (if cls AND CLASS_REGS_SYSTEM \<noteq> 0 then
                 r\<lparr>ts_gs := tcb_gs t, ts_fs := 0, ts_cs := tcb_cs t, ts_ss := tcb_ss t,
                   ts_ds := tcb_ss t\<rparr> else r)
      in r)"

definition push_regs :: "u32 \<Rightarrow> thread_state \<Rightarrow> tcb \<Rightarrow> tcb" where
  "push_regs cls r t =
     (let t = (if cls AND CLASS_REGS_IP \<noteq> 0 then t\<lparr>tcb_rip := ts_rip r\<rparr> else t);
          t = (if cls AND CLASS_REGS_SP \<noteq> 0 then t\<lparr>tcb_rsp := ts_rsp r\<rparr> else t);
          t = (if cls AND CLASS_REGS_CALLEE \<noteq> 0 then
                 t\<lparr>tcb_rbx := ts_rbx r, tcb_rbp := ts_rbp r, tcb_r12 := ts_r12 r,
                   tcb_r13 := ts_r13 r, tcb_r14 := ts_r14 r, tcb_r15 := ts_r15 r\<rparr> else t);
          t = (if cls AND CLASS_REGS_CALLER \<noteq> 0 then
                 t\<lparr>tcb_rax := ts_rax r, tcb_rcx := ts_rcx r, tcb_rdx := ts_rdx r,
                   tcb_rdi := ts_rdi r, tcb_rsi := ts_rsi r, tcb_r8 := ts_r8 r,
                   tcb_r9 := ts_r9 r, tcb_r10 := ts_r10 r, tcb_r11 := ts_r11 r\<rparr> else t)
      in t)"

definition apilogic_thread_pull_state ::
  "u32 \<Rightarrow> u32 \<Rightarrow> thread_state option \<Rightarrow> kernel \<Rightarrow> (bool \<times> thread_state option \<times> kernel) option" where
  "apilogic_thread_pull_state thread cls state s =
     (case state of
        None \<Rightarrow> Some (False, None, s)
      | Some r \<Rightarrow> do {
          (tcb, s) \<leftarrow> tcb_get thread s;
          if tcb = 0 then Some (False, state, s)
          else if st s tcb \<noteq> TCB_STATE_SUSPENDED \<and> st s tcb \<noteq> TCB_STATE_SUSPENDEDWAITING then
            Some (False, state, s)
          else Some (True, Some (pull_regs cls (tcbs s tcb) r), s)
        })"

definition apilogic_thread_push_state ::
  "u32 \<Rightarrow> u32 \<Rightarrow> thread_state option \<Rightarrow> kernel \<Rightarrow> (bool \<times> kernel) option" where
  "apilogic_thread_push_state thread cls state s =
     (case state of
        None \<Rightarrow> Some (False, s)
      | Some r \<Rightarrow> do {
          (tcb, s) \<leftarrow> tcb_get thread s;
          if tcb = 0 then Some (False, s)
          else if st s tcb \<noteq> TCB_STATE_SUSPENDED \<and> st s tcb \<noteq> TCB_STATE_SUSPENDEDWAITING then
            Some (False, s)
          else Some (True, upd_tcb tcb (push_regs cls r) s)
        })"

end
