(* ===== verification/Faults.thy ===== *)
theory Faults
  imports Threads
begin

text \<open>
  Faulted and exited threads as the calls report them (\<open>api/fault_*.c\<close>, \<open>api/thread.c\<close>),
  and the kernel's entry for all interrupts, \<open>fault\<close> of \<open>init.c\<close>.
\<close>

subsection \<open>The fault calls\<close>

record pagefault_info =
  pf_thread :: u32
  pf_vaddr :: u64
  pf_paddr :: u64
  pf_flags :: u64

record miscfault_info =
  mf_thread :: u32
  mf_type :: u64
  mf_errcode :: u64

record zombie_info =
  zi_thread :: u32

definition apilogic_fault_get_pagefault ::
  "pagefault_info option \<Rightarrow> kernel \<Rightarrow> (bool \<times> pagefault_info option \<times> kernel) option" where
  "apilogic_fault_get_pagefault info s =
     (case info of
        None \<Rightarrow> Some (False, None, s)
      | Some i \<Rightarrow>
          (case get_pagefault s of (tcb, s) \<Rightarrow>
             if tcb = 0 then Some (False, info, s)
             else do {
               let vaddr = tcb_fault_addr (tcbs s tcb);
               (paddr, s) \<leftarrow> pcx_get_trans 0 vaddr s;
               (flags, s) \<leftarrow> pcx_get_flags 0 vaddr s;
               Some (True, Some \<lparr>pf_thread = tcb_id (tcbs s tcb), pf_vaddr = vaddr,
                 pf_paddr = paddr, pf_flags = flags\<rparr>, s)
             }))"

definition apilogic_fault_get_miscfault ::
  "miscfault_info option \<Rightarrow> kernel \<Rightarrow> bool \<times> miscfault_info option \<times> kernel" where
  "apilogic_fault_get_miscfault info s =
     (case info of
        None \<Rightarrow> (False, None, s)
      | Some i \<Rightarrow>
          (case get_miscfault s of (tcb, s) \<Rightarrow>
             if tcb = 0 then (False, info, s)
             else (True, Some \<lparr>mf_thread = tcb_id (tcbs s tcb),
               mf_type = ucast (tcb_ivect (tcbs s tcb)), mf_errcode = tcb_error (tcbs s tcb)\<rparr>, s)))"

definition apilogic_fault_get_zombie ::
  "zombie_info option \<Rightarrow> kernel \<Rightarrow> bool \<times> zombie_info option \<times> kernel" where
  "apilogic_fault_get_zombie info s =
     (case info of
        None \<Rightarrow> (False, None, s)
      | Some i \<Rightarrow>
          (case get_zombie s of (tcb, s) \<Rightarrow>
             if tcb = 0 then (False, info, s)
             else (True, Some \<lparr>zi_thread = tcb_id (tcbs s tcb)\<rparr>, s)))"

text \<open>The older calls return the id, or 0 when the queue is empty.\<close>

definition thread_get_queued :: "tcb_queue \<Rightarrow> kernel \<Rightarrow> u32 \<times> kernel" where
  "thread_get_queued q s =
     (case get_queued q s of (tcb, s) \<Rightarrow> (if tcb \<noteq> 0 then tcb_id (tcbs s tcb) else 0, s))"

definition apilogic_thread_get_pagefault :: "kernel \<Rightarrow> u32 \<times> kernel" where
  "apilogic_thread_get_pagefault = thread_get_queued Pagefault_queue"
definition apilogic_thread_get_miscfault :: "kernel \<Rightarrow> u32 \<times> kernel" where
  "apilogic_thread_get_miscfault = thread_get_queued Miscfault_queue"
definition apilogic_thread_get_zombie :: "kernel \<Rightarrow> u32 \<times> kernel" where
  "apilogic_thread_get_zombie = thread_get_queued Zombie_queue"

subsection \<open>Interrupt entry\<close>

text \<open>
  What the processor and \<open>save_state_full\<close> of \<open>interrupt.s\<close> store into the active block:
  the interrupt stacks point at its end, so the pushed frame and the saved registers land
  in its register area. \<open>gs\<close> is not saved.
\<close>

record frame =
  fr_regs :: thread_state
  fr_error :: u64
  fr_rflags :: u64

definition save_frame :: "u32 \<Rightarrow> frame \<Rightarrow> tcb \<Rightarrow> tcb" where
  "save_frame vect f t =
     (let r = fr_regs f in
      t\<lparr>tcb_rax := ts_rax r, tcb_rcx := ts_rcx r, tcb_rbx := ts_rbx r, tcb_rdx := ts_rdx r,
        tcb_rdi := ts_rdi r, tcb_rsi := ts_rsi r, tcb_rbp := ts_rbp r, tcb_r8 := ts_r8 r,
        tcb_r9 := ts_r9 r, tcb_r10 := ts_r10 r, tcb_r11 := ts_r11 r, tcb_r12 := ts_r12 r,
        tcb_r13 := ts_r13 r, tcb_r14 := ts_r14 r, tcb_r15 := ts_r15 r,
        tcb_ivect := vect, tcb_saved := 0, tcb_error := fr_error f, tcb_rip := ts_rip r,
        tcb_cs := ts_cs r, tcb_rflags := fr_rflags f, tcb_rsp := ts_rsp r, tcb_ss := ts_ss r\<rparr>)"

definition save_state_full :: "u32 \<Rightarrow> frame \<Rightarrow> kernel \<Rightarrow> kernel" where
  "save_state_full vect f s = upd_tcb (active s) (save_frame vect f) s"

definition signal_eoi :: "kernel \<Rightarrow> kernel" where
  "signal_eoi s = s\<lparr>the_ccb := (the_ccb s)\<lparr>lapic_eoi := Suc (lapic_eoi (the_ccb s))\<rparr>\<rparr>"

text \<open>
  The dispatcher. \<open>cr2\<close> is the faulting address the processor reports; the code reads it
  for the log only, translating it on the way. A double fault never returns.
\<close>

definition fault :: "u64 \<Rightarrow> ptr \<Rightarrow> kernel \<Rightarrow> kernel option" where
  "fault cr2 tcb s =
     (let iv = tcb_ivect (tcbs s tcb) in
      if iv = 32 then scheduler_schedule (signal_eoi s)
      else if iv = 0x100 then do {
        let s = (if tcb_rdi (tcbs s tcb) = 0 \<and> st s tcb \<noteq> TCB_STATE_RUNNING
                 then snd (ccb_unload_tcb s) else s);
        scheduler_schedule s
      }
      else if iv = 14 then do {
        (_, s) \<leftarrow> pcx_get_trans 0 cr2 s;
        (_, s) \<leftarrow> pcx_get_flags 0 cr2 s;
        let (p, s) = ccb_unload_tcb s;
        s \<leftarrow> queue_pagefault p s;
        s \<leftarrow> interrupt_vector_fire PINION_INTERRUPT_PAGEFAULT s;
        scheduler_schedule s
      }
      else if iv = 8 then None
      else if iv < 32 then do {
        let (p, s) = ccb_unload_tcb s;
        s \<leftarrow> queue_miscfault p s;
        s \<leftarrow> interrupt_vector_fire PINION_INTERRUPT_MISCFAULT s;
        scheduler_schedule s
      }
      else Some s)"

end
