(* ===== verification/Page_Api.thy ===== *)
theory Page_Api
  imports Paging
begin

text \<open>
  The paging calls \<open>page_set\<close> and \<open>page_get\<close> (\<open>api/page_set.c\<close>, \<open>api/page_get.c\<close>) with
  the page flags of \<open>include/pinion.h\<close>.
\<close>

definition PAGE_VALID :: u64 where "PAGE_VALID = 0x0001"
definition PAGE_READ :: u64 where "PAGE_READ = 0x0010"
definition PAGE_WRITE :: u64 where "PAGE_WRITE = 0x0020"
definition PAGE_EXEC :: u64 where "PAGE_EXEC = 0x0040"
definition PAGE_USER :: u64 where "PAGE_USER = 0x0080"
definition PAGE_ACCESSED :: u64 where "PAGE_ACCESSED = 0x0100"
definition PAGE_DIRTY :: u64 where "PAGE_DIRTY = 0x0200"
definition PAGE_CACHE_DISABLE :: u64 where "PAGE_CACHE_DISABLE = 0x1000"
definition PAGE_WRITE_THROUGH :: u64 where "PAGE_WRITE_THROUGH = 0x2000"

lemmas page_flag_defs = PAGE_VALID_def PAGE_READ_def PAGE_WRITE_def PAGE_EXEC_def PAGE_USER_def
  PAGE_ACCESSED_def PAGE_DIRTY_def PAGE_CACHE_DISABLE_def PAGE_WRITE_THROUGH_def

definition or_if :: "bool \<Rightarrow> u64 \<Rightarrow> u64 \<Rightarrow> u64" where
  "or_if c f x = (if c then x OR f else x)"

text \<open>The conversion of call flags into page table flags (\<open>page_set\<close>, lines 67 to 85).\<close>

definition raw_page_flags :: "u64 \<Rightarrow> u64" where
  "raw_page_flags flags =
     (let raw = (0 :: u64) in
      if flags AND PAGE_VALID \<noteq> 0 then
        let raw = raw OR PF_VALID;
            raw = (if flags AND (PAGE_READ OR PAGE_WRITE OR PAGE_EXEC) \<noteq> 0 then
                     let raw = raw OR PF_PRES;
                         raw = or_if (flags AND PAGE_READ = 0) PF_NREAD raw;
                         raw = or_if (flags AND PAGE_WRITE \<noteq> 0) PF_WRITE raw;
                         raw = or_if (flags AND PAGE_EXEC = 0) PF_NX raw;
                         raw = or_if (flags AND PAGE_USER \<noteq> 0) PF_USER raw;
                         raw = or_if (flags AND PAGE_WRITE_THROUGH \<noteq> 0) PF_PWT raw;
                         raw = or_if (flags AND PAGE_CACHE_DISABLE \<noteq> 0) PF_PCD raw
                     in raw
                   else raw);
            raw = or_if (flags AND PAGE_ACCESSED \<noteq> 0) PF_ACCS raw;
            raw = or_if (flags AND PAGE_DIRTY \<noteq> 0) PF_DIRTY raw
        in raw
      else raw)"

text \<open>
  The loop over the pages of a region: \<open>n\<close> pages are left, the next one at offset \<open>i\<close>.
  The call flags go into the page table entries as they are.
\<close>

fun page_set_loop :: "nat \<Rightarrow> u64 \<Rightarrow> u64 \<Rightarrow> u64 \<Rightarrow> u64 \<Rightarrow> kernel \<Rightarrow> (bool \<times> kernel) option" where
  "page_set_loop 0 i vbase pbase flags s = Some (True, s)"
| "page_set_loop (Suc n) i vbase pbase flags s = do {
     (err, s) \<leftarrow> pcx_set_frame 0 (vbase + i) 0x1000 (pbase + i) flags s;
     if err \<noteq> 0 then Some (False, s)
     else page_set_loop n (i + 0x1000) vbase pbase flags s
   }"

definition apilogic_page_set :: "u64 \<Rightarrow> u64 \<Rightarrow> u64 \<Rightarrow> u64 \<Rightarrow> kernel \<Rightarrow> (bool \<times> kernel) option" where
  "apilogic_page_set vbase pbase flags sz s =
     (if (pbase OR vbase OR sz) AND 0xFFF \<noteq> 0 then Some (False, s)
      else let raw_flags = raw_page_flags flags
           in page_set_loop (unat sz div 0x1000) 0 vbase pbase flags s)"

record page_content =
  pg_paddr :: u64
  pg_flags :: u64

definition cooked_page_flags :: "u64 \<Rightarrow> u64" where
  "cooked_page_flags raw =
     (let fl = (0 :: u64) in
      if raw AND PF_VALID \<noteq> 0 then
        let fl = fl OR PAGE_VALID;
            fl = (if raw AND PF_PRES \<noteq> 0 then
                    let fl = or_if (raw AND PF_NREAD = 0) PAGE_READ fl;
                        fl = or_if (raw AND PF_WRITE \<noteq> 0) PAGE_WRITE fl;
                        fl = or_if (raw AND PF_NX = 0) PAGE_EXEC fl;
                        fl = or_if (raw AND PF_USER \<noteq> 0) PAGE_USER fl;
                        fl = or_if (raw AND PF_PWT \<noteq> 0) PAGE_WRITE_THROUGH fl;
                        fl = or_if (raw AND PF_PCD \<noteq> 0) PAGE_CACHE_DISABLE fl
                    in fl
                  else fl);
            fl = or_if (raw AND PF_ACCS \<noteq> 0) PAGE_ACCESSED fl;
            fl = or_if (raw AND PF_DIRTY \<noteq> 0) PAGE_DIRTY fl
        in fl
      else fl)"

definition apilogic_page_get :: "u64 \<Rightarrow> kernel \<Rightarrow> (page_content \<times> kernel) option" where
  "apilogic_page_get vaddr s = do {
     (paddr, s) \<leftarrow> pcx_get_trans 0 vaddr s;
     (raw_flags, s) \<leftarrow> pcx_get_flags 0 vaddr s;
     Some (\<lparr>pg_paddr = paddr, pg_flags = cooked_page_flags raw_flags\<rparr>, s)
   }"

end
