(* ===== verification/Kernel_Inv.thy ===== *)
theory Kernel_Inv
  imports Faults Page_Api
begin

text \<open>
  The invariant that ties the components together, and its preservation by every operation.
\<close>

text \<open>
  \<open>kernel_inv L F s\<close>: the memory invariant holds with free blocks \<open>F\<close>; \<open>L\<close> is the run
  queue, and it holds exactly the \<open>QUEUED\<close> blocks among the live ones and the idle block;
  every routed block is live or free; the active block, if there is one, is live or the
  idle block and is not \<open>QUEUED\<close>; the table lock is free.
\<close>

definition routed :: "kernel \<Rightarrow> ptr set" where
  "routed s = {r v i | r v i. \<exists>k < INTERRUPT_VECTOR_PAGES.
     route (interrupt_vector_page_table s k) = Some r \<and> i < TAP_COUNT} - {0}"

definition threads :: "kernel \<Rightarrow> ptr set" where
  "threads s = insert (idle_tcb s) (live s)"

definition kernel_inv :: "ptr list \<Rightarrow> ptr list \<Rightarrow> kernel \<Rightarrow> bool" where
  "kernel_inv L F s \<longleftrightarrow> mem_inv F s \<and> tcb_table_lock s = 0 \<and> run_queue L s \<and>
     set L = {p \<in> threads s. st s p = TCB_STATE_QUEUED} \<and>
     routed s \<subseteq> live s \<union> set F \<and>
     (active s \<noteq> 0 \<longrightarrow> active s \<in> threads s \<and> st s (active s) \<noteq> TCB_STATE_QUEUED)"

lemma kernel_invD:
  assumes "kernel_inv L F s"
  shows "mem_inv F s" "tcb_table_lock s = 0" "run_queue L s"
    "set L = {p \<in> threads s. st s p = TCB_STATE_QUEUED}" "routed s \<subseteq> live s \<union> set F"
    "active s \<noteq> 0 \<Longrightarrow> active s \<in> threads s" "active s \<noteq> 0 \<Longrightarrow> st s (active s) \<noteq> TCB_STATE_QUEUED"
    "active s \<notin> set L" "set L \<subseteq> threads s" "threads s \<inter> set F = {}" "0 \<notin> threads s"
proof -
  show mem: "mem_inv F s" and "tcb_table_lock s = 0" and rq: "run_queue L s"
    and L: "set L = {p \<in> threads s. st s p = TCB_STATE_QUEUED}"
    and "routed s \<subseteq> live s \<union> set F"
    and "active s \<noteq> 0 \<Longrightarrow> active s \<in> threads s"
    and a: "active s \<noteq> 0 \<Longrightarrow> st s (active s) \<noteq> TCB_STATE_QUEUED"
    using assms by (simp_all add: kernel_inv_def)
  show "active s \<notin> set L"
  proof
    assume "active s \<in> set L"
    moreover from this have "st s (active s) = TCB_STATE_QUEUED" unfolding L by simp
    moreover have "0 \<notin> set L" using run_queue_distinct [OF rq] by simp
    ultimately show False using a by metis
  qed
  show "set L \<subseteq> threads s" using L by auto
  show "threads s \<inter> set F = {}" using mem by (auto simp: threads_def mem_inv_def)
  show "0 \<notin> threads s" using mem block_nonzero by (auto simp: threads_def mem_inv_def)
qed

lemma threads_fixed:
  assumes "fixed t = fixed s"
  shows "threads t = threads s"
  using fixedD(2,5) [OF assms] by (simp add: threads_def)

lemma routed_fixed:
  assumes "fixed t = fixed s"
  shows "routed t = routed s"
  using fixedD(4) [OF assms] by (simp add: routed_def)

text \<open>
  The general step: thread state changes on blocks of \<open>P\<close>, which are not free, and the run
  queue afterwards is again the list of the queued threads.
\<close>

lemma kernel_inv_step:
  assumes "kernel_inv L F s" "thread_step P s t" "P \<inter> set F = {}"
    and "run_queue M t" "set M = {p \<in> threads s. st t p = TCB_STATE_QUEUED}"
    and "active t \<noteq> 0 \<Longrightarrow> active t \<in> threads s \<and> st t (active t) \<noteq> TCB_STATE_QUEUED"
  shows "kernel_inv M F t"
proof -
  from assms(2) have fx: "fixed t = fixed s" by (simp add: thread_step_def)
  note inv = kernel_invD [OF assms(1)]
  have "mem_inv F t" by (rule mem_inv_thread_step [OF inv(1) assms(2,3)])
  then show ?thesis
    using assms(4-6) inv(2,5) threads_fixed [OF fx] routed_fixed [OF fx] fixedD [OF fx]
    by (simp add: kernel_inv_def)
qed

subsection \<open>Context switch\<close>

lemma queued_set_snoc:
  assumes "set L = {p \<in> T. f p = q}" "a \<in> T" "distinct (L @ [a])" "L @ [a] = x # R" "v \<noteq> q"
  shows "set R = {p \<in> T. ((f(a := q))(x := v)) p = q}"
proof -
  have "set (x # R) = {p \<in> T. (f(a := q)) p = q}"
    using assms(1,2) unfolding assms(4) [symmetric] by auto
  moreover have "x \<notin> set R" using assms(3) unfolding assms(4) by simp
  ultimately show ?thesis using assms(5) by (auto simp: set_eq_iff split: if_splits)
qed

lemma queued_set_tl:
  assumes "set (x # R) = {p \<in> T. f p = q}" "distinct (x # R)" "v \<noteq> q"
  shows "set R = {p \<in> T. (f(x := v)) p = q}"
  using assms by (auto simp: set_eq_iff split: if_splits)

lemma schedule_inv:
  assumes "kernel_inv L F s"
  defines "a \<equiv> active s"
  defines "Q \<equiv> (if a = 0 then L else L @ [a])"
  obtains s' where "scheduler_schedule s = Some s'" "kernel_inv (tl Q) F s'"
    "active s' = (if Q = [] then idle_tcb s else hd Q)" "active s' \<noteq> 0"
    "Q \<noteq> [] \<longrightarrow> st s' (active s') = TCB_STATE_RUNNING"
    "\<And>p. p \<noteq> a \<Longrightarrow> p \<noteq> active s' \<Longrightarrow> st s' p = st s p"
    "a \<noteq> 0 \<longrightarrow> a \<noteq> active s' \<longrightarrow> st s' a = TCB_STATE_QUEUED"
    "idle_tcb s' = idle_tcb s" "live s' = live s"
    "interrupt_vector_page_table s' = interrupt_vector_page_table s"
proof -
  note inv = kernel_invD [OF assms(1)]
  have "active s \<noteq> 0 \<longrightarrow> active s \<notin> set L" using inv(8) by simp
  from schedule_spec [OF inv(3) this] obtain s' where s':
    "scheduler_schedule s = Some s'" "thread_step (insert a (set Q)) s s'"
    "Q = [] \<longrightarrow> active s' = idle_tcb s \<and> run_queue [] s' \<and> st s' = st s"
    "Q \<noteq> [] \<longrightarrow> active s' = hd Q \<and> run_queue (tl Q) s' \<and>
       st s' = (if a = 0 then st s else (st s)(a := TCB_STATE_QUEUED))(hd Q := TCB_STATE_RUNNING)"
    unfolding a_def Q_def by blast
  have fx: "fixed s' = fixed s" using s'(2) by (simp add: thread_step_def)
  have stQ: "st s' p = ((if a = 0 then st s else (st s)(a := TCB_STATE_QUEUED))
      (hd Q := TCB_STATE_RUNNING)) p" if "Q \<noteq> []" for p
    by (rule fun_cong) (use s'(4) that in blast)
  have dQ: "distinct Q" and nQ: "0 \<notin> set Q"
    using inv(8) run_queue_distinct [OF inv(3)] by (auto simp: Q_def a_def)
  have QT: "set Q \<subseteq> threads s" using inv(6,9) by (auto simp: Q_def a_def)
  have idle: "idle_tcb s \<in> threads s" "idle_tcb s \<noteq> 0" using inv(11) by (auto simp: threads_def)
  have P: "insert a (set Q) \<inter> set F = {}"
  proof (cases "a = 0")
    case True
    have "0 \<notin> set F" using inv(1) block_nonzero by (auto simp: mem_inv_def)
    with True QT inv(10) show ?thesis by auto
  next
    case False
    then show ?thesis using QT inv(10) inv(6) by (auto simp: a_def)
  qed
  have k: "kernel_inv (tl Q) F s'"
  proof (cases Q)
    case Nil
    then have "a = 0" "L = []" by (auto simp: Q_def split: if_splits)
    moreover have "st s' p = st s p" for p using fun_cong [of "st s'" "st s" p] s'(3) Nil by simp
    ultimately show ?thesis
      using Nil s'(3) inv(4) idle by (intro kernel_inv_step [OF assms(1) s'(2) P]) auto
  next
    case (Cons x R)
    have "set R = {p \<in> threads s. st s' p = TCB_STATE_QUEUED}"
    proof (cases "a = 0")
      case True
      then have "L = x # R" using Cons by (simp add: Q_def)
      with queued_set_tl [of x R "threads s" "st s" TCB_STATE_QUEUED TCB_STATE_RUNNING]
        inv(4) dQ Cons True stQ show ?thesis by simp
    next
      case False
      with Cons have "L @ [a] = x # R" by (simp add: Q_def)
      moreover have "distinct (L @ [a])" using dQ False by (simp add: Q_def)
      moreover have "a \<in> threads s" using inv(6) False by (simp add: a_def)
      ultimately show ?thesis
        using queued_set_snoc [OF inv(4), of a x R TCB_STATE_RUNNING] stQ Cons False by simp
    qed
    with Cons s'(4) stQ QT show ?thesis
      by (intro kernel_inv_step [OF assms(1) s'(2) P]) auto
  qed
  have act: "active s' = (if Q = [] then idle_tcb s else hd Q)" using s'(3,4) by auto
  have "active s' \<noteq> 0" using act idle nQ by (cases Q) auto
  moreover have "st s' p = st s p" if "p \<noteq> a" "p \<noteq> active s'" for p
    using that s'(3) stQ act fun_cong [of "st s'" "st s" p] by (cases "Q = []") auto
  moreover have "a \<noteq> 0 \<longrightarrow> a \<noteq> active s' \<longrightarrow> st s' a = TCB_STATE_QUEUED"
    using stQ [of a] act by (auto simp: Q_def)
  moreover have "Q \<noteq> [] \<longrightarrow> st s' (active s') = TCB_STATE_RUNNING" using stQ act by simp
  ultimately show ?thesis using that [of s'] s'(1) k act fixedD(2,4,5) [OF fx] by blast
qed

subsection \<open>Single operations\<close>

lemma kernel_inv_set_state:
  assumes "kernel_inv L F s" "p \<in> threads s" "st s p \<noteq> TCB_STATE_QUEUED" "v \<noteq> TCB_STATE_QUEUED"
  shows "kernel_inv L F (set_state p v s)"
proof (rule kernel_inv_step [OF assms(1) thread_step_set_state [of p "{p}"]])
  note inv = kernel_invD [OF assms(1)]
  show "{p} \<inter> set F = {}" using assms(2) inv(10) by auto
  show "run_queue L (set_state p v s)" using inv(3) by simp
  show "set L = {q \<in> threads s. st (set_state p v s) q = TCB_STATE_QUEUED}"
    using inv(4) assms(3,4) fun_cong [OF st_set_state [of p v s]] by auto
  show "active (set_state p v s) \<in> threads s \<and>
      st (set_state p v s) (active (set_state p v s)) \<noteq> TCB_STATE_QUEUED"
    if "active (set_state p v s) \<noteq> 0"
    using that inv(6,7) assms(4) fun_cong [OF st_set_state [of p v s]] by auto
qed simp

text \<open>Writes that leave state, id, link word and \<open>next\<close> of a block alone.\<close>

lemma kernel_inv_upd_tcb:
  assumes "kernel_inv L F s" "\<And>t. tcb_id (f t) = tcb_id t" "\<And>t. tcb_state (f t) = tcb_state t"
    and "\<And>t. tcb_next (f t) = tcb_next t" "\<And>t. tcb_reserved0 (f t) = tcb_reserved0 t"
  shows "kernel_inv L F (upd_tcb p f s)"
proof (rule kernel_inv_step [OF assms(1)])
  note inv = kernel_invD [OF assms(1)]
  have st: "st (upd_tcb p f s) q = st s q" for q using assms(3) by simp
  show "thread_step {} s (upd_tcb p f s)"
    using assms by (simp add: thread_step_def fixed_def mem_view_def pmm_view_def tcb_word0_def)
  have "nxt (upd_tcb p f s) = nxt s" using assms(4) by (simp add: fun_eq_iff)
  then show "run_queue L (upd_tcb p f s)" using inv(3) by (simp add: run_queue_def)
  show "set L = {q \<in> threads s. st (upd_tcb p f s) q = TCB_STATE_QUEUED}"
    unfolding st by (rule inv(4))
  show "active (upd_tcb p f s) \<in> threads s \<and>
      st (upd_tcb p f s) (active (upd_tcb p f s)) \<noteq> TCB_STATE_QUEUED"
    if "active (upd_tcb p f s) \<noteq> 0"
    unfolding st using that inv(6,7) by simp
qed simp

lemma unload_inv:
  assumes "kernel_inv L F s" "ccb_unload_tcb s = (p, t)"
  shows "kernel_inv L F t"
proof (cases "p = 0")
  case True
  with assms show ?thesis by (auto simp: ccb_unload_tcb_def Let_def split: if_splits)
next
  case False
  note inv = kernel_invD [OF assms(1)] and un = unload_spec [OF assms(2)]
  have st: "st t q = st s q" for q by (rule fun_cong [OF un(4)])
  show ?thesis
  proof (rule kernel_inv_step [OF assms(1) un(7)])
    show "{p} \<inter> set F = {}" using False un(1) inv(6,10) by auto
    show "run_queue L t" using un(8) inv(3) by simp
    show "set L = {p \<in> threads s. st t p = TCB_STATE_QUEUED}" unfolding st by (rule inv(4))
  qed (use un(2) in simp)
qed

lemma add_inv:
  assumes "kernel_inv L F s" "p \<in> threads s" "st s p \<noteq> TCB_STATE_QUEUED" "p \<noteq> active s"
  obtains s' where "scheduler_add_tcb p s = Some s'" "no_sched s' = no_sched s"
    "kernel_inv (L @ [p]) F (set_state p TCB_STATE_QUEUED s')"
proof -
  note inv = kernel_invD [OF assms(1)]
  have p: "p \<noteq> 0" "p \<notin> set L" using assms(2,3) inv(4,11) by auto
  from push_spec [OF inv(3) p] obtain s' where s': "scheduler_push_tcb p s = Some s'"
    "run_queue (L @ [p]) s'" "no_sched s' = no_sched s" by blast
  let ?t = "set_state p TCB_STATE_QUEUED s'"
  have st: "st ?t q = ((st s)(p := TCB_STATE_QUEUED)) q" for q
    using fun_cong [OF st_set_state [of p TCB_STATE_QUEUED s'], of q]
      fun_cong [OF no_sched_fields(1) [OF s'(3)], of q] by simp
  have "kernel_inv (L @ [p]) F ?t"
  proof (rule kernel_inv_step [OF assms(1)])
    show "thread_step ({} \<union> {p}) s ?t"
      by (rule thread_step_trans [OF thread_step_no_sched [OF s'(3)] thread_step_set_state]) simp
    show "({} \<union> {p}) \<inter> set F = {}" using assms(2) inv(10) by auto
    show "run_queue (L @ [p]) ?t" using s'(2) by simp
    show "set (L @ [p]) = {q \<in> threads s. st ?t q = TCB_STATE_QUEUED}"
      unfolding st using inv(4) assms(2) by auto
    show "active ?t \<in> threads s \<and> st ?t (active ?t) \<noteq> TCB_STATE_QUEUED" if "active ?t \<noteq> 0"
      unfolding st using that assms(4) inv(6,7) no_schedD(4) [OF s'(3)] by auto
  qed
  then show ?thesis using that s' by (simp add: scheduler_add_tcb_def)
qed

lemma rem_inv:
  assumes "kernel_inv L F s" "p \<in> threads s" "st s p = TCB_STATE_QUEUED" "v \<noteq> TCB_STATE_QUEUED"
  obtains s' where "scheduler_rem_tcb p s = Some (0, s')" "no_sched s' = no_sched s"
    "kernel_inv (remove1 p L) F (set_state p v s')"
proof -
  note inv = kernel_invD [OF assms(1)]
  have "p \<in> set L" using assms(2,3) inv(4) by simp
  then obtain xs ys where L: "L = xs @ p # ys" "p \<notin> set xs" by (auto dest: split_list_first)
  have d: "distinct L" using run_queue_distinct [OF inv(3)] by simp
  have L': "remove1 p L = xs @ ys" using L by (simp add: remove1_append)
  from rem_spec [of xs p ys s] inv(3) L obtain s' where s': "scheduler_rem_tcb p s = Some (0, s')"
    "run_queue (xs @ ys) s'" "no_sched s' = no_sched s" by blast
  let ?t = "set_state p v s'"
  have st: "st ?t q = ((st s)(p := v)) q" for q
    using fun_cong [OF st_set_state [of p v s'], of q]
      fun_cong [OF no_sched_fields(1) [OF s'(3)], of q] by simp
  have "kernel_inv (xs @ ys) F ?t"
  proof (rule kernel_inv_step [OF assms(1)])
    show "thread_step ({} \<union> {p}) s ?t"
      by (rule thread_step_trans [OF thread_step_no_sched [OF s'(3)] thread_step_set_state]) simp
    show "({} \<union> {p}) \<inter> set F = {}" using assms(2) inv(10) by auto
    show "run_queue (xs @ ys) ?t" using s'(2) by simp
    have "set (xs @ ys) = set L - {p}" using d L by auto
    then show "set (xs @ ys) = {q \<in> threads s. st ?t q = TCB_STATE_QUEUED}"
      unfolding st using inv(4) assms(4) by auto
    show "active ?t \<in> threads s \<and> st ?t (active ?t) \<noteq> TCB_STATE_QUEUED" if "active ?t \<noteq> 0"
      unfolding st using that assms(4) inv(6,7) no_schedD(4) [OF s'(3)] by auto
  qed
  then show ?thesis using that s' L' by simp
qed

lemma enqueue_inv:
  assumes "kernel_inv L F s" "p \<noteq> 0" "p \<notin> set L"
  obtains s' where "enqueue q p s = Some s'" "kernel_inv L F s'" "the_ccb s' = the_ccb s"
    "st s' = st s" "live s' = live s" "idle_tcb s' = idle_tcb s"
    "interrupt_vector_page_table s' = interrupt_vector_page_table s"
proof -
  from assms(2) obtain s' where e: "enqueue q p s = Some s'" by (simp add: enqueue_def)
  note inv = kernel_invD [OF assms(1)] and fr = enqueue_frame [OF e]
  have st: "st s' r = st s r" for r by (rule fun_cong [OF fr(3)])
  have "kernel_inv L F s'"
  proof (rule kernel_inv_step [OF assms(1) fr(1) [of "{}"]])
    show "run_queue L s'" by (rule fr(5) [OF assms(3) inv(3)])
    show "set L = {p \<in> threads s. st s' p = TCB_STATE_QUEUED}" unfolding st by (rule inv(4))
    show "active s' \<in> threads s \<and> st s' (active s') \<noteq> TCB_STATE_QUEUED" if "active s' \<noteq> 0"
      unfolding st fr(2) using that fr(2) inv(6,7) by simp
  qed simp
  moreover have "fixed s' = fixed s" using fr(1) by (simp add: thread_step_def)
  ultimately show ?thesis using that e fr(2,3) fixedD by blast
qed

subsection \<open>Firing and resetting vectors\<close>

text \<open>
  What a fired vector may do: a waiting thread becomes queued, a suspended waiting one
  becomes suspended, and no other thread state changes.
\<close>

definition wakes :: "kernel \<Rightarrow> kernel \<Rightarrow> bool" where
  "wakes s t \<longleftrightarrow> fixed t = fixed s \<and> the_ccb t = the_ccb s \<and>
     (\<forall>q. queue_head q t = queue_head q s) \<and>
     (\<forall>p. st t p = st s p \<or>
       (st s p = TCB_STATE_WAITING \<and> st t p = TCB_STATE_QUEUED) \<or>
       (st s p = TCB_STATE_SUSPENDEDWAITING \<and> st t p = TCB_STATE_SUSPENDED))"

lemma wakes_refl [simp]: "wakes s s"
  by (simp add: wakes_def)

lemma wakes_trans: "wakes s t \<Longrightarrow> wakes t u \<Longrightarrow> wakes s u"
  unfolding wakes_def by (metis tcb_state_distinct)

lemma wakesD:
  assumes "wakes s t"
  shows "live t = live s" "idle_tcb t = idle_tcb s" "the_ccb t = the_ccb s"
    "interrupt_vector_page_table t = interrupt_vector_page_table s" "threads t = threads s"
    "st s p = TCB_STATE_RUNNING \<Longrightarrow> st t p = TCB_STATE_RUNNING"
    "st t p = TCB_STATE_WAITING \<Longrightarrow> st s p = TCB_STATE_WAITING"
    "st s p = TCB_STATE_FREE \<Longrightarrow> st t p = TCB_STATE_FREE"
    "st s p = TCB_STATE_SUSPENDED \<Longrightarrow> st t p = TCB_STATE_SUSPENDED"
proof -
  have fx: "fixed t = fixed s" using assms by (simp add: wakes_def)
  from fixedD [OF fx] show "live t = live s" "idle_tcb t = idle_tcb s"
    "interrupt_vector_page_table t = interrupt_vector_page_table s" by simp_all
  show "threads t = threads s" by (rule threads_fixed [OF fx])
  show "the_ccb t = the_ccb s" using assms by (simp add: wakes_def)
  have "st t p = st s p \<or>
       (st s p = TCB_STATE_WAITING \<and> st t p = TCB_STATE_QUEUED) \<or>
       (st s p = TCB_STATE_SUSPENDEDWAITING \<and> st t p = TCB_STATE_SUSPENDED)"
    using assms by (simp add: wakes_def)
  then show "st s p = TCB_STATE_RUNNING \<Longrightarrow> st t p = TCB_STATE_RUNNING"
    "st t p = TCB_STATE_WAITING \<Longrightarrow> st s p = TCB_STATE_WAITING"
    "st s p = TCB_STATE_FREE \<Longrightarrow> st t p = TCB_STATE_FREE"
    "st s p = TCB_STATE_SUSPENDED \<Longrightarrow> st t p = TCB_STATE_SUSPENDED"
    by auto
qed

lemma queue_head_no_sched:
  assumes "no_sched t = no_sched s"
  shows "queue_head q t = queue_head q s"
  using no_schedD(8-10) [OF assms] by (cases q) simp_all

lemma queue_head_frame [simp]:
  "queue_head q (upd_tcb p f s) = queue_head q s"
  "queue_head q (set_state p v s) = queue_head q s"
  by (cases q; simp add: set_state_def)+

lemma fixed_upd [simp]: "fixed (upd_tcb p f s) = fixed s" "fixed (set_state p v s) = fixed s"
  by (simp_all add: fixed_def mem_view_def pmm_view_def set_state_def)

lemma fixed_no_sched: "no_sched t = no_sched s \<Longrightarrow> fixed t = fixed s"
  by (drule thread_step_no_sched [where P = "{}"]) (simp add: thread_step_def)

lemma wakes_upd_tcb: "(\<And>t. tcb_state (f t) = tcb_state t) \<Longrightarrow> wakes s (upd_tcb p f s)"
  by (simp add: wakes_def)

lemma wakes_set_state:
  assumes "no_sched t = no_sched s"
    and "(st s p = TCB_STATE_WAITING \<and> v = TCB_STATE_QUEUED) \<or>
      (st s p = TCB_STATE_SUSPENDEDWAITING \<and> v = TCB_STATE_SUSPENDED)"
  shows "wakes s (set_state p v t)"
proof -
  have st: "st (set_state p v t) q = ((st s)(p := v)) q" for q
    using fun_cong [OF st_set_state [of p v t], of q]
      fun_cong [OF no_sched_fields(1) [OF assms(1)], of q] by simp
  have "st (set_state p v t) q = st s q \<or>
      (st s q = TCB_STATE_WAITING \<and> st (set_state p v t) q = TCB_STATE_QUEUED) \<or>
      (st s q = TCB_STATE_SUSPENDEDWAITING \<and> st (set_state p v t) q = TCB_STATE_SUSPENDED)" for q
    unfolding st using assms(2) by (cases "q = p") auto
  moreover have "fixed (set_state p v t) = fixed s" using fixed_no_sched [OF assms(1)] by simp
  moreover have "the_ccb (set_state p v t) = the_ccb s" using no_schedD(4) [OF assms(1)] by simp
  moreover have "queue_head q (set_state p v t) = queue_head q s" for q
    using queue_head_no_sched [OF assms(1)] by simp
  ultimately show ?thesis unfolding wakes_def by blast
qed

definition not_waiting :: "kernel \<Rightarrow> bool" where
  "not_waiting s \<longleftrightarrow> (active s \<noteq> 0 \<longrightarrow> st s (active s) \<noteq> TCB_STATE_WAITING)"

lemma not_waiting_wakes:
  assumes "not_waiting s" "wakes s t"
  shows "not_waiting t"
  using assms(1) wakesD(3) [OF assms(2)] wakesD(7) [OF assms(2), of "active s"]
  by (simp add: not_waiting_def) blast

lemma notify_inv:
  assumes inv: "kernel_inv L F s" and p: "p \<in> live s \<union> set F" and nw: "not_waiting s"
  obtains s' M where "interrupt_notify vec p s = Some s'" "kernel_inv M F s'" "wakes s s'"
proof (cases "find (\<lambda>j. tcb_tap (tcbs s p) j AND 0x3FFF = vec) [0..<TAP_COUNT]")
  case None
  then show ?thesis using that [of s L] inv by (simp add: interrupt_notify_def)
next
  case (Some j)
  let ?s1 = "upd_tcb p (\<lambda>t. t\<lparr>tcb_tap := (tcb_tap t)(j := tcb_tap t j OR 0x8000)\<rparr>) s"
  let ?rax = "upd_tcb p (\<lambda>t. t\<lparr>tcb_rax := ucast vec\<rparr>)"
  have inv1: "kernel_inv L F ?s1" by (rule kernel_inv_upd_tcb [OF inv]) simp_all
  have w1: "wakes s ?s1" by (rule wakes_upd_tcb) simp
  have st1: "st ?s1 p = st s p" by simp
  have rax_inv: "kernel_inv M F (?rax t)" if "kernel_inv M F t" for M t
    by (rule kernel_inv_upd_tcb [OF that]) simp_all
  have rax_wakes: "wakes s (?rax t)" if "wakes ?s1 t" for t
    by (rule wakes_trans [OF wakes_trans [OF w1 that] wakes_upd_tcb]) simp
  consider (waiting) "st s p = TCB_STATE_WAITING"
    | (susp) "st s p = TCB_STATE_SUSPENDEDWAITING"
    | (other) "st s p \<noteq> TCB_STATE_WAITING" "st s p \<noteq> TCB_STATE_SUSPENDEDWAITING" by blast
  then show ?thesis
  proof cases
    case waiting
    then have "p \<in> live s" using p free_not_thread_state [OF kernel_invD(1) [OF inv]] by auto
    then have pt: "p \<in> threads ?s1" "p \<noteq> active ?s1"
      using waiting nw inv1 kernel_invD(11) [OF inv] wakesD(5) [OF w1]
      by (auto simp: not_waiting_def threads_def)
    have "st ?s1 p \<noteq> TCB_STATE_QUEUED" using waiting st1 by simp
    from add_inv [OF inv1 pt(1) this pt(2)] obtain t where t: "scheduler_add_tcb p ?s1 = Some t"
      "no_sched t = no_sched ?s1" "kernel_inv (L @ [p]) F (set_state p TCB_STATE_QUEUED t)" by blast
    have "wakes ?s1 (set_state p TCB_STATE_QUEUED t)"
      by (rule wakes_set_state [OF t(2)]) (use waiting in simp)
    moreover have "interrupt_notify vec p s = Some (?rax (set_state p TCB_STATE_QUEUED t))"
      using Some waiting t(1) by (simp add: interrupt_notify_def)
    ultimately show ?thesis using that rax_inv [OF t(3)] rax_wakes by blast
  next
    case susp
    then have "p \<in> live s" using p free_not_thread_state [OF kernel_invD(1) [OF inv]] by auto
    then have pt: "p \<in> threads ?s1" using wakesD(5) [OF w1] by (simp add: threads_def)
    have k: "kernel_inv L F (set_state p TCB_STATE_SUSPENDED ?s1)"
      using susp by (intro kernel_inv_set_state [OF inv1 pt]) simp_all
    have "wakes ?s1 (set_state p TCB_STATE_SUSPENDED ?s1)"
      by (rule wakes_set_state) (use susp in simp_all)
    moreover have "interrupt_notify vec p s = Some (?rax (set_state p TCB_STATE_SUSPENDED ?s1))"
      using Some susp by (simp add: interrupt_notify_def)
    ultimately show ?thesis using that rax_inv [OF k] rax_wakes by blast
  next
    case other
    then have "interrupt_notify vec p s = Some ?s1"
      using Some by (simp add: interrupt_notify_def)
    then show ?thesis using that inv1 w1 by blast
  qed
qed

lemma notify_all_inv:
  assumes "kernel_inv L F s" "set ps \<subseteq> insert 0 (live s \<union> set F)" "not_waiting s"
  shows "\<exists>s' M. interrupt_notify_all vec ps s = Some s' \<and> kernel_inv M F s' \<and> wakes s s'"
  using assms
proof (induction ps arbitrary: L s)
  case Nil
  then show ?case by auto
next
  case (Cons p ps)
  show ?case
  proof (cases "p = 0")
    case True
    then show ?thesis using Cons by simp
  next
    case False
    then have "p \<in> live s \<union> set F" using Cons.prems(2) by auto
    from notify_inv [OF Cons.prems(1) this Cons.prems(3)] obtain t M
      where t: "interrupt_notify vec p s = Some t" "kernel_inv M F t" "wakes s t" by blast
    have "\<exists>s' M. interrupt_notify_all vec ps t = Some s' \<and> kernel_inv M F s' \<and> wakes t s'"
      using Cons.prems t not_waiting_wakes wakesD(1) [OF t(3)] by (intro Cons.IH) auto
    then show ?thesis using False t wakes_trans by auto
  qed
qed

text \<open>The kernel's two tables of handlers are set up so that firing never loops.\<close>

definition vtables_ok :: "kernel \<Rightarrow> bool" where
  "vtables_ok s \<longleftrightarrow> (\<forall>k < INTERRUPT_VECTOR_PAGES.
     Option.bind (vtable (interrupt_vector_page_table s k)) on_fire \<noteq> Some Pinion_on_reset)"

lemma fire_inv:
  assumes "kernel_inv L F s" "vtables_ok s" "not_waiting s" "unat (drop_bit 7 vec) < INTERRUPT_VECTOR_PAGES"
  shows "\<exists>s' M. interrupt_vector_fire vec s = Some s' \<and> kernel_inv M F s' \<and> wakes s s'"
proof (cases "route (interrupt_vector_page_table s (unat (drop_bit 7 vec)))")
  case None
  then show ?thesis using assms by (auto simp: interrupt_vector_fire_def vector_page_def)
next
  case (Some r)
  let ?k = "unat (drop_bit 7 vec)" and ?v = "unat (vec AND 0x7F)"
  have "run_on_fire (vtable (interrupt_vector_page_table s ?k)) s = Some s"
    using assms(2,4) by (auto simp: run_on_fire_def vtables_ok_def split: option.splits vec_handler.splits)
  then have fire: "interrupt_vector_fire vec s = interrupt_notify_all vec (map (r ?v) [0..<TAP_COUNT]) s"
    using Some assms(4) by (simp add: interrupt_vector_fire_def vector_page_def)
  have "set (map (r ?v) [0..<TAP_COUNT]) \<subseteq> insert 0 (routed s)"
  proof
    fix x assume "x \<in> set (map (r ?v) [0..<TAP_COUNT])"
    then obtain i where i: "i < TAP_COUNT" "x = r ?v i" by auto
    then have "\<exists>k < INTERRUPT_VECTOR_PAGES. route (interrupt_vector_page_table s k) = Some r \<and> i < TAP_COUNT"
      using Some assms(4) by blast
    then show "x \<in> insert 0 (routed s)" using i(2) unfolding routed_def by blast
  qed
  then have "set (map (r ?v) [0..<TAP_COUNT]) \<subseteq> insert 0 (live s \<union> set F)"
    using kernel_invD(5) [OF assms(1)] by blast
  from notify_all_inv [OF assms(1) this assms(3)] fire show ?thesis by simp
qed

lemma reset_inv:
  assumes "kernel_inv L F s" "vtables_ok s" "not_waiting s" "unat (drop_bit 7 vec) < INTERRUPT_VECTOR_PAGES"
  shows "\<exists>s' M. interrupt_vector_reset vec s = Some s' \<and> kernel_inv M F s' \<and> wakes s s'"
proof -
  have "interrupt_vector_reset vec s = Some s \<or>
      interrupt_vector_reset vec s = interrupt_vector_fire vec s"
    using assms(4) by (auto simp: interrupt_vector_reset_def vector_page_def run_on_reset_def
        pinion_on_reset_def Let_def split: option.splits vec_handler.splits)
  then show ?thesis using fire_inv [OF assms] assms(1) by auto
qed

lemma vtables_ok_cong:
  "interrupt_vector_page_table t = interrupt_vector_page_table s \<Longrightarrow> vtables_ok t = vtables_ok s"
  by (simp add: vtables_ok_def)

end
