(* ===== verification/Kernel_Ops.thy ===== *)
theory Kernel_Ops
  imports Kernel_Inv
begin

text \<open>
  Every call and every interrupt keeps the invariant of \<open>Kernel_Inv\<close>: \<open>caller_ok s\<close> is the
  state in which a running thread enters the kernel, and each call is total from there unless
  its lemma says otherwise.
\<close>

definition kernel_ok :: "kernel \<Rightarrow> bool" where
  "kernel_ok s \<longleftrightarrow> (\<exists>L F. kernel_inv L F s) \<and> vtables_ok s"

text \<open>The invariant, a caller that is one of the live threads, and the thread state it has.\<close>

definition caller :: "kernel \<Rightarrow> bool" where
  "caller s \<longleftrightarrow> kernel_ok s \<and> active s \<in> live s"

definition caller_ok :: "kernel \<Rightarrow> bool" where
  "caller_ok s \<longleftrightarrow> caller s \<and> st s (active s) = TCB_STATE_RUNNING"

lemma kernel_okI: "kernel_inv L F s \<Longrightarrow> vtables_ok s \<Longrightarrow> kernel_ok s"
  by (auto simp: kernel_ok_def)

lemma live_nonzero: "p \<in> live s \<Longrightarrow> p \<noteq> 0"
  by (simp add: live_def)

lemma live_threads: "p \<in> live s \<Longrightarrow> p \<in> threads s"
  by (simp add: threads_def)

lemma caller_okE:
  assumes "caller_ok s"
  obtains L F where "kernel_inv L F s" "vtables_ok s" "active s \<in> live s" "active s \<noteq> 0"
    "st s (active s) = TCB_STATE_RUNNING" "not_waiting s"
  using assms by (auto simp: caller_ok_def caller_def kernel_ok_def not_waiting_def dest: live_nonzero)

lemma caller_ok_wakes:
  assumes "caller_ok s" "kernel_inv M F t" "wakes s t"
  shows "caller_ok t"
  using assms(1) wakesD(1,3) [OF assms(3)] wakesD(6) [OF assms(3), of "active s"]
    vtables_ok_cong [OF wakesD(4) [OF assms(3)]] kernel_okI [OF assms(2)]
  by (simp add: caller_ok_def caller_def kernel_ok_def)

text \<open>A lookup by id finds a live thread or nothing, and changes nothing.\<close>

lemma tcb_get_inv:
  assumes "kernel_inv L F s"
  obtains p where "tcb_get n s = Some (p, s)" "p = 0 \<or> p \<in> live s" "p = 0 \<or> tcb_id (tcbs s p) = n"
    "p \<noteq> 0 \<longrightarrow> unat n < TCB_LIMIT \<and> tcb_entry s (unat n) = p"
proof -
  note inv = kernel_invD [OF assms]
  let ?p = "if unat n < TCB_LIMIT then tcb_entry s (unat n) else 0"
  have "?p = 0 \<or> ?p \<in> live s" using liveI [of "unat n" s] by auto
  moreover have "?p = 0 \<or> tcb_id (tcbs s ?p) = n" using inv(1) by (auto simp: mem_inv_def)
  ultimately show ?thesis using that [of ?p] tcb_get_eq [OF inv(2), of n] by (auto split: if_splits)
qed

subsection \<open>Routes and taps\<close>

lemma set_route_inv:
  assumes "kernel_inv L F s" "p \<in> insert 0 (live s \<union> set F)"
  shows "kernel_inv L F (set_route vec i p s)"
proof -
  let ?t = "set_route vec i p s"
  note inv = kernel_invD [OF assms(1)]
  have "mem_view ?t = mem_view s" by (simp add: set_route_def Let_def mem_view_def pmm_view_def)
  then have m: "mem_inv F ?t" by (rule mem_inv_view [OF inv(1)])
  have f: "tcbs ?t = tcbs s" "the_ccb ?t = the_ccb s" "tcb_table_lock ?t = tcb_table_lock s"
    "schedule_head ?t = schedule_head s" "schedule_tail ?t = schedule_tail s" "idle_tcb ?t = idle_tcb s"
    by (simp_all add: set_route_def Let_def)
  have lv: "live ?t = live s" by (rule live_cong) (simp add: set_route_def Let_def)
  have th: "threads ?t = threads s" by (simp add: threads_def lv f)
  have "routed ?t \<subseteq> insert p (routed s) - {0}"
    unfolding routed_def set_route_def Let_def by (fastforce split: if_splits)
  then have "routed ?t \<subseteq> live s \<union> set F" using assms(2) inv(5) by auto
  moreover have "run_queue L ?t" using inv(3) by (simp add: run_queue_def f)
  ultimately show ?thesis
    using m inv(2,4,6,7) by (simp add: kernel_inv_def f lv th)
qed

lemma set_route_frame [simp]:
  "tcbs (set_route vec i p s) = tcbs s" "the_ccb (set_route vec i p s) = the_ccb s"
  "live (set_route vec i p s) = live s" "vtables_ok (set_route vec i p s) = vtables_ok s"
proof -
  show "tcbs (set_route vec i p s) = tcbs s" "the_ccb (set_route vec i p s) = the_ccb s"
    by (simp_all add: set_route_def Let_def)
  show "live (set_route vec i p s) = live s" by (rule live_cong) (simp add: set_route_def Let_def)
  show "vtables_ok (set_route vec i p s) = vtables_ok s"
    by (auto simp: vtables_ok_def set_route_def Let_def)
qed

lemma caller_ok_cong:
  assumes "caller_ok s" "tcbs t = tcbs s" "the_ccb t = the_ccb s" "live t = live s"
    and "vtables_ok t = vtables_ok s" "kernel_inv L F t"
  shows "caller_ok t"
  using assms by (auto simp: caller_ok_def caller_def kernel_ok_def)

lemma route_ops_inv:
  assumes "kernel_inv L F s" "caller_ok s" "p \<in> live s" "unat (drop_bit 7 vec) < INTERRUPT_VECTOR_PAGES"
  shows "\<exists>t. interrupt_add_route p vec s = Some t \<and> kernel_inv L F t \<and> caller_ok t \<and>
      tcbs t = tcbs s \<and> the_ccb t = the_ccb s \<and> live t = live s"
    and "\<exists>t. interrupt_remove_route p vec s = Some t \<and> kernel_inv L F t \<and> caller_ok t \<and>
      tcbs t = tcbs s \<and> the_ccb t = the_ccb s \<and> live t = live s"
proof -
  have c: "caller_ok (set_route vec i q s)" if "q \<in> insert 0 (live s \<union> set F)" for i q
    by (rule caller_ok_cong [OF assms(2) _ _ _ _ set_route_inv [OF assms(1) that]]) simp_all
  have p: "p \<in> insert 0 (live s \<union> set F)" "(0 :: ptr) \<in> insert 0 (live s \<union> set F)"
    using assms(3) by simp_all
  note facts = set_route_inv [OF assms(1) p(1)] set_route_inv [OF assms(1) p(2)] c [OF p(1)] c [OF p(2)]
  show "\<exists>t. interrupt_add_route p vec s = Some t \<and> kernel_inv L F t \<and> caller_ok t \<and>
      tcbs t = tcbs s \<and> the_ccb t = the_ccb s \<and> live t = live s"
    and "\<exists>t. interrupt_remove_route p vec s = Some t \<and> kernel_inv L F t \<and> caller_ok t \<and>
      tcbs t = tcbs s \<and> the_ccb t = the_ccb s \<and> live t = live s"
    using assms(1,2,4) facts
    by (auto simp: interrupt_add_route_def interrupt_remove_route_def vector_page_def
        split: option.splits)
qed

lemma set_tap_inv:
  assumes "kernel_inv L F s" "caller_ok s"
  shows "kernel_inv L F (set_tap p i v s)" "caller_ok (set_tap p i v s)"
proof -
  show k: "kernel_inv L F (set_tap p i v s)"
    unfolding set_tap_def by (rule kernel_inv_upd_tcb [OF assms(1)]) simp_all
  have "live (set_tap p i v s) = live s" by (rule live_cong) (simp add: set_tap_def)
  moreover have "vtables_ok (set_tap p i v s) = vtables_ok s"
    by (rule vtables_ok_cong) (simp add: set_tap_def)
  moreover have "the_ccb (set_tap p i v s) = the_ccb s" "st (set_tap p i v s) q = st s q" for q
    by (simp_all add: set_tap_def)
  ultimately show "caller_ok (set_tap p i v s)"
    using assms(2) kernel_okI [OF k] by (simp add: caller_ok_def caller_def kernel_ok_def)
qed

lemma set_tap_frame [simp]:
  "the_ccb (set_tap p i v s) = the_ccb s" "live (set_tap p i v s) = live s"
  "st (set_tap p i v s) q = st s q"
  by (simp_all add: set_tap_def live_cong [of "upd_tcb p f s" s for p f s])

lemma vector_bound:
  fixes vec :: u16
  assumes "vec AND 0xC000 = 0"
  shows "unat (drop_bit 7 vec) < INTERRUPT_VECTOR_PAGES"
proof -
  have "(0x3FFF OR 0xC000 :: u16) = - 1" by simp
  then have "vec = vec AND (0x3FFF OR 0xC000)" by (simp only: and.right_neutral)
  also have "\<dots> = vec AND 0x3FFF" using assms by (simp only: bit.conj_disj_distrib or.right_neutral)
  finally have "vec \<le> 0x3FFF" using word_and_le1 by metis
  then have "unat vec \<le> 0x3FFF" by (simp add: word_le_nat_alt)
  then show ?thesis
    by (simp add: INTERRUPT_VECTOR_PAGES_def drop_bit_eq_div unat_div_distrib)
qed

lemma set_tap_call_inv:
  assumes "caller_ok s"
    and "tcb_tap (tcbs s (active s)) (unat index) AND 0x3FFF = 0 \<or>
      unat (drop_bit 7 (tcb_tap (tcbs s (active s)) (unat index))) < INTERRUPT_VECTOR_PAGES"
  shows "\<exists>r t. apilogic_interrupt_set_tap index vec s = Some (r, t) \<and> caller_ok t \<and> active t = active s"
proof (cases "unat index < TAP_COUNT \<and> vec AND 0xC000 = 0")
  case False
  then show ?thesis using assms(1) by (auto simp: apilogic_interrupt_set_tap_def Let_def)
next
  case True
  obtain L F where inv: "kernel_inv L F s" "vtables_ok s" "active s \<in> live s" "active s \<noteq> 0"
    using caller_okE [OF assms(1)] by metis
  let ?a = "active s" and ?v = "ucast vec :: u16"
  let ?old = "tcb_tap (tcbs s ?a) (unat index)"
  have "(ucast (vec AND 0xC000) :: u16) = ?v AND 0xC000" by (rule bit_word_eqI) (simp add: bit_simps)
  then have v: "?v AND 0xC000 = 0" using True by simp
  note vb = vector_bound [OF v]
  obtain s1 where s1: "(if ?old AND 0x3FFF \<noteq> 0 then interrupt_remove_route ?a ?old s else Some s) = Some s1"
    "kernel_inv L F s1" "caller_ok s1" "the_ccb s1 = the_ccb s" "live s1 = live s"
  proof (cases "?old AND 0x3FFF = 0")
    case False
    then have "unat (drop_bit 7 ?old) < INTERRUPT_VECTOR_PAGES" using assms(2) by simp
    from route_ops_inv(2) [OF inv(1) assms(1) inv(3) this] False that show ?thesis by auto
  qed (use inv assms(1) that [of s] in simp)
  let ?s2 = "set_tap ?a (unat index) ?v s1"
  note s2 = set_tap_inv [OF s1(2,3), of ?a "unat index" ?v]
  have a2: "?a \<in> live ?s2" using inv(3) s1(5) by simp
  from route_ops_inv(1) [OF s2 a2 vb] obtain s3 where s3: "interrupt_add_route ?a ?v ?s2 = Some s3"
    "kernel_inv L F s3" "caller_ok s3" "the_ccb s3 = the_ccb ?s2" by blast
  from caller_okE [OF s3(3)] have "not_waiting s3" "vtables_ok s3" by metis+
  from reset_inv [OF s3(2) this(2,1) vb] obtain s4 M where s4: "interrupt_vector_reset ?v s3 = Some s4"
    "kernel_inv M F s4" "wakes s3 s4" by blast
  have "apilogic_interrupt_set_tap index vec s = Some (True, s4)"
    using True inv(4) s1(1) s3(1) s4(1) by (simp add: apilogic_interrupt_set_tap_def Let_def)
  moreover have "active s4 = active s" using wakesD(3) [OF s4(3)] s3(4) s1(4) by simp
  ultimately show ?thesis using caller_ok_wakes [OF s3(3) s4(2,3)] by blast
qed

text \<open>A tap value with a flag set in it is out of the range of the vector table.\<close>

lemma set_tap_call_range:
  assumes "apilogic_interrupt_set_tap index vec s = Some (r, t)"
  shows "(r, t) = (False, s) \<or>
    tcb_tap (tcbs s (active s)) (unat index) AND 0x3FFF = 0 \<or>
    unat (drop_bit 7 (tcb_tap (tcbs s (active s)) (unat index))) < INTERRUPT_VECTOR_PAGES"
  using assms
  by (auto simp: apilogic_interrupt_set_tap_def Let_def interrupt_remove_route_def vector_page_def
      in_bounds_def bind_eq_Some_conv split: if_splits)

lemma reset_call_inv:
  assumes "caller_ok s"
  shows "\<exists>t. apilogic_interrupt_reset vec s = Some t \<and> caller_ok t \<and> active t = active s"
proof -
  obtain L F where inv: "kernel_inv L F s" "active s \<noteq> 0" using caller_okE [OF assms] by metis
  let ?taps = "tcb_tap (tcbs s (active s))"
  show ?thesis
  proof (cases "find (\<lambda>i. (ucast (?taps i) :: u32) AND NOT 0xC000 = vec) [0..<TAP_COUNT]")
    case None
    then show ?thesis using assms inv(2) by (simp add: apilogic_interrupt_reset_def Let_def)
  next
    case (Some i)
    then have "vec = (ucast (?taps i) :: u32) AND NOT 0xC000" by (auto simp: find_Some_iff)
    then have "(ucast vec :: u16) = ?taps i AND NOT 0xC000"
      by (intro bit_word_eqI) (simp add: bit_simps)
    then have "(ucast vec :: u16) AND 0xC000 = 0" by (simp add: and.assoc)
    note vb = vector_bound [OF this]
    let ?s1 = "set_tap (active s) i (?taps i AND NOT 0x8000) s"
    note s1 = set_tap_inv [OF inv(1) assms, of "active s" i "?taps i AND NOT 0x8000"]
    from caller_okE [OF s1(2)] have "not_waiting ?s1" "vtables_ok ?s1" by metis+
    from reset_inv [OF s1(1) this(2,1) vb] obtain t M where t: "interrupt_vector_reset (ucast vec) ?s1 = Some t"
      "kernel_inv M F t" "wakes ?s1 t" by blast
    have "apilogic_interrupt_reset vec s = Some t"
      using Some inv(2) t(1) by (simp add: apilogic_interrupt_reset_def Let_def)
    moreover have "active t = active s" using wakesD(3) [OF t(3)] by simp
    ultimately show ?thesis using caller_ok_wakes [OF s1(2) t(2,3)] by blast
  qed
qed

lemma caller_set_state:
  assumes "kernel_inv L F (set_state p v s)" "caller s"
  shows "caller (set_state p v s)"
  using assms kernel_okI [OF assms(1)] live_cong [of "set_state p v s" s]
    vtables_ok_cong [of "set_state p v s" s]
  by (simp add: caller_def kernel_ok_def set_state_def)

lemma wait_call_inv:
  assumes "caller_ok s"
  shows "\<exists>r t. apilogic_interrupt_wait s = Some (r, t) \<and> caller t \<and> active t = active s"
proof -
  obtain L F where inv: "kernel_inv L F s" "active s \<noteq> 0" "active s \<in> live s"
    "st s (active s) = TCB_STATE_RUNNING" using caller_okE [OF assms] by metis
  have "kernel_inv L F (set_state (active s) TCB_STATE_WAITING s)"
    by (rule kernel_inv_set_state [OF inv(1) live_threads [OF inv(3)]]) (simp_all add: inv(4))
  from caller_set_state [OF this] assms inv(2) show ?thesis
    by (auto simp: apilogic_interrupt_wait_def caller_ok_def Let_def split: option.splits)
qed

subsection \<open>Thread calls\<close>

text \<open>The block a thread id stands for.\<close>

definition target :: "u32 \<Rightarrow> kernel \<Rightarrow> ptr" where
  "target n s = (if n = THREAD_ID_SELF then active s
     else if unat n < TCB_LIMIT then tcb_entry s (unat n) else 0)"

lemma live_entry:
  assumes "kernel_inv L F s" "p \<in> live s"
  shows "unat (tcb_id (tcbs s p)) < TCB_LIMIT" "tcb_entry s (unat (tcb_id (tcbs s p))) = p"
proof -
  from assms(2) obtain i where i: "i < TCB_LIMIT" "tcb_entry s i = p" "p \<noteq> 0" by (auto simp: live_def)
  with kernel_invD(1) [OF assms(1)] have "tcb_id (tcbs s p) = of_nat i" by (auto simp: mem_inv_def)
  then have "unat (tcb_id (tcbs s p)) = i" using i(1) by (simp add: TCB_LIMIT_def unat_of_nat)
  with i show "unat (tcb_id (tcbs s p)) < TCB_LIMIT" "tcb_entry s (unat (tcb_id (tcbs s p))) = p"
    by simp_all
qed

lemma self_lookup:
  assumes "kernel_inv L F s" "active s \<in> live s"
  shows "Option.bind (self_or n s) (\<lambda>m. Option.bind (tcb_get m s) f) = f (target n s, s)"
proof -
  note inv = kernel_invD [OF assms(1)]
  have "Option.bind (self_or n s) (\<lambda>m. tcb_get m s) = Some (target n s, s)"
    using tcb_get_eq [OF inv(2)] live_entry [OF assms] live_nonzero [OF assms(2)]
    by (simp add: self_or_def target_def)
  then show ?thesis by (auto simp: bind_eq_Some_conv)
qed

lemma target_live: "active s \<in> live s \<Longrightarrow> target n s = 0 \<or> target n s \<in> live s"
  using liveI [of "unat n" s] by (auto simp: target_def)

lemma caller_step:
  assumes "caller s" "kernel_inv M G t" "the_ccb t = the_ccb s" "live t = live s"
    and "interrupt_vector_page_table t = interrupt_vector_page_table s"
  shows "caller t"
  using assms kernel_okI [OF assms(2)] vtables_ok_cong [OF assms(5)]
  by (simp add: caller_def kernel_ok_def)

text \<open>The state a thread has after \<open>thread_pause\<close>.\<close>

definition paused :: "u16 \<Rightarrow> u16" where
  "paused v = (if v = TCB_STATE_WAITING then TCB_STATE_SUSPENDEDWAITING
     else if v = TCB_STATE_QUEUED \<or> v = TCB_STATE_RUNNING then TCB_STATE_SUSPENDED else v)"

lemma no_sched_step:
  assumes "no_sched t = no_sched s"
  shows "st t q = st s q" "the_ccb t = the_ccb s" "live t = live s"
    "interrupt_vector_page_table t = interrupt_vector_page_table s"
    "tcb_tap (tcbs t q) = tcb_tap (tcbs s q)" "tcb_id (tcbs t q) = tcb_id (tcbs s q)"
    "tcb_entry t = tcb_entry s" "idle_tcb t = idle_tcb s"
  using fun_cong [OF no_sched_fields(1) [OF assms], of q] no_schedD(4,5,6) [OF assms]
    live_cong [OF no_schedD(7) [OF assms]] no_sched_fields(2,3) [OF assms, of q]
    tcb_entry_cong [OF no_schedD(7) [OF assms]]
  by simp_all

lemma set_state_step [simp]:
  "live (set_state p v s) = live s" "tcb_entry (set_state p v s) = tcb_entry s"
  "tcb_pcx_id (tcbs (set_state p v s) q) = tcb_pcx_id (tcbs s q)"
  "tcb_table (set_state p v s) = tcb_table s"
  by (simp_all add: set_state_def live_cong [of "upd_tcb p f s" s for p f s])

lemma pause_spec:
  assumes inv: "kernel_inv L F s" and act: "active s \<in> live s" and p: "target n s = p" "p \<noteq> 0"
    and known: "st s p \<in> {TCB_STATE_SUSPENDED, TCB_STATE_SUSPENDEDWAITING, TCB_STATE_WAITING,
      TCB_STATE_QUEUED, TCB_STATE_RUNNING}"
  obtains t where "apilogic_thread_pause n s = Some (True, t)" "kernel_inv (removeAll p L) F t"
    "\<And>q. st t q = ((st s)(p := paused (st s p))) q" "the_ccb t = the_ccb s" "live t = live s"
    "interrupt_vector_page_table t = interrupt_vector_page_table s" "tcb_entry t = tcb_entry s"
proof -
  have pl: "p \<in> threads s" using target_live [OF act, of n] p live_threads by auto
  note look = self_lookup [OF inv act, of n, unfolded p]
  note I = kernel_invD [OF inv]
  have notin: "removeAll p L = L" if "st s p \<noteq> TCB_STATE_QUEUED" using that I(4) by auto
  have st: "st (set_state p v s) q = ((st s)(p := v)) q" for q v
    by (rule fun_cong [OF st_set_state])
  from known consider (s) "st s p = TCB_STATE_SUSPENDED \<or> st s p = TCB_STATE_SUSPENDEDWAITING"
    | (w) "st s p = TCB_STATE_WAITING" | (q) "st s p = TCB_STATE_QUEUED" | (r) "st s p = TCB_STATE_RUNNING"
    by auto
  then show ?thesis
  proof cases
    case s
    then have "paused (st s p) = st s p" by (auto simp: paused_def)
    moreover have "apilogic_thread_pause n s = Some (True, s)"
      using s p by (simp add: apilogic_thread_pause_def look)
    moreover have "removeAll p L = L" by (rule notin) (use s in auto)
    ultimately show ?thesis using inv by (intro that [of s]) simp_all
  next
    case w
    have "kernel_inv L F (set_state p TCB_STATE_SUSPENDEDWAITING s)"
      by (rule kernel_inv_set_state [OF inv pl]) (simp_all add: w)
    moreover have "apilogic_thread_pause n s = Some (True, set_state p TCB_STATE_SUSPENDEDWAITING s)"
      using w p by (simp add: apilogic_thread_pause_def look)
    ultimately show ?thesis using that notin w st by (simp add: paused_def)
  next
    case r
    have "kernel_inv L F (set_state p TCB_STATE_SUSPENDED s)"
      by (rule kernel_inv_set_state [OF inv pl]) (simp_all add: r)
    moreover have "apilogic_thread_pause n s = Some (True, set_state p TCB_STATE_SUSPENDED s)"
      using r p by (simp add: apilogic_thread_pause_def look)
    ultimately show ?thesis using that notin r st by (simp add: paused_def)
  next
    case q
    from rem_inv [OF inv pl q, of TCB_STATE_SUSPENDED] obtain t where t: "scheduler_rem_tcb p s = Some (0, t)"
      "no_sched t = no_sched s" "kernel_inv (remove1 p L) F (set_state p TCB_STATE_SUSPENDED t)" by auto
    have d: "remove1 p L = removeAll p L"
      using run_queue_distinct [OF I(3)] by (simp add: distinct_remove1_removeAll)
    have "apilogic_thread_pause n s = Some (True, set_state p TCB_STATE_SUSPENDED t)"
      using q p t(1) by (simp add: apilogic_thread_pause_def look)
    moreover have "st (set_state p TCB_STATE_SUSPENDED t) r = ((st s)(p := paused (st s p))) r" for r
      using fun_cong [OF st_set_state [of p TCB_STATE_SUSPENDED t], of r] no_sched_step(1) [OF t(2), of r] q
      by (simp add: paused_def)
    ultimately show ?thesis using that t(3) d no_sched_step [OF t(2)] by simp
  qed
qed

lemma pause_none:
  assumes "kernel_inv L F s" "active s \<in> live s" "target n s = 0"
  shows "apilogic_thread_pause n s = Some (False, s)"
  using assms(3) by (simp add: apilogic_thread_pause_def self_lookup [OF assms(1,2)])

text \<open>The state a thread has after \<open>thread_resume\<close>.\<close>

definition resumed :: "u16 \<Rightarrow> u16" where
  "resumed v = (if v = TCB_STATE_SUSPENDED then TCB_STATE_QUEUED
     else if v = TCB_STATE_SUSPENDEDWAITING then TCB_STATE_WAITING else v)"

lemma resume_spec:
  assumes inv: "kernel_inv L F s" and act: "active s \<in> live s" and p: "target n s = p" "p \<noteq> 0"
    and notself: "st s (active s) \<noteq> TCB_STATE_SUSPENDED"
  obtains t where "apilogic_thread_resume n s =
      Some (st s p = TCB_STATE_SUSPENDED \<or> st s p = TCB_STATE_SUSPENDEDWAITING, t)"
    "kernel_inv (if st s p = TCB_STATE_SUSPENDED then L @ [p] else L) F t"
    "\<And>q. st t q = ((st s)(p := resumed (st s p))) q" "the_ccb t = the_ccb s" "live t = live s"
    "interrupt_vector_page_table t = interrupt_vector_page_table s" "tcb_entry t = tcb_entry s"
proof -
  have pl: "p \<in> threads s" using target_live [OF act, of n] p live_threads by auto
  note look = self_lookup [OF inv act, of n, unfolded p]
  consider (s) "st s p = TCB_STATE_SUSPENDED" | (w) "st s p = TCB_STATE_SUSPENDEDWAITING"
    | (o) "st s p \<noteq> TCB_STATE_SUSPENDED" "st s p \<noteq> TCB_STATE_SUSPENDEDWAITING" by blast
  then show ?thesis
  proof cases
    case s
    have "p \<noteq> active s" "st s p \<noteq> TCB_STATE_QUEUED" using s notself by auto
    from add_inv [OF inv pl this(2,1)] obtain t where t: "scheduler_add_tcb p s = Some t"
      "no_sched t = no_sched s" "kernel_inv (L @ [p]) F (set_state p TCB_STATE_QUEUED t)" by blast
    have "apilogic_thread_resume n s = Some (True, set_state p TCB_STATE_QUEUED t)"
      using s p t(1) by (simp add: apilogic_thread_resume_def look)
    moreover have "st (set_state p TCB_STATE_QUEUED t) r = ((st s)(p := resumed (st s p))) r" for r
      using fun_cong [OF st_set_state [of p TCB_STATE_QUEUED t], of r] no_sched_step(1) [OF t(2), of r] s
      by (simp add: resumed_def)
    ultimately show ?thesis using that s t(3) no_sched_step [OF t(2)] by simp
  next
    case w
    have "kernel_inv L F (set_state p TCB_STATE_WAITING s)"
      by (rule kernel_inv_set_state [OF inv pl]) (simp_all add: w)
    moreover have "apilogic_thread_resume n s = Some (True, set_state p TCB_STATE_WAITING s)"
      using w p by (simp add: apilogic_thread_resume_def look)
    moreover have "st (set_state p TCB_STATE_WAITING s) q = ((st s)(p := resumed (st s p))) q" for q
      using fun_cong [OF st_set_state [of p TCB_STATE_WAITING s], of q] w by (simp add: resumed_def)
    ultimately show ?thesis using that w by simp
  next
    case o
    then have "apilogic_thread_resume n s = Some (False, s)"
      using p by (simp add: apilogic_thread_resume_def look)
    moreover have "resumed (st s p) = st s p" using o by (simp add: resumed_def)
    ultimately show ?thesis using inv o by (intro that [of s]) simp_all
  qed
qed

lemma resume_none:
  assumes "kernel_inv L F s" "active s \<in> live s" "target n s = 0"
  shows "apilogic_thread_resume n s = Some (False, s)"
  using assms(3) by (simp add: apilogic_thread_resume_def self_lookup [OF assms(1,2)])

subsection \<open>Creation and reaping\<close>

lemma outsideD:
  assumes "outside t = outside s"
  shows "the_ccb t = the_ccb s" "idle_tcb t = idle_tcb s" "schedule_head t = schedule_head s"
    "schedule_tail t = schedule_tail s" "pagefault_queue t = pagefault_queue s"
    "miscfault_queue t = miscfault_queue s" "zombie_queue t = zombie_queue s"
    "interrupt_vector_page_table t = interrupt_vector_page_table s"
  using assms by (simp_all add: outside_def)

text \<open>
  A step of the memory manager that concerns one block keeps the invariant if the block is
  neither active nor queued and ends up in the table or on the free list.
\<close>

lemma mem_step_inv:
  assumes inv: "kernel_inv L F s" and m: "mem_inv G t" and step: "mem_step p F s G t"
    and lock: "tcb_table_lock t = 0" and lv: "live t - {p} = live s - {p}"
    and p: "p \<notin> set L" "p \<noteq> idle_tcb s" "p = active s \<longrightarrow> p = 0"
    and new: "p \<in> live t \<longrightarrow> st t p \<noteq> TCB_STATE_QUEUED"
    and keep: "live s \<union> set F \<subseteq> live t \<union> set G"
  shows "kernel_inv L G t"
proof -
  note I = kernel_invD [OF inv]
  have out: "outside t = outside s" and same: "\<And>q. q \<noteq> p \<Longrightarrow> tcbs t q = tcbs s q"
    using step by (simp_all add: mem_step_def)
  note O = outsideD [OF out]
  have mono: "q \<in> threads t \<longleftrightarrow> q \<in> threads s" if "q \<noteq> p" for q
    using lv that O(2) by (auto simp: threads_def)
  have "llist (nxt t) (schedule_head s) L = llist (nxt s) (schedule_head s) L"
    using p(1) by (intro llist_cong arg_cong [of _ _ tcb_next] same) metis
  then have "run_queue L t" using I(3) by (simp add: run_queue_def O)
  moreover have "set L = {q \<in> threads t. st t q = TCB_STATE_QUEUED}"
  proof (rule set_eqI)
    fix q show "q \<in> set L \<longleftrightarrow> q \<in> {q \<in> threads t. st t q = TCB_STATE_QUEUED}"
    proof (cases "q = p")
      case True
      then show ?thesis using p new O(2) by (auto simp: threads_def)
    next
      case False
      then show ?thesis using I(4) mono [OF False] same [OF False] by auto
    qed
  qed
  moreover have "routed t = routed s" by (simp add: routed_def O)
  then have "routed t \<subseteq> live t \<union> set G" using I(5) keep by blast
  moreover have "active t \<in> threads t \<and> st t (active t) \<noteq> TCB_STATE_QUEUED" if "active t \<noteq> 0"
    using that I(6,7) O(1) p(3) mono [of "active s"] same [of "active s"] by auto
  ultimately show ?thesis using m lock by (simp add: kernel_inv_def)
qed

lemma set_state_same:
  assumes "st t p = v"
  shows "set_state p v t = t"
proof -
  have "(tcbs t p)\<lparr>tcb_state := v\<rparr> = tcbs t p" using assms by (cases "tcbs t p") simp
  then show ?thesis by (simp add: set_state_def upd_tcb_def)
qed

lemma create_spec:
  assumes inv: "kernel_inv L F s"
  obtains (failed) t G where "apilogic_thread_create s = Some (0, t)" "kernel_inv L G t"
      "outside t = outside s" "tcb_entry t = tcb_entry s" "live t = live s"
      "\<And>q. q \<in> threads s \<Longrightarrow> tcbs t q = tcbs s q"
    | (created) p k t G where "apilogic_thread_create s = Some (of_nat k, t)" "kernel_inv L G t"
      "outside t = outside s" "tcb_entry t = (tcb_entry s)(k := p)" "live t = insert p (live s)"
      "\<And>q. q \<in> threads s \<Longrightarrow> tcbs t q = tcbs s q"
      "p \<noteq> 0" "p \<notin> threads s" "st t p = TCB_STATE_SUSPENDED" "tcb_id (tcbs t p) = of_nat k"
      "0 < k" "k < TCB_LIMIT" "tcb_entry s k = 0" "\<forall>j. 0 < j \<and> j < k \<longrightarrow> tcb_entry s j \<noteq> 0"
proof -
  note I = kernel_invD [OF inv]
  show ?thesis
  proof (rule tcb_new_spec [OF I(1,2)])
    fix p t G
    assume t: "tcb_new s = Some (0, t)" "mem_inv G t" "mem_step p F s G t"
      "p \<notin> live s" "p \<noteq> idle_tcb s" "set F \<subseteq> set G" "tcb_entry t = tcb_entry s"
      "live t = live s" "tcb_table_lock t = 0"
    then have nt: "p \<notin> threads s" by (simp add: threads_def)
    then have na: "p = active s \<longrightarrow> p = 0" using I(6) by auto
    have "kernel_inv L G t"
      by (rule mem_step_inv [OF inv t(2,3,9) _ _ t(5) na]) (use t nt I(9) in auto)
    then show ?thesis
      using t nt by (intro failed [of t G]) (auto simp: apilogic_thread_create_def mem_step_def)
  next
    fix p k t G
    assume t: "tcb_new s = Some (p, t)" "mem_inv G t" "mem_step p F s G t" "p \<notin> live s"
      "p \<noteq> idle_tcb s" "p \<noteq> 0" "tcb_table_lock t = 0" "0 < k" "k < TCB_LIMIT" "tcb_entry s k = 0"
      "\<forall>j. 0 < j \<and> j < k \<longrightarrow> tcb_entry s j \<noteq> 0" "tcb_entry t = (tcb_entry s)(k := p)"
      "live t = insert p (live s)" "st t p = TCB_STATE_SUSPENDED" "tcb_id (tcbs t p) = of_nat k"
    then have nt: "p \<notin> threads s" by (simp add: threads_def)
    then have na: "p = active s \<longrightarrow> p = 0" using I(6) by auto
    have kt: "kernel_inv L G t"
      by (rule mem_step_inv [OF inv t(2,3,7) _ _ t(5) na])
         (use t nt I(9) in \<open>auto simp: mem_step_def\<close>)
    have pt: "p \<in> threads t" using t(13) by (simp add: threads_def)
    have "set_state p TCB_STATE_SUSPENDED t = t" by (rule set_state_same [OF t(14)])
    with t(1,6,15) have "apilogic_thread_create s = Some (of_nat k, t)"
      by (simp add: apilogic_thread_create_def)
    then show ?thesis
      using t nt kt by (intro created [of k t G p]) (auto simp: mem_step_def)
  qed
qed

lemma reap_spec:
  assumes inv: "kernel_inv L F s" and p: "unat n < TCB_LIMIT" "tcb_entry s (unat n) = p" "p \<noteq> 0"
    and susp: "st s p = TCB_STATE_SUSPENDED" and act: "st s (active s) \<noteq> TCB_STATE_SUSPENDED"
  obtains t where "apilogic_thread_reap n s = Some (True, t)" "kernel_inv L (p # F) t"
    "outside t = outside s" "tcb_entry t = (tcb_entry s)(unat n := 0)" "live t = live s - {p}"
    "\<And>q. q \<noteq> p \<Longrightarrow> tcbs t q = tcbs s q"
proof -
  note I = kernel_invD [OF inv]
  have live: "p \<in> live s" using p liveI by blast
  have "st s p \<noteq> TCB_STATE_FREE" using susp by simp
  from tcb_del_spec [OF I(1,2) p this] obtain t where t: "tcb_del p s = Some t"
    "mem_inv (p # F) t" "mem_step p F s (p # F) t" "tcb_entry t = (tcb_entry s)(unat n := 0)"
    "live t = live s - {p}" "tcb_table_lock t = 0" by blast
  have "p \<notin> set L" using I(4) susp by auto
  moreover have "p \<noteq> idle_tcb s" using I(1) live by (auto simp: mem_inv_def)
  moreover have "p = active s \<longrightarrow> p = 0" using act susp by auto
  ultimately have "kernel_inv L (p # F) t"
    using t(5) by (intro mem_step_inv [OF inv t(2,3,6)]) auto
  moreover have "apilogic_thread_reap n s = Some (True, t)"
    using p susp t(1) by (simp add: apilogic_thread_reap_def tcb_get_eq [OF I(2)])
  ultimately show ?thesis using that t by (simp add: mem_step_def)
qed

lemma reap_refused:
  assumes "kernel_inv L F s" "target n s = 0 \<or> st s (target n s) \<noteq> TCB_STATE_SUSPENDED"
    "n \<noteq> THREAD_ID_SELF"
  shows "apilogic_thread_reap n s = Some (False, s)"
  using assms(2,3) tcb_get_eq [OF kernel_invD(2) [OF assms(1)], of n]
  by (auto simp: apilogic_thread_reap_def target_def)

lemma reap_self_id:
  assumes "kernel_inv L F s"
  shows "apilogic_thread_reap THREAD_ID_SELF s = Some (False, s)"
proof -
  have "\<not> unat THREAD_ID_SELF < TCB_LIMIT" by (simp add: THREAD_ID_SELF_def TCB_LIMIT_def unsigned_minus_1_eq_mask mask_eq_exp_minus_1)
  with tcb_get_eq [OF kernel_invD(2) [OF assms], of THREAD_ID_SELF] show ?thesis
    by (simp add: apilogic_thread_reap_def)
qed

subsection \<open>Exit and register state\<close>

lemma exit_inv:
  assumes "caller_ok s"
  shows "\<exists>t. apilogic_thread_exit s = Some t \<and> caller t \<and> active t = active s \<and>
    st t (active t) = TCB_STATE_SUSPENDED \<and> has_zombie t \<and> zombie_queue t = active s"
proof -
  obtain L F where inv: "kernel_inv L F s" "vtables_ok s" "active s \<in> live s" "active s \<noteq> 0"
    "st s (active s) = TCB_STATE_RUNNING" using caller_okE [OF assms] by metis
  let ?a = "active s"
  let ?s1 = "set_state ?a TCB_STATE_SUSPENDED s"
  have k1: "kernel_inv L F ?s1"
    by (rule kernel_inv_set_state [OF inv(1) live_threads [OF inv(3)]]) (simp_all add: inv(5))
  have "?a \<notin> set L" by (rule kernel_invD(8) [OF inv(1)])
  from enqueue_inv [OF k1 inv(4) this, of Zombie_queue] obtain s2 where s2:
    "enqueue Zombie_queue ?a ?s1 = Some s2" "kernel_inv L F s2" "the_ccb s2 = the_ccb ?s1"
    "st s2 = st ?s1" "live s2 = live ?s1"
    "interrupt_vector_page_table s2 = interrupt_vector_page_table ?s1" by blast
  have st2: "st s2 ?a = TCB_STATE_SUSPENDED"
    using fun_cong [OF s2(4), of ?a] fun_cong [OF st_set_state [of ?a TCB_STATE_SUSPENDED s], of ?a] by simp
  have q2: "zombie_queue s2 = ?a" using s2(1) inv(4) by (auto simp: enqueue_def)
  have "vtables_ok s2" using vtables_ok_cong [OF s2(6)] vtables_ok_cong [of ?s1 s] inv(2) by simp
  moreover have "not_waiting s2" using st2 s2(3) by (simp add: not_waiting_def)
  moreover have "unat (drop_bit 7 PINION_INTERRUPT_ZOMBIE) < INTERRUPT_VECTOR_PAGES"
    by (simp add: PINION_INTERRUPT_ZOMBIE_def INTERRUPT_VECTOR_PAGES_def)
  ultimately obtain t M where t: "interrupt_vector_fire PINION_INTERRUPT_ZOMBIE s2 = Some t"
    "kernel_inv M F t" "wakes s2 t" using fire_inv [OF s2(2)] by blast
  have a: "the_ccb t = the_ccb s" using wakesD(3) [OF t(3)] s2(3) by simp
  have "live t = live s" using wakesD(1) [OF t(3)] s2(5) by simp
  moreover have "vtables_ok t"
    using \<open>vtables_ok s2\<close> vtables_ok_cong [OF wakesD(4) [OF t(3)]] by simp
  ultimately have "caller t" using a t(2) inv(3) by (auto simp: caller_def kernel_ok_def)
  moreover have "apilogic_thread_exit s = Some t"
    using inv(4) s2(1) t(1) by (simp add: apilogic_thread_exit_def queue_zombie_def Let_def)
  moreover have "st t ?a = TCB_STATE_SUSPENDED" using wakesD(9) [OF t(3) st2] .
  moreover have "zombie_queue t = ?a"
    using t(3) q2 by (auto simp: wakes_def dest: spec [of _ Zombie_queue])
  ultimately show ?thesis using a inv(4) by (simp add: has_zombie_def has_queued_def)
qed

lemma push_regs_frame [simp]:
  "tcb_id (push_regs cls r t) = tcb_id t" "tcb_state (push_regs cls r t) = tcb_state t"
  "tcb_next (push_regs cls r t) = tcb_next t" "tcb_reserved0 (push_regs cls r t) = tcb_reserved0 t"
  "tcb_tap (push_regs cls r t) = tcb_tap t" "tcb_cs (push_regs cls r t) = tcb_cs t"
  "tcb_ss (push_regs cls r t) = tcb_ss t" "tcb_gs (push_regs cls r t) = tcb_gs t"
  "tcb_rflags (push_regs cls r t) = tcb_rflags t" "tcb_pcx_id (push_regs cls r t) = tcb_pcx_id t"
  by (simp_all add: push_regs_def Let_def)

lemma push_inv:
  assumes "kernel_inv L F s"
  shows "\<exists>r t. apilogic_thread_push_state n cls state s = Some (r, t) \<and> kernel_inv L F t \<and>
    the_ccb t = the_ccb s \<and> live t = live s \<and> (\<forall>q. st t q = st s q) \<and>
    interrupt_vector_page_table t = interrupt_vector_page_table s"
proof -
  have k: "kernel_inv L F (upd_tcb p (push_regs cls r) s)" for p r
    by (rule kernel_inv_upd_tcb [OF assms]) simp_all
  have lv: "live (upd_tcb p (push_regs cls r) s) = live s" for p r by (rule live_cong) simp
  show ?thesis
    using k lv assms tcb_get_eq [OF kernel_invD(2) [OF assms], of n]
    by (auto simp: apilogic_thread_push_state_def split: option.splits)
qed

lemma pull_same:
  assumes "kernel_inv L F s"
  shows "\<exists>r v. apilogic_thread_pull_state n cls state s = Some (r, v, s)"
  using tcb_get_eq [OF kernel_invD(2) [OF assms], of n]
  by (auto simp: apilogic_thread_pull_state_def split: option.splits)

subsection \<open>Paging calls and fault queues\<close>

text \<open>What the paging calls and the fault queue reads leave alone.\<close>

definition quiet :: "kernel \<Rightarrow> kernel \<Rightarrow> bool" where
  "quiet s t \<longleftrightarrow> tcbs t = tcbs s \<and> the_ccb t = the_ccb s \<and> tcb_table t = tcb_table s \<and>
     idle_tcb t = idle_tcb s \<and> interrupt_vector_page_table t = interrupt_vector_page_table s \<and>
     tcb_table_lock t = tcb_table_lock s \<and> schedule_head t = schedule_head s \<and>
     schedule_tail t = schedule_tail s"

lemma quiet_refl [simp]: "quiet s s"
  by (simp add: quiet_def)

lemma quiet_trans: "quiet s t \<Longrightarrow> quiet t u \<Longrightarrow> quiet s u"
  by (simp add: quiet_def)

lemma quiet_inv:
  assumes "kernel_inv L F s" "quiet s t" "mem_inv F t"
  shows "kernel_inv L F t"
proof -
  have q: "tcbs t = tcbs s" "the_ccb t = the_ccb s" "tcb_table_lock t = tcb_table_lock s"
    "idle_tcb t = idle_tcb s" "interrupt_vector_page_table t = interrupt_vector_page_table s"
    "schedule_head t = schedule_head s" "schedule_tail t = schedule_tail s"
    "tcb_table t = tcb_table s"
    using assms(2) by (simp_all add: quiet_def)
  have lv: "live t = live s" by (rule live_cong [OF q(8)])
  have "threads t = threads s" "routed t = routed s" by (simp_all add: threads_def routed_def q lv)
  moreover have "run_queue L t = run_queue L s" by (rule run_queue_cong) (simp_all add: q)
  ultimately show ?thesis using assms(1,3) by (simp add: kernel_inv_def q lv)
qed

lemma quiet_caller:
  assumes "quiet s t" "kernel_ok t"
  shows "caller s \<Longrightarrow> caller t" "caller_ok s \<Longrightarrow> caller_ok t"
proof -
  have "tcbs t = tcbs s" "the_ccb t = the_ccb s" "tcb_table t = tcb_table s"
    using assms(1) by (simp_all add: quiet_def)
  then show "caller s \<Longrightarrow> caller t" "caller_ok s \<Longrightarrow> caller_ok t"
    using assms(2) live_cong [of t s] by (simp_all add: caller_def caller_ok_def)
qed

lemma quiet_ok:
  assumes "kernel_inv L F s" "quiet s t" "mem_inv F t" "vtables_ok s"
  shows "kernel_ok t"
  using quiet_inv [OF assms(1-3)] assms(2,4) vtables_ok_cong [of t s]
  by (auto simp: kernel_ok_def quiet_def)

lemma quiet_view:
  assumes "kernel_inv L F s" "quiet s t" "mem_view t = mem_view s"
  shows "kernel_inv L F t"
  by (rule quiet_inv [OF assms(1,2) mem_inv_view [OF kernel_invD(1) [OF assms(1)] assms(3)]])

lemma pcx_unlock_quiet: "quiet s (pcx_unlock s)" "mem_view (pcx_unlock s) = mem_view s"
  by (simp_all add: quiet_def pcx_unlock_def mem_view_def pmm_view_def)

lemma pcx_reads:
  "pcx_get_trans pcx v s = Some (r, t) \<Longrightarrow> t = pcx_unlock s"
  "pcx_get_flags pcx v s = Some (q, t) \<Longrightarrow> t = pcx_unlock s"
  by (auto simp: pcx_get_trans_def pcx_get_flags_def bind_eq_Some_conv)

lemma pcx_unlock_idem [simp]: "pcx_unlock (pcx_unlock s) = pcx_unlock s"
  by (simp add: pcx_unlock_def)

lemma get_queued_quiet: "quiet s (snd (get_queued q s))" "mem_view (snd (get_queued q s)) = mem_view s"
proof -
  have "quiet s (set_queue_head q p s)" "mem_view (set_queue_head q p s) = mem_view s" for p
    by (cases q; simp add: quiet_def mem_view_def pmm_view_def)+
  then show "quiet s (snd (get_queued q s))" "mem_view (snd (get_queued q s)) = mem_view s"
    by (simp_all add: get_queued_def Let_def)
qed

lemma signal_eoi_inv:
  assumes "kernel_inv L F s"
  shows "kernel_inv L F (signal_eoi s)"
  using assms live_cong [of "signal_eoi s" s]
    mem_inv_view [OF kernel_invD(1) [OF assms], of "signal_eoi s"]
  by (simp add: kernel_inv_def signal_eoi_def mem_view_def pmm_view_def run_queue_def
      threads_def routed_def)

lemma mem_write_quiet:
  "quiet s (s\<lparr>mem := m\<rparr>)" "mem_view (s\<lparr>mem := m\<rparr>) = mem_view s"
  by (simp_all add: quiet_def mem_view_def pmm_view_def)

lemma pge_alloc_quiet:
  assumes "mem_inv F s" "pge_alloc s = Some (p, t)"
  shows "quiet s t" "mem_inv F t"
proof -
  from pge_alloc_spec [OF assms(1)] assms(2) have "mem_inv F t \<and> tcbs t = tcbs s \<and>
    tcb_table t = tcb_table s \<and> outside t = outside s \<and> tcb_table_lock t = tcb_table_lock s"
    by (metis option.inject prod.inject)
  then show "quiet s t" "mem_inv F t" by (simp_all add: quiet_def outside_def)
qed

lemma set_frame_loop_inv:
  assumes "set_frame_loop addr i pt s = Some (r, t)" "mem_inv F s"
  shows "mem_inv F t \<and> quiet s t"
  using assms
proof (induction addr i pt s arbitrary: r t rule: set_frame_loop.induct)
  case (1 addr i pt s)
  show ?case
  proof (cases "i \<le> 1")
    case True
    with "1.prems" set_frame_loop.simps [of addr i pt s] show ?thesis by simp
  next
    case False
    let ?a = "pte_addr i addr pt"
    from "1.prems"(1) False obtain s1 where s1:
      "(if mem s ?a AND PF_PRES = 0 then do {
          (newpt, s) \<leftarrow> pge_alloc s;
          let s = s\<lparr>mem := (mem s)(?a := (newpt - page_base) OR PF_VALID OR PF_PRES OR PF_WRITE OR PF_USER)\<rparr>;
          _ \<leftarrow> deref newpt;
          Some (s\<lparr>mem := clear_page newpt (mem s)\<rparr>)
        } else Some s) = Some s1"
      and rest: "(if mem s1 ?a AND PF_LARGE \<noteq> 0 then Some (None, pcx_unlock s1)
        else set_frame_loop addr (i - 1) (next_table (mem s1 ?a)) s1) = Some (r, t)"
      unfolding set_frame_loop.simps [of addr i pt s] by (auto simp: Let_def bind_eq_Some_conv)
    have step: "mem_inv F s1 \<and> quiet s s1"
    proof (cases "mem s ?a AND PF_PRES = 0")
      case True
      from s1 True obtain p u m where u: "pge_alloc s = Some (p, u)" "s1 = u\<lparr>mem := m\<rparr>"
        by (auto simp: Let_def bind_eq_Some_conv)
      note q = pge_alloc_quiet [OF "1.prems"(2) u(1)]
      have "quiet s s1" using quiet_trans [OF q(1) mem_write_quiet(1)] u(2) by simp
      moreover have "mem_inv F s1"
        unfolding u(2) by (rule mem_inv_view [OF q(2) mem_write_quiet(2)])
      ultimately show ?thesis by blast
    next
      case False
      with s1 "1.prems"(2) show ?thesis by simp
    qed
    show ?thesis
    proof (cases "mem s1 ?a AND PF_LARGE \<noteq> 0")
      case True
      then have "t = pcx_unlock s1" using rest by simp
      with step show ?thesis
        using mem_inv_view [of F s1 t] pcx_unlock_quiet [of s1] quiet_trans [of s s1 t] by simp
    next
      case loop: False
      then have "set_frame_loop addr (i - 1) (next_table (mem s1 ?a)) s1 = Some (r, t)"
        using rest by simp
      with "1.IH" [OF False refl s1 loop this] step show ?thesis using quiet_trans by blast
    qed
  qed
qed

lemma pcx_set_frame_inv:
  assumes "pcx_set_frame pcx addr z frame flags s = Some (e, t)" "mem_inv F s"
  shows "mem_inv F t \<and> quiet s t"
proof -
  have "mem_inv F (u\<lparr>mem := m\<rparr>) \<and> quiet s (u\<lparr>mem := m\<rparr>)" if "mem_inv F u" "quiet s u" for u m
    using mem_inv_view [OF that(1) mem_write_quiet(2)] quiet_trans [OF that(2) mem_write_quiet(1)] by blast
  then show ?thesis
    using assms set_frame_loop_inv [OF _ assms(2)]
    by (auto simp: pcx_set_frame_def bind_eq_Some_conv split: if_splits option.splits)
qed

lemma page_set_loop_inv:
  "page_set_loop n i vbase pbase flags s = Some (r, t) \<Longrightarrow> mem_inv F s \<Longrightarrow> mem_inv F t \<and> quiet s t"
proof (induction n arbitrary: i s)
  case 0
  then show ?case by simp
next
  case (Suc n)
  then obtain e u where u: "pcx_set_frame 0 (vbase + i) 0x1000 (pbase + i) flags s = Some (e, u)"
    and rest: "(if e \<noteq> 0 then Some (False, u) else page_set_loop n (i + 0x1000) vbase pbase flags u) = Some (r, t)"
    by (auto simp: bind_eq_Some_conv)
  note step = pcx_set_frame_inv [OF u Suc.prems(2)]
  show ?case
  proof (cases "e = 0")
    case True
    then have "page_set_loop n (i + 0x1000) vbase pbase flags u = Some (r, t)" using rest by simp
    with Suc.IH step show ?thesis using quiet_trans by blast
  qed (use rest step in simp)
qed

lemma page_set_inv:
  assumes "apilogic_page_set vbase pbase flags z s = Some (r, t)" "kernel_inv L F s"
  shows "kernel_inv L F t" "quiet s t"
proof -
  have "mem_inv F t \<and> quiet s t"
    using assms(1) page_set_loop_inv [OF _ kernel_invD(1) [OF assms(2)]] kernel_invD(1) [OF assms(2)]
    by (auto simp: apilogic_page_set_def Let_def split: if_splits)
  then show "kernel_inv L F t" "quiet s t" using quiet_inv [OF assms(2)] by blast+
qed

lemma page_get_inv:
  assumes "apilogic_page_get v s = Some (r, t)" "kernel_inv L F s"
  shows "kernel_inv L F t" "quiet s t"
proof -
  have "t = pcx_unlock s"
    using assms(1) pcx_reads by (fastforce simp: apilogic_page_get_def bind_eq_Some_conv)
  then show "kernel_inv L F t" "quiet s t"
    using quiet_view [OF assms(2) pcx_unlock_quiet] pcx_unlock_quiet by simp_all
qed

lemma fault_get_inv:
  assumes "kernel_inv L F s"
  shows "apilogic_fault_get_pagefault pi s = Some (r, pi', t) \<Longrightarrow> kernel_inv L F t \<and> quiet s t"
    and "apilogic_fault_get_miscfault mi s = (r, mi', t) \<Longrightarrow> kernel_inv L F t \<and> quiet s t"
    and "apilogic_fault_get_zombie zi s = (r, zi', t) \<Longrightarrow> kernel_inv L F t \<and> quiet s t"
    and "thread_get_queued q s = (n, t) \<Longrightarrow> kernel_inv L F t \<and> quiet s t"
proof -
  have g: "kernel_inv L F (snd (get_queued q s)) \<and> quiet s (snd (get_queued q s))" for q
    using quiet_view [OF assms get_queued_quiet] get_queued_quiet by simp
  have u: "kernel_inv L F (pcx_unlock v) \<and> quiet s (pcx_unlock v)"
    if "kernel_inv L F v \<and> quiet s v" for v
    using that quiet_view [of L F v "pcx_unlock v"] pcx_unlock_quiet [of v] quiet_trans [of s v] by blast
  show "apilogic_fault_get_pagefault pi s = Some (r, pi', t) \<Longrightarrow> kernel_inv L F t \<and> quiet s t"
    using g [of Pagefault_queue] u [OF g [of Pagefault_queue]] assms
    by (auto simp: apilogic_fault_get_pagefault_def get_pagefault_def pcx_get_trans_def
        pcx_get_flags_def bind_eq_Some_conv case_prod_beta Let_def split: option.splits if_splits)
  show "apilogic_fault_get_miscfault mi s = (r, mi', t) \<Longrightarrow> kernel_inv L F t \<and> quiet s t"
    using g [of Miscfault_queue] assms
    by (auto simp: apilogic_fault_get_miscfault_def get_miscfault_def case_prod_beta
        split: option.splits if_splits)
  show "apilogic_fault_get_zombie zi s = (r, zi', t) \<Longrightarrow> kernel_inv L F t \<and> quiet s t"
    using g [of Zombie_queue] assms
    by (auto simp: apilogic_fault_get_zombie_def get_zombie_def case_prod_beta
        split: option.splits if_splits)
  show "thread_get_queued q s = (n, t) \<Longrightarrow> kernel_inv L F t \<and> quiet s t"
    using g [of q] by (auto simp: thread_get_queued_def case_prod_beta)
qed

subsection \<open>Interrupts\<close>

text \<open>What every entry to the kernel by an interrupt leaves: the thread it resumes is running.\<close>

definition resumes :: "kernel \<Rightarrow> bool" where
  "resumes s \<longleftrightarrow> kernel_ok s \<and> active s \<noteq> 0 \<and>
     (active s \<in> live s \<longrightarrow> st s (active s) = TCB_STATE_RUNNING)"

lemma schedule_resumes:
  assumes "kernel_inv L F s" "vtables_ok s"
  shows "\<exists>t. scheduler_schedule s = Some t \<and> resumes t"
proof (rule schedule_inv [OF assms(1)])
  let ?Q = "if active s = 0 then L else L @ [active s]"
  fix t
  assume t: "scheduler_schedule s = Some t" "kernel_inv (tl ?Q) F t"
    "active t = (if ?Q = [] then idle_tcb s else hd ?Q)" "active t \<noteq> 0"
    "?Q \<noteq> [] \<longrightarrow> st t (active t) = TCB_STATE_RUNNING"
    "idle_tcb t = idle_tcb s" "live t = live s"
    "interrupt_vector_page_table t = interrupt_vector_page_table s"
  have "idle_tcb s \<notin> live s" using kernel_invD(1) [OF assms(1)] by (simp add: mem_inv_def)
  then have "active t \<in> live t \<longrightarrow> st t (active t) = TCB_STATE_RUNNING"
    using t(3,5,7) by (cases "?Q = []") auto
  moreover have "kernel_ok t" using t(2) assms(2) vtables_ok_cong [OF t(8)] by (auto simp: kernel_ok_def)
  ultimately show ?thesis using t(1,4) by (auto simp: resumes_def)
qed

lemma fault_path_resumes:
  assumes inv: "kernel_inv L F s" "vtables_ok s" "active s \<noteq> 0"
    and vec: "unat (drop_bit 7 vec) < INTERRUPT_VECTOR_PAGES"
  shows "\<exists>t. (case ccb_unload_tcb s of (p, s) \<Rightarrow> do {
      s \<leftarrow> enqueue q p s; s \<leftarrow> interrupt_vector_fire vec s; scheduler_schedule s }) = Some t \<and> resumes t"
proof -
  obtain p u where un: "ccb_unload_tcb s = (p, u)" by fastforce
  note U = unload_spec [OF un]
  have fu: "fixed u = fixed s" using U(7) by (simp add: thread_step_def)
  have p: "p \<noteq> 0" "p \<notin> set L" using U(1) inv(3) kernel_invD(8) [OF inv(1)] by simp_all
  from enqueue_inv [OF unload_inv [OF inv(1) un] p] obtain v where v: "enqueue q p u = Some v"
    "kernel_inv L F v" "the_ccb v = the_ccb u"
    "interrupt_vector_page_table v = interrupt_vector_page_table u" by blast
  have "not_waiting v" using v(3) U(2) by (simp add: not_waiting_def)
  moreover have ok: "vtables_ok v"
    using inv(2) vtables_ok_cong [OF v(4)] vtables_ok_cong [OF fixedD(4) [OF fu]] by simp
  ultimately obtain w M where w: "interrupt_vector_fire vec v = Some w" "kernel_inv M F w" "wakes v w"
    using fire_inv [OF v(2) _ _ vec] by blast
  have "vtables_ok w" using ok vtables_ok_cong [OF wakesD(4) [OF w(3)]] by simp
  from schedule_resumes [OF w(2) this] show ?thesis using un v(1) w(1) by simp
qed

lemma fault_resumes:
  assumes "fault cr2 (active s) s = Some t" "kernel_ok s" "active s \<noteq> 0"
  shows "resumes t \<or> t = s \<and> 32 < tcb_ivect (tcbs s (active s)) \<and> tcb_ivect (tcbs s (active s)) \<noteq> 0x100"
proof -
  from assms(2,3) obtain L F where inv: "kernel_inv L F s" "vtables_ok s" "active s \<noteq> 0"
    by (auto simp: kernel_ok_def)
  let ?iv = "tcb_ivect (tcbs s (active s))"
  have vecs: "unat (drop_bit 7 PINION_INTERRUPT_PAGEFAULT) < INTERRUPT_VECTOR_PAGES"
    "unat (drop_bit 7 PINION_INTERRUPT_MISCFAULT) < INTERRUPT_VECTOR_PAGES"
    by (simp_all add: PINION_INTERRUPT_PAGEFAULT_def PINION_INTERRUPT_MISCFAULT_def INTERRUPT_VECTOR_PAGES_def)
  have sched: "resumes t" if "scheduler_schedule u = Some t" "kernel_inv L F u" "vtables_ok u" for u
    using schedule_resumes [OF that(2,3)] that(1) by auto
  consider (timer) "?iv = 32" | (yield) "?iv = 0x100" | (page) "?iv = 14" | (double) "?iv = 8"
    | (misc) "?iv < 32" "?iv \<noteq> 14" "?iv \<noteq> 8" | (none) "32 < ?iv" "?iv \<noteq> 0x100" by force
  then show ?thesis
  proof cases
    case timer
    have "active (signal_eoi s) = active s" by (simp add: signal_eoi_def)
    moreover have "kernel_inv L F (signal_eoi s)" by (rule signal_eoi_inv [OF inv(1)])
    moreover have "vtables_ok (signal_eoi s)" using inv(2) by (simp add: vtables_ok_def signal_eoi_def)
    ultimately show ?thesis using assms(1) timer sched by (simp add: fault_def Let_def)
  next
    case yield
    obtain p u where un: "ccb_unload_tcb s = (p, u)" by fastforce
    have fu: "fixed u = fixed s" using unload_spec(7) [OF un] by (simp add: thread_step_def)
    have "kernel_inv L F u" by (rule unload_inv [OF inv(1) un])
    moreover have "vtables_ok u" using inv(2) vtables_ok_cong [OF fixedD(4) [OF fu]] by simp
    ultimately show ?thesis
      using assms(1) yield inv sched un by (auto simp: fault_def Let_def split: if_splits)
  next
    case page
    let ?u = "pcx_unlock s"
    have eq: "?u = pcx_unlock ?u" by simp
    have u: "kernel_inv L F ?u" "vtables_ok ?u" "active ?u \<noteq> 0"
      using quiet_view [OF inv(1) pcx_unlock_quiet] inv(2,3) by (simp_all add: vtables_ok_def pcx_unlock_def)
    from fault_path_resumes [OF u vecs(1), of Pagefault_queue] assms(1) page show ?thesis
      by (auto simp: fault_def Let_def pcx_get_trans_def pcx_get_flags_def bind_eq_Some_conv
          queue_pagefault_def case_prod_beta)
  next
    case double
    with assms(1) show ?thesis by (simp add: fault_def)
  next
    case misc
    then have "?iv \<noteq> 32" "?iv \<noteq> 0x100" by auto
    with fault_path_resumes [OF inv vecs(2), of Miscfault_queue] assms(1) misc show ?thesis
      by (auto simp: fault_def Let_def queue_miscfault_def case_prod_beta)
  next
    case none
    with assms show ?thesis by (auto simp: fault_def Let_def split: if_splits)
  qed
qed

text \<open>Saving the registers of the interrupted thread.\<close>

lemma save_frame_frame [simp]:
  "tcb_id (save_frame v f t) = tcb_id t" "tcb_state (save_frame v f t) = tcb_state t"
  "tcb_next (save_frame v f t) = tcb_next t" "tcb_reserved0 (save_frame v f t) = tcb_reserved0 t"
  "tcb_tap (save_frame v f t) = tcb_tap t" "tcb_ivect (save_frame v f t) = v"
  by (simp_all add: save_frame_def Let_def)

lemma save_state_frame [simp]:
  "the_ccb (save_state_full v f s) = the_ccb s" "live (save_state_full v f s) = live s"
  "st (save_state_full v f s) q = st s q"
  "tcb_ivect (tcbs (save_state_full v f s) (active s)) = v"
  by (simp_all add: save_state_full_def live_cong [of "upd_tcb p g s" s for p g])

lemma save_state_ok:
  assumes "kernel_ok s"
  shows "kernel_ok (save_state_full v f s)"
proof -
  from assms obtain L F where inv: "kernel_inv L F s" "vtables_ok s" by (auto simp: kernel_ok_def)
  have "kernel_inv L F (save_state_full v f s)"
    unfolding save_state_full_def by (rule kernel_inv_upd_tcb [OF inv(1)]) simp_all
  moreover have "vtables_ok (save_state_full v f s)"
    using inv(2) vtables_ok_cong [of "save_state_full v f s" s] by (simp add: save_state_full_def)
  ultimately show ?thesis by (rule kernel_okI)
qed

end
