(* ===== verification/Machine.thy ===== *)
theory Machine
  imports Kernel_Ops
begin

text \<open>
  The kernel as a machine: threads call it through the entry points of \<open>api.s\<close>, and the
  processor enters it through the stubs of \<open>interrupt.s\<close>. Some entry points execute
  \<open>int 0xFF\<close> after the call, with interrupts enabled in between; \<open>pending\<close> holds the
  \<open>rdi\<close> of a yield that the active thread has still to execute. The pending yield of a
  preempted thread is not tracked: a thread may execute \<open>int 0xFF\<close> at any time, so the
  steps below include it.
\<close>

datatype api_call =
  Thread_yield | Thread_create | Thread_pause u32 | Thread_resume u32 | Thread_exit
| Thread_reap u32 | Thread_pull_state u32 u32 "thread_state option"
| Thread_push_state u32 u32 "thread_state option"
| Interrupt_set_tap u32 u32 | Interrupt_get_tap u32 | Interrupt_reset u32 | Interrupt_wait
| Thread_get_pagefault | Thread_get_miscfault | Thread_get_zombie
| Fault_get_pagefault "pagefault_info option" | Fault_get_miscfault "miscfault_info option"
| Fault_get_zombie "zombie_info option"
| Page_set u64 u64 u64 u64 | Page_get u64 | Memory_map_read u32

datatype api_result =
  R_unit | R_bool bool | R_word u32 | R_state bool "thread_state option"
| R_pagefault bool "pagefault_info option" | R_miscfault bool "miscfault_info option"
| R_zombie bool "zombie_info option" | R_page page_content | R_region memory_map_region

text \<open>The call a entry point makes.\<close>

fun apilogic :: "api_call \<Rightarrow> kernel \<Rightarrow> (api_result \<times> kernel) option" where
  "apilogic Thread_yield s = Some (R_unit, apilogic_thread_yield s)"
| "apilogic Thread_create s = do { (n, s) \<leftarrow> apilogic_thread_create s; Some (R_word n, s) }"
| "apilogic (Thread_pause n) s = do { (r, s) \<leftarrow> apilogic_thread_pause n s; Some (R_bool r, s) }"
| "apilogic (Thread_resume n) s = do { (r, s) \<leftarrow> apilogic_thread_resume n s; Some (R_bool r, s) }"
| "apilogic Thread_exit s = do { s \<leftarrow> apilogic_thread_exit s; Some (R_unit, s) }"
| "apilogic (Thread_reap n) s = do { (r, s) \<leftarrow> apilogic_thread_reap n s; Some (R_bool r, s) }"
| "apilogic (Thread_pull_state n cls state) s =
     do { (r, state, s) \<leftarrow> apilogic_thread_pull_state n cls state s; Some (R_state r state, s) }"
| "apilogic (Thread_push_state n cls state) s =
     do { (r, s) \<leftarrow> apilogic_thread_push_state n cls state s; Some (R_bool r, s) }"
| "apilogic (Interrupt_set_tap i v) s =
     do { (r, s) \<leftarrow> apilogic_interrupt_set_tap i v s; Some (R_bool r, s) }"
| "apilogic (Interrupt_get_tap i) s =
     do { v \<leftarrow> apilogic_interrupt_get_tap i s; Some (R_word v, s) }"
| "apilogic (Interrupt_reset v) s = do { s \<leftarrow> apilogic_interrupt_reset v s; Some (R_unit, s) }"
| "apilogic Interrupt_wait s = do { (v, s) \<leftarrow> apilogic_interrupt_wait s; Some (R_word v, s) }"
| "apilogic Thread_get_pagefault s =
     (case apilogic_thread_get_pagefault s of (n, s) \<Rightarrow> Some (R_word n, s))"
| "apilogic Thread_get_miscfault s =
     (case apilogic_thread_get_miscfault s of (n, s) \<Rightarrow> Some (R_word n, s))"
| "apilogic Thread_get_zombie s =
     (case apilogic_thread_get_zombie s of (n, s) \<Rightarrow> Some (R_word n, s))"
| "apilogic (Fault_get_pagefault info) s =
     do { (r, info, s) \<leftarrow> apilogic_fault_get_pagefault info s; Some (R_pagefault r info, s) }"
| "apilogic (Fault_get_miscfault info) s =
     (case apilogic_fault_get_miscfault info s of (r, info, s) \<Rightarrow> Some (R_miscfault r info, s))"
| "apilogic (Fault_get_zombie info) s =
     (case apilogic_fault_get_zombie info s of (r, info, s) \<Rightarrow> Some (R_zombie r info, s))"
| "apilogic (Page_set vbase pbase flags z) s =
     do { (r, s) \<leftarrow> apilogic_page_set vbase pbase flags z s; Some (R_bool r, s) }"
| "apilogic (Page_get v) s = do { (r, s) \<leftarrow> apilogic_page_get v s; Some (R_page r, s) }"
| "apilogic (Memory_map_read i) s =
     do { r \<leftarrow> apilogic_memory_map_read i s; Some (R_region r, s) }"

text \<open>The \<open>rdi\<close> of the yield an entry point executes after the call, if it has one.\<close>

fun api_yield :: "api_call \<Rightarrow> u64 option" where
  "api_yield Thread_yield = Some 2"
| "api_yield Thread_create = Some 1"
| "api_yield (Thread_pause n) = Some 0"
| "api_yield (Thread_resume n) = Some 1"
| "api_yield Thread_exit = Some 0"
| "api_yield (Thread_push_state n cls state) = Some 1"
| "api_yield Interrupt_wait = Some 0"
| "api_yield _ = None"

text \<open>
  The stubs: vector numbers as they are pushed, and \<open>0x100\<close> for \<open>int 0xFF\<close>.
\<close>

definition YIELD_VECTOR :: u32 where "YIELD_VECTOR = 0x100"

definition interrupt_entry :: "u32 \<Rightarrow> frame \<Rightarrow> u64 \<Rightarrow> kernel \<Rightarrow> kernel option" where
  "interrupt_entry vect f cr2 s =
     (let s = save_state_full vect f s in fault cr2 (active s) s)"

record machine =
  kern :: kernel
  pending :: "u64 option"

datatype event = Call api_call api_result | Yield frame | Interrupt u32 frame u64

text \<open>
  The steps. A call comes from a thread, not from the idle loop, and not between a call and
  its yield. A pending yield passes its own value in \<open>rdi\<close>.
\<close>

inductive mstep :: "machine \<Rightarrow> event \<Rightarrow> machine \<Rightarrow> bool" where
  Call: "pending m = None \<Longrightarrow> active (kern m) \<in> live (kern m) \<Longrightarrow>
    apilogic c (kern m) = Some (r, k) \<Longrightarrow>
    mstep m (Call c r) (m\<lparr>kern := k, pending := api_yield c\<rparr>)"
| Yield: "\<forall>v. pending m = Some v \<longrightarrow> ts_rdi (fr_regs f) = v \<Longrightarrow>
    interrupt_entry YIELD_VECTOR f cr2 (kern m) = Some k \<Longrightarrow>
    mstep m (Yield f) (m\<lparr>kern := k, pending := None\<rparr>)"
| Interrupt: "v \<le> 255 \<Longrightarrow> interrupt_entry v f cr2 (kern m) = Some k \<Longrightarrow>
    mstep m (Interrupt v f cr2) (m\<lparr>kern := k, pending := (if v \<le> 32 then None else pending m)\<rparr>)"

inductive_cases mstepE: "mstep m e m'"

inductive_simps mstep_call: "mstep m (Call c r) m'"
inductive_simps mstep_yield: "mstep m (Yield f) m'"
inductive_simps mstep_interrupt: "mstep m (Interrupt v f cr2) m'"

inductive mrun :: "machine \<Rightarrow> event list \<Rightarrow> machine \<Rightarrow> bool" where
  Nil: "mrun m [] m"
| Cons: "mstep m e m1 \<Longrightarrow> mrun m1 es m2 \<Longrightarrow> mrun m (e # es) m2"

inductive_cases mrun_NilE: "mrun m [] m'"
inductive_cases mrun_ConsE: "mrun m (e # es) m'"

subsection \<open>The invariant of the machine\<close>

definition machine_inv :: "machine \<Rightarrow> bool" where
  "machine_inv m \<longleftrightarrow> kernel_ok (kern m) \<and> active (kern m) \<noteq> 0 \<and>
     (pending m = None \<longrightarrow> resumes (kern m))"

lemma caller_ok_resumes: "caller_ok s \<Longrightarrow> resumes s"
  by (auto simp: caller_ok_def caller_def resumes_def dest: live_nonzero)

lemma resumes_caller_ok: "resumes s \<Longrightarrow> active s \<in> live s \<Longrightarrow> caller_ok s"
  by (simp add: resumes_def caller_ok_def caller_def)

lemma callerD: "caller s \<Longrightarrow> kernel_ok s \<and> active s \<noteq> 0"
  by (auto simp: caller_def dest: live_nonzero)

text \<open>A call that yields leaves the caller in the table; one that does not leaves it running.\<close>

lemma create_caller:
  assumes "caller_ok s" "apilogic_thread_create s = Some (n, t)"
  shows "caller_ok t"
proof -
  from caller_okE [OF assms(1)] obtain L F where inv: "kernel_inv L F s" "vtables_ok s"
    "active s \<in> live s" "st s (active s) = TCB_STATE_RUNNING" by metis
  have ok: "caller_ok t" if "kernel_inv L G t" "outside t = outside s" "active s \<in> live t"
      "\<And>q. q \<in> threads s \<Longrightarrow> tcbs t q = tcbs s q" for G
  proof -
    have "vtables_ok t" using inv(2) vtables_ok_cong [OF outsideD(8) [OF that(2)]] by simp
    moreover have "tcbs t (active s) = tcbs s (active s)" using that(4) live_threads [OF inv(3)] .
    ultimately show ?thesis
      using that(1,3) inv(4) outsideD(1) [OF that(2)] by (auto simp: caller_ok_def caller_def kernel_ok_def)
  qed
  show ?thesis
    by (rule create_spec [OF inv(1)]) (use assms(2) inv(3) ok in auto)
qed

lemma self_bind:
  assumes "kernel_inv L F s" "active s \<in> live s"
  shows "target n s = 0 \<or> target n s \<in> live s"
  using target_live [OF assms(2)] .

text \<open>The calls on a thread id, when the thread's state is one they know or not.\<close>

lemma pause_caller:
  assumes "caller_ok s" "apilogic_thread_pause n s = Some (r, t)"
  shows "caller t \<and> active t = active s"
proof -
  from caller_okE [OF assms(1)] obtain L F where inv: "kernel_inv L F s" "vtables_ok s"
    "active s \<in> live s" by metis
  have c: "caller s" using assms(1) by (simp add: caller_ok_def)
  let ?p = "target n s"
  consider (none) "?p = 0"
    | (known) "?p \<noteq> 0" "st s ?p \<in> {TCB_STATE_SUSPENDED, TCB_STATE_SUSPENDEDWAITING, TCB_STATE_WAITING,
        TCB_STATE_QUEUED, TCB_STATE_RUNNING}"
    | (unknown) "?p \<noteq> 0" "st s ?p \<notin> {TCB_STATE_SUSPENDED, TCB_STATE_SUSPENDEDWAITING, TCB_STATE_WAITING,
        TCB_STATE_QUEUED, TCB_STATE_RUNNING}" by blast
  then show ?thesis
  proof cases
    case none
    then show ?thesis using pause_none [OF inv(1,3)] assms(2) c by simp
  next
    case known
    show ?thesis
      by (rule pause_spec [OF inv(1,3) refl known])
         (use assms(2) caller_step [OF c] in auto)
  next
    case unknown
    then show ?thesis
      using assms(2) c by (simp add: apilogic_thread_pause_def self_lookup [OF inv(1,3)])
  qed
qed

lemma resume_caller:
  assumes "caller_ok s" "apilogic_thread_resume n s = Some (r, t)"
  shows "caller t \<and> active t = active s"
proof -
  from caller_okE [OF assms(1)] obtain L F where inv: "kernel_inv L F s" "vtables_ok s"
    "active s \<in> live s" "st s (active s) = TCB_STATE_RUNNING" by metis
  have c: "caller s" using assms(1) by (simp add: caller_ok_def)
  have ns: "st s (active s) \<noteq> TCB_STATE_SUSPENDED" using inv(4) by simp
  show ?thesis
  proof (cases "target n s = 0")
    case True
    then show ?thesis using resume_none [OF inv(1,3)] assms(2) c by simp
  next
    case False
    show ?thesis
      by (rule resume_spec [OF inv(1,3) refl False ns])
         (use assms(2) caller_step [OF c] in auto)
  qed
qed

lemma reap_caller:
  assumes "caller_ok s" "apilogic_thread_reap n s = Some (r, t)"
  shows "caller_ok t"
proof -
  from caller_okE [OF assms(1)] obtain L F where inv: "kernel_inv L F s" "vtables_ok s"
    "active s \<in> live s" "st s (active s) = TCB_STATE_RUNNING" by metis
  have ns: "st s (active s) \<noteq> TCB_STATE_SUSPENDED" using inv(4) by simp
  consider (self) "n = THREAD_ID_SELF"
    | (refused) "n \<noteq> THREAD_ID_SELF" "target n s = 0 \<or> st s (target n s) \<noteq> TCB_STATE_SUSPENDED"
    | (reaped) "n \<noteq> THREAD_ID_SELF" "target n s \<noteq> 0" "st s (target n s) = TCB_STATE_SUSPENDED" by blast
  then show ?thesis
  proof cases
    case self
    then show ?thesis using reap_self_id [OF inv(1)] assms by simp
  next
    case refused
    then show ?thesis using reap_refused [OF inv(1)] assms by simp
  next
    case reaped
    then have p: "unat n < TCB_LIMIT" "tcb_entry s (unat n) = target n s"
      by (auto simp: target_def split: if_splits)
    show ?thesis
    proof (rule reap_spec [OF inv(1) p reaped(2,3) ns])
      fix u
      assume u: "apilogic_thread_reap n s = Some (True, u)" "kernel_inv L (target n s # F) u"
        "outside u = outside s" "live u = live s - {target n s}"
        "\<And>q. q \<noteq> target n s \<Longrightarrow> tcbs u q = tcbs s q"
      have "active s \<noteq> target n s" using reaped(3) inv(4) by auto
      then have "caller_ok u"
        using u(2,4) u(5) [of "active s"] inv outsideD(1) [OF u(3)]
          vtables_ok_cong [OF outsideD(8) [OF u(3)]]
        by (auto simp: caller_ok_def caller_def kernel_ok_def)
      then show ?thesis using u(1) assms(2) by simp
    qed
  qed
qed

lemma push_caller:
  assumes "caller_ok s" "apilogic_thread_push_state n cls state s = Some (r, t)"
  shows "caller_ok t"
proof -
  from caller_okE [OF assms(1)] obtain L F where inv: "kernel_inv L F s" "vtables_ok s"
    "active s \<in> live s" "st s (active s) = TCB_STATE_RUNNING" by metis
  from push_inv [OF inv(1), of n cls state] assms(2) have t: "kernel_inv L F t" "the_ccb t = the_ccb s"
    "live t = live s" "\<And>q. st t q = st s q" "interrupt_vector_page_table t = interrupt_vector_page_table s"
    by auto
  then show ?thesis
    using inv vtables_ok_cong [OF t(5)] t(4) [of "active s"]
    by (auto simp: caller_ok_def caller_def kernel_ok_def)
qed

lemma quiet_call:
  assumes "caller_ok s" "\<And>L F. kernel_inv L F s \<Longrightarrow> kernel_inv L F t \<and> quiet s t"
  shows "caller_ok t"
proof -
  from caller_okE [OF assms(1)] obtain L F where inv: "kernel_inv L F s" "vtables_ok s" by metis
  from assms(2) [OF inv(1)] have t: "kernel_inv L F t" "quiet s t" by simp_all
  have "kernel_ok t"
    using quiet_ok [OF inv(1) t(2) kernel_invD(1) [OF t(1)] inv(2)] .
  from quiet_caller(2) [OF t(2) this assms(1)] show ?thesis .
qed

lemma apilogic_caller:
  assumes "apilogic c s = Some (r, t)" "caller_ok s"
  shows "caller t \<and> (api_yield c = None \<longrightarrow> caller_ok t)"
proof -
  have c: "caller t" if "caller_ok t" using that by (simp add: caller_ok_def)
  have same: "caller_ok s \<Longrightarrow> \<exists>L F. kernel_inv L F s" by (auto simp: caller_ok_def caller_def kernel_ok_def)
  show ?thesis
  proof (cases c)
    case Thread_yield
    then show ?thesis using assms c by (simp add: apilogic_thread_yield_def)
  next
    case Thread_create
    then show ?thesis using assms create_caller [OF assms(2)] by (auto simp: bind_eq_Some_conv caller_ok_def)
  next
    case (Thread_pause n)
    then show ?thesis using assms pause_caller [OF assms(2)] by (auto simp: bind_eq_Some_conv)
  next
    case (Thread_resume n)
    then show ?thesis using assms resume_caller [OF assms(2)] by (auto simp: bind_eq_Some_conv)
  next
    case Thread_exit
    then show ?thesis using assms exit_inv [OF assms(2)] by (auto simp: bind_eq_Some_conv)
  next
    case (Thread_reap n)
    then show ?thesis using assms reap_caller [OF assms(2)] by (auto simp: bind_eq_Some_conv caller_ok_def)
  next
    case (Thread_pull_state n cls state)
    from same [OF assms(2)] obtain L F where inv: "kernel_inv L F s" by blast
    from pull_same [OF inv, of n cls state] show ?thesis
      using assms c Thread_pull_state by auto
  next
    case (Thread_push_state n cls state)
    then show ?thesis using assms push_caller [OF assms(2)] by (auto simp: bind_eq_Some_conv caller_ok_def)
  next
    case (Interrupt_set_tap i v)
    then have "apilogic_interrupt_set_tap i v s = Some (case r of R_bool b \<Rightarrow> b, t)"
      using assms(1) by (auto simp: bind_eq_Some_conv)
    from set_tap_call_range [OF this] set_tap_call_inv [OF assms(2), of i v] this have "caller_ok t"
      using assms(2) by fastforce
    then show ?thesis using c by simp
  next
    case (Interrupt_get_tap i)
    then show ?thesis using assms c by (auto simp: bind_eq_Some_conv)
  next
    case (Interrupt_reset v)
    then show ?thesis using assms reset_call_inv [OF assms(2), of v] by (auto simp: bind_eq_Some_conv caller_ok_def)
  next
    case Interrupt_wait
    then show ?thesis using assms wait_call_inv [OF assms(2)] by (auto simp: bind_eq_Some_conv)
  next
    case Thread_get_pagefault
    then have "thread_get_queued Pagefault_queue s = (case r of R_word n \<Rightarrow> n, t)"
      using assms(1) by (auto simp: apilogic_thread_get_pagefault_def split: prod.splits)
    then have "caller_ok t" using fault_get_inv(4) by (intro quiet_call [OF assms(2)]) blast
    then show ?thesis using c by simp
  next
    case Thread_get_miscfault
    then have "thread_get_queued Miscfault_queue s = (case r of R_word n \<Rightarrow> n, t)"
      using assms(1) by (auto simp: apilogic_thread_get_miscfault_def split: prod.splits)
    then have "caller_ok t" using fault_get_inv(4) by (intro quiet_call [OF assms(2)]) blast
    then show ?thesis using c by simp
  next
    case Thread_get_zombie
    then have "thread_get_queued Zombie_queue s = (case r of R_word n \<Rightarrow> n, t)"
      using assms(1) by (auto simp: apilogic_thread_get_zombie_def split: prod.splits)
    then have "caller_ok t" using fault_get_inv(4) by (intro quiet_call [OF assms(2)]) blast
    then show ?thesis using c by simp
  next
    case (Fault_get_pagefault info)
    then obtain b j where "apilogic_fault_get_pagefault info s = Some (b, j, t)"
      using assms(1) by (auto simp: bind_eq_Some_conv)
    then have "caller_ok t" using fault_get_inv(1) by (intro quiet_call [OF assms(2)]) blast
    then show ?thesis using c by simp
  next
    case (Fault_get_miscfault info)
    then obtain b j where "apilogic_fault_get_miscfault info s = (b, j, t)"
      using assms(1) by (auto split: prod.splits)
    then have "caller_ok t" using fault_get_inv(2) by (intro quiet_call [OF assms(2)]) blast
    then show ?thesis using c by simp
  next
    case (Fault_get_zombie info)
    then obtain b j where "apilogic_fault_get_zombie info s = (b, j, t)"
      using assms(1) by (auto split: prod.splits)
    then have "caller_ok t" using fault_get_inv(3) by (intro quiet_call [OF assms(2)]) blast
    then show ?thesis using c by simp
  next
    case (Page_set vbase pbase flags z)
    then obtain b where "apilogic_page_set vbase pbase flags z s = Some (b, t)"
      using assms(1) by (auto simp: bind_eq_Some_conv)
    then have "caller_ok t" using page_set_inv by (intro quiet_call [OF assms(2)]) blast
    then show ?thesis using c by simp
  next
    case (Page_get v)
    then obtain b where "apilogic_page_get v s = Some (b, t)"
      using assms(1) by (auto simp: bind_eq_Some_conv)
    then have "caller_ok t" using page_get_inv by (intro quiet_call [OF assms(2)]) blast
    then show ?thesis using c by simp
  next
    case (Memory_map_read i)
    then show ?thesis using assms c by (auto simp: bind_eq_Some_conv)
  qed
qed

lemma interrupt_resumes:
  assumes "interrupt_entry v f cr2 s = Some t" "kernel_ok s" "active s \<noteq> 0"
  shows "resumes t \<or> t = save_state_full v f s \<and> 32 < v \<and> v \<noteq> YIELD_VECTOR"
  using fault_resumes [of cr2 "save_state_full v f s" t] assms save_state_ok [OF assms(2)]
  by (simp add: interrupt_entry_def Let_def YIELD_VECTOR_def)

lemma save_state_resumes:
  assumes "resumes s"
  shows "resumes (save_state_full v f s)"
  using assms save_state_ok by (simp add: resumes_def)

lemma resumesD: "resumes s \<Longrightarrow> kernel_ok s \<and> active s \<noteq> 0"
  by (simp add: resumes_def)

lemma mstep_inv:
  assumes "mstep m e m'" "machine_inv m"
  shows "machine_inv m'"
  using assms
proof (cases rule: mstep.cases)
  case (Call c r k)
  then have "caller_ok (kern m)" using assms(2) resumes_caller_ok by (simp add: machine_inv_def)
  from apilogic_caller [OF Call(5) this] show ?thesis
    using Call(2) callerD [of k] caller_ok_resumes [of k] by (auto simp: machine_inv_def)
next
  case (Yield f cr2 k)
  from interrupt_resumes [OF Yield(4)] assms(2) have "resumes k" by (simp add: machine_inv_def)
  with resumesD [of k] show ?thesis using Yield(2) by (simp add: machine_inv_def)
next
  case (Interrupt v f cr2 k)
  from interrupt_resumes [OF Interrupt(4)] assms(2)
  have "resumes k \<or> k = save_state_full v f (kern m) \<and> 32 < v" by (auto simp: machine_inv_def)
  then show ?thesis
  proof
    assume "resumes k"
    with resumesD [of k] show ?thesis using Interrupt(2) by (simp add: machine_inv_def)
  next
    assume "k = save_state_full v f (kern m) \<and> 32 < v"
    then show ?thesis
      using Interrupt(2) assms(2) save_state_ok save_state_resumes
      by (auto simp: machine_inv_def)
  qed
qed

lemma mrun_inv: "mrun m es m' \<Longrightarrow> machine_inv m \<Longrightarrow> machine_inv m'"
  by (induction rule: mrun.induct) (auto dest: mstep_inv)

end
