(* ===== verification/Boot.thy ===== *)
theory Boot
  imports Machine
begin

text \<open>
  System initialisation: the root paging context (\<open>pcx_init\<close>, \<open>pcx_switch\<close>), the
  interrupt descriptor table (\<open>idt_init\<close>), the control block of the processor
  (\<open>ccb_new\<close>, \<open>ccb_get\<close>) and \<open>init\<close> up to the first context switch. It establishes
  the invariant of \<open>Kernel_Inv\<close>. Not modelled: the device registers of the local APIC,
  the TSS descriptor and the model-specific registers.
\<close>

subsection \<open>The root paging context\<close>

text \<open>A loop that fills entries of a table of 64-bit words.\<close>

definition write_words :: "ptr \<Rightarrow> (nat \<Rightarrow> u64) \<Rightarrow> nat list \<Rightarrow> (ptr \<Rightarrow> u64) \<Rightarrow> (ptr \<Rightarrow> u64)" where
  "write_words p f = fold (\<lambda>i m. m(p + 8 * of_nat i := f i))"

text \<open>The entries of the upper half of the root table, each with a cleared table of its own.\<close>

fun pcx_init_upper :: "nat list \<Rightarrow> kernel \<Rightarrow> kernel option" where
  "pcx_init_upper [] s = Some s"
| "pcx_init_upper (i # is) s = do {
     (pt3, s) \<leftarrow> pge_alloc s;
     let s = s\<lparr>mem := (mem s)(pcx_root s + 8 * of_nat i := (pt3 - page_base) OR PF_PRES OR PF_WRITE)\<rparr>;
     _ \<leftarrow> deref pt3;
     pcx_init_upper is (s\<lparr>mem := clear_page pt3 (mem s)\<rparr>)
   }"

definition pinion_pt2_entry :: "nat \<Rightarrow> u64" where
  "pinion_pt2_entry i =
     (if i < 256 then push_bit 21 (of_nat i) OR PF_VALID OR PF_PRES OR PF_WRITE OR PF_LARGE OR PF_GLOBL
      else (push_bit 21 (of_nat i) + 0xC0000000)
        OR PF_VALID OR PF_PRES OR PF_WRITE OR PF_LARGE OR PF_GLOBL OR PF_PCD)"

definition pcx_switch :: "ptr \<Rightarrow> kernel \<Rightarrow> kernel" where
  "pcx_switch pcx s = s\<lparr>cr3 := pcx - pmm_base s\<rparr>"

definition pcx_init :: "kernel \<Rightarrow> kernel option" where
  "pcx_init s = do {
     (root, s) \<leftarrow> pge_alloc s;
     let s = s\<lparr>pcx_root := root\<rparr>;
     _ \<leftarrow> deref root;
     let s = s\<lparr>mem := clear_page root (mem s)\<rparr>;
     s \<leftarrow> pcx_init_upper [256..<512] s;
     (pinion_pt2, s) \<leftarrow> pge_alloc s;
     _ \<leftarrow> deref pinion_pt2;
     let s = s\<lparr>mem := write_words pinion_pt2 pinion_pt2_entry [0..<512] (mem s)\<rparr>;
     let pinion_pt3 = (mem s (pcx_root s + 8 * 511) + page_base) AND NOT 0xFFF;
     let s = s\<lparr>mem := (mem s)(pinion_pt3 + 8 * 511 := (pinion_pt2 - page_base) OR PF_PRES OR PF_WRITE)\<rparr>;
     Some (pcx_switch (pcx_root s) s)
   }"

subsection \<open>The interrupt descriptor table\<close>

text \<open>
  A gate is written in four pieces; the upper half of its second word keeps what the page
  held before. \<open>handler\<close> gives the addresses of the stubs, which are linker symbols.
\<close>

definition gate_word :: "u16 \<Rightarrow> u64 \<Rightarrow> u64" where
  "gate_word type h = (h AND 0xFFFF) OR push_bit 16 0x0008 OR push_bit 32 (ucast type)
     OR push_bit 48 (drop_bit 16 h AND 0xFFFF)"

definition idt_set_vector :: "u16 \<Rightarrow> u64 \<Rightarrow> nat \<Rightarrow> kernel \<Rightarrow> kernel" where
  "idt_set_vector type h v s =
     (let g = idt s + 16 * of_nat v
      in s\<lparr>mem := (mem s)(g := gate_word type h,
            g + 8 := (mem s (g + 8) AND NOT 0xFFFFFFFF) OR drop_bit 32 h)\<rparr>)"

definition idt_set_trap_vector :: "u64 \<Rightarrow> nat \<Rightarrow> kernel \<Rightarrow> kernel" where
  "idt_set_trap_vector = idt_set_vector 0x8F01"

definition idt_set_irq_vector :: "u64 \<Rightarrow> nat \<Rightarrow> kernel \<Rightarrow> kernel" where
  "idt_set_irq_vector = idt_set_vector 0x8E01"

definition fault_vectors :: "nat list" where
  "fault_vectors = [0, 1, 2, 3, 4, 5, 6, 7, 8, 10, 11, 12, 13, 14, 16, 17, 18, 19]"

definition idt_init :: "(nat \<Rightarrow> u64) \<Rightarrow> kernel \<Rightarrow> kernel option" where
  "idt_init handler s = do {
     (page, s) \<leftarrow> pge_alloc s;
     let s = s\<lparr>idt := page\<rparr>;
     _ \<leftarrow> deref page;
     let s = fold (\<lambda>v. idt_set_trap_vector (handler v) v) fault_vectors s;
     let s = fold (\<lambda>v. idt_set_irq_vector (handler v) v) [32..<255] s;
     Some (idt_set_trap_vector (handler 255) 255 s)
   }"

subsection \<open>The processor control block\<close>

text \<open>
  The search for a free slot does not advance: with the only slot taken it spins.
\<close>

definition ccb_new :: "kernel \<Rightarrow> kernel option" where
  "ccb_new s = do {
     m \<leftarrow> mutex_acquire (ccb_table_lock s);
     let s = s\<lparr>ccb_table_lock := m\<rparr>;
     _ \<leftarrow> (if ccb_table s = 0 then Some () else None);
     (p, s) \<leftarrow> ccb_alloc s;
     let s = s\<lparr>ccb_table := p, ccb_table_lock := mutex_release (ccb_table_lock s)\<rparr>;
     _ \<leftarrow> deref p;
     Some (s\<lparr>the_ccb := (the_ccb s)\<lparr>ccb_id := 0, active_tcb := 0, active_pcx := 0, active_pcx_id := 0\<rparr>\<rparr>)
   }"

definition ccb_get :: "u64 \<Rightarrow> kernel \<Rightarrow> ptr" where
  "ccb_get n s = (if 1 \<le> n then 0 else ccb_table s)"

subsection \<open>Initialisation\<close>

definition pinion_vector_page_vtable :: interrupt_vector_page_vtable where
  "pinion_vector_page_vtable = \<lparr>on_reset = Some Pinion_on_reset, on_fire = None\<rparr>"

definition irq_vector_page_vtable :: interrupt_vector_page_vtable where
  "irq_vector_page_vtable = \<lparr>on_reset = Some Irq_on_reset, on_fire = Some Irq_on_fire\<rparr>"

definition init_kernel :: "(nat \<Rightarrow> u64) \<Rightarrow> unfold_mmap \<Rightarrow> kernel \<Rightarrow> kernel option" where
  "init_kernel handler memory_map s = do {
     s \<leftarrow> pmm_init memory_map s;
     s \<leftarrow> pcx_init s;
     s \<leftarrow> idt_init handler s;
     s \<leftarrow> ccb_new s;
     s \<leftarrow> interrupt_add_vector_page 0x0080 pinion_vector_page_vtable s;
     s \<leftarrow> interrupt_add_vector_page 0x0100 irq_vector_page_vtable s;
     (tcb, s) \<leftarrow> tcb_new s;
     s \<leftarrow> scheduler_add_tcb tcb s;
     scheduler_schedule s
   }"

subsection \<open>Initialisation establishes the invariant\<close>

text \<open>Before the first thread: at least \<open>n\<close> pages are left and nothing has been handed out.\<close>

definition early :: "nat \<Rightarrow> kernel \<Rightarrow> bool" where
  "early n s \<longleftrightarrow> mem_inv [] s \<and> tcb_table_lock s = 0 \<and> tcb_table s = (\<lambda>i. None) \<and>
     ccb_list s = 0 \<and> ccb_lock s = 0 \<and>
     unat (pmm_alloc_base s) + n * 0x1000 \<le> unat (pmm_alloc_limit s) \<and>
     run_queue [] s \<and> routed s = {} \<and> vtables_ok s \<and> st s (idle_tcb s) = TCB_STATE_FREE"

definition early_view where
  "early_view s = (mem_view s, tcb_table_lock s, ccb_list s, ccb_lock s, schedule_head s,
     schedule_tail s, interrupt_vector_page_table s)"

lemma early_cong:
  assumes "early_view t = early_view s" "early n s"
  shows "early n t"
proof -
  have v: "mem_view t = mem_view s" "tcb_table_lock t = tcb_table_lock s" "ccb_list t = ccb_list s"
    "ccb_lock t = ccb_lock s" "schedule_head t = schedule_head s" "schedule_tail t = schedule_tail s"
    "interrupt_vector_page_table t = interrupt_vector_page_table s"
    using assms(1) by (simp_all add: early_view_def)
  have w: "tcbs t = tcbs s" "tcb_table t = tcb_table s" "pmm_alloc_base t = pmm_alloc_base s"
    "pmm_alloc_limit t = pmm_alloc_limit s" "idle_tcb t = idle_tcb s"
    using v(1) by (simp_all add: mem_view_def pmm_view_def)
  have m: "mem_inv [] t" using assms(2) by (intro mem_inv_view [OF _ v(1)]) (simp add: early_def)
  have "routed t = routed s" "vtables_ok t = vtables_ok s" by (simp_all add: routed_def vtables_ok_def v)
  then show ?thesis using assms(2) m by (simp add: early_def run_queue_def v w)
qed

lemma early_mono: "early n s \<Longrightarrow> m \<le> n \<Longrightarrow> early m s"
  by (auto simp: early_def)

lemma early_room: "early (Suc n) s \<Longrightarrow> pmm_alloc_base s \<noteq> pmm_alloc_limit s"
  by (auto simp: early_def)

lemma early_step:
  assumes "early (Suc n) s"
  shows "early n (s\<lparr>pmm_alloc_base := pmm_alloc_base s + 0x1000, pmm_mutex := 0\<rparr>)"
    and "unat (pmm_alloc_base s + 0x1000) = unat (pmm_alloc_base s) + 0x1000"
proof -
  have inv: "mem_inv [] s" using assms by (simp add: early_def)
  then have ok: "pmm_ok s" by (simp add: mem_inv_def)
  note step = mem_inv_pmm_step [OF inv early_room [OF assms]]
  have "unat (pmm_alloc_limit s) < 2 ^ LENGTH(64)" by (rule unsigned_less)
  with pmm_room [OF ok early_room [OF assms]]
  show sum: "unat (pmm_alloc_base s + 0x1000) = unat (pmm_alloc_base s) + 0x1000"
    by (simp add: unat_word_ariths)
  show "early n (s\<lparr>pmm_alloc_base := pmm_alloc_base s + 0x1000, pmm_mutex := 0\<rparr>)"
    using assms step(1) sum by (simp add: early_def run_queue_def routed_def vtables_ok_def)
qed

lemma early_mem [simp]: "early n (s\<lparr>mem := m\<rparr>) = early n s"
proof -
  have "early_view (s\<lparr>mem := m\<rparr>) = early_view s" by (simp add: early_view_def mem_view_def pmm_view_def)
  then show ?thesis using early_cong [of "s\<lparr>mem := m\<rparr>" s n] early_cong [of s "s\<lparr>mem := m\<rparr>" n] by auto
qed

lemma early_pge_alloc:
  assumes "early (Suc n) s"
  shows "\<exists>t. pge_alloc s = Some (brk s, t) \<and> early n t \<and> brk s \<noteq> 0"
proof -
  have inv: "mem_inv [] s" using assms by (simp add: early_def)
  then have e: "pge_list s = 0" "pge_lock s = 0" "pmm_ok s" by (auto simp: mem_inv_def)
  let ?s1 = "s\<lparr>pmm_alloc_base := pmm_alloc_base s + 0x1000, pmm_mutex := 0\<rparr>"
  let ?t = "s\<lparr>pmm_alloc_base := pmm_alloc_base s + 0x1000, pmm_mutex := 0,
    mem := (mem s)(brk s := 0), pge_list := 0, pge_lock := 0\<rparr>"
  have "early_view ?t = early_view ?s1" using e by (simp add: early_view_def mem_view_def pmm_view_def)
  then have "early n ?t" using early_cong early_step(1) [OF assms] by blast
  then show ?thesis using pge_alloc_fresh [OF e(2,1,3) early_room [OF assms]] brk_nonzero [OF e(3)] by blast
qed

lemma early_frame [simp]:
  "early n (s\<lparr>pcx_root := p\<rparr>) = early n s" "early n (s\<lparr>cr3 := c\<rparr>) = early n s"
  "early n (s\<lparr>idt := p\<rparr>) = early n s" "early n (s\<lparr>ccb_table := p\<rparr>) = early n s"
  "early n (s\<lparr>ccb_table_lock := m\<rparr>) = early n s" "early n (s\<lparr>the_ccb := c'\<rparr>) = early n s"
proof -
  have iff: "early n t = early n s" if "early_view t = early_view s" for t
    using early_cong [OF that] early_cong [OF that [symmetric]] by blast
  show "early n (s\<lparr>pcx_root := p\<rparr>) = early n s" "early n (s\<lparr>cr3 := c\<rparr>) = early n s"
    "early n (s\<lparr>idt := p\<rparr>) = early n s" "early n (s\<lparr>ccb_table := p\<rparr>) = early n s"
    "early n (s\<lparr>ccb_table_lock := m\<rparr>) = early n s" "early n (s\<lparr>the_ccb := c'\<rparr>) = early n s"
    by (rule iff; simp add: early_view_def mem_view_def pmm_view_def)+
qed

text \<open>The parts of the state that the boot steps change one after the other.\<close>

definition boot_frame :: "kernel \<Rightarrow> kernel \<Rightarrow> bool" where
  "boot_frame s t \<longleftrightarrow> the_ccb t = the_ccb s \<and> ccb_table t = ccb_table s \<and>
     ccb_table_lock t = ccb_table_lock s \<and> idle_tcb t = idle_tcb s"

lemma boot_frame_refl [simp]: "boot_frame s s"
  by (simp add: boot_frame_def)

lemma boot_frame_trans: "boot_frame s t \<Longrightarrow> boot_frame t u \<Longrightarrow> boot_frame s u"
  by (simp add: boot_frame_def)

lemma boot_pge_alloc:
  assumes "early (Suc n) s"
  obtains p t where "pge_alloc s = Some (p, t)" "early n t" "p \<noteq> 0" "boot_frame s t"
    "pcx_root t = pcx_root s"
proof -
  have inv: "mem_inv [] s" using assms by (simp add: early_def)
  then have e: "pge_list s = 0" "pge_lock s = 0" "pmm_ok s" by (auto simp: mem_inv_def)
  from early_pge_alloc [OF assms] pge_alloc_fresh [OF e(2,1,3) early_room [OF assms]] that show ?thesis
    by (fastforce simp: boot_frame_def)
qed

lemma boot_upper:
  assumes "early (length is + n) s"
  shows "\<exists>t. pcx_init_upper is s = Some t \<and> early n t \<and> boot_frame s t \<and> pcx_root t = pcx_root s"
  using assms
proof (induction "is" arbitrary: s)
  case Nil
  then show ?case by simp
next
  case (Cons i "is")
  then have "early (Suc (length is + n)) s" by simp
  from boot_pge_alloc [OF this] obtain p t where t: "pge_alloc s = Some (p, t)"
    "early (length is + n) t" "p \<noteq> 0" "boot_frame s t" "pcx_root t = pcx_root s" by metis
  let ?u = "\<lambda>m. t\<lparr>mem := m\<rparr>"
  have u: "early (length is + n) (?u m)" "boot_frame s (?u m)" "pcx_root (?u m) = pcx_root s" for m
    using t by (simp_all add: boot_frame_def)
  from Cons.IH [OF u(1)] have "\<exists>v. pcx_init_upper is (?u m) = Some v \<and> early n v \<and>
      boot_frame s v \<and> pcx_root v = pcx_root s" for m
    using boot_frame_trans [OF u(2) [of m]] u(3) [of m] by metis
  then show ?case using t by (simp add: Let_def)
qed

lemma boot_pcx_init:
  assumes "early (258 + n) s"
  shows "\<exists>t. pcx_init s = Some t \<and> early n t \<and> boot_frame s t"
proof -
  have "early (Suc (257 + n)) s" using assms by simp
  from boot_pge_alloc [OF this] obtain root s1 where s1: "pge_alloc s = Some (root, s1)"
    "early (257 + n) s1" "root \<noteq> 0" "boot_frame s s1" by metis
  let ?s2 = "s1\<lparr>pcx_root := root, mem := clear_page root (mem s1)\<rparr>"
  have "length [256..<512] + Suc n = 257 + n" by (simp only: length_upt)
  then have "early (length [256..<512] + Suc n) ?s2" using s1(2) by (simp del: upt_rec_numeral)
  from boot_upper [OF this] obtain s3 where s3: "pcx_init_upper [256..<512] ?s2 = Some s3"
    "early (Suc n) s3" "boot_frame ?s2 s3" by blast
  from boot_pge_alloc [OF s3(2)] obtain p s4 where s4: "pge_alloc s3 = Some (p, s4)" "early n s4"
    "p \<noteq> 0" "boot_frame s3 s4" by metis
  have "boot_frame s s4"
    using s1(4) s3(3) s4(4) by (simp add: boot_frame_def)
  then show ?thesis
    using s1 s3(1) s4
    by (simp add: pcx_init_def Let_def pcx_switch_def boot_frame_def del: upt_rec_numeral)
qed

lemma boot_set_vectors:
  "early n (fold (\<lambda>v. idt_set_vector ty (h v) v) vs s) = early n s \<and>
   boot_frame s (fold (\<lambda>v. idt_set_vector ty (h v) v) vs s)"
proof (induction vs arbitrary: s)
  case Nil
  then show ?case by simp
next
  case (Cons v vs)
  have "early n (idt_set_vector ty (h v) v s) = early n s" "boot_frame s (idt_set_vector ty (h v) v s)"
    by (simp_all add: idt_set_vector_def Let_def boot_frame_def)
  with Cons.IH [of "idt_set_vector ty (h v) v s"] show ?case using boot_frame_trans by auto
qed

lemma boot_idt_init:
  assumes "early (Suc n) s"
  shows "\<exists>t. idt_init handler s = Some t \<and> early n t \<and> boot_frame s t"
proof -
  from boot_pge_alloc [OF assms] obtain p s1 where s1: "pge_alloc s = Some (p, s1)" "early n s1"
    "p \<noteq> 0" "boot_frame s s1" by metis
  let ?s2 = "fold (\<lambda>v. idt_set_vector 0x8F01 (handler v) v) fault_vectors (s1\<lparr>idt := p\<rparr>)"
  let ?s3 = "fold (\<lambda>v. idt_set_vector 0x8E01 (handler v) v) [32..<255] ?s2"
  let ?s4 = "fold (\<lambda>v. idt_set_vector 0x8F01 (handler v) v) [255] ?s3"
  have e1: "early n (s1\<lparr>idt := p\<rparr>)" using s1(2) by simp
  have e2: "early n ?s2" "boot_frame (s1\<lparr>idt := p\<rparr>) ?s2" using boot_set_vectors e1 by blast+
  have e3: "early n ?s3" "boot_frame ?s2 ?s3" using boot_set_vectors e2(1) by blast+
  have "early n ?s4" "boot_frame ?s3 ?s4" using boot_set_vectors e3(1) by blast+
  then have "early n ?s4" "boot_frame (s1\<lparr>idt := p\<rparr>) ?s4"
    using boot_frame_trans [OF boot_frame_trans [OF e2(2) e3(2)]] by blast+
  moreover have "idt_init handler s = Some ?s4"
    using s1(1,3)
    by (simp add: idt_init_def idt_set_trap_vector_def idt_set_irq_vector_def del: upt_rec_numeral)
  moreover have "boot_frame s (s1\<lparr>idt := p\<rparr>)" using s1(4) by (simp add: boot_frame_def)
  ultimately show ?thesis using boot_frame_trans by blast
qed

lemma boot_ccb_new:
  assumes "early (Suc n) s" "ccb_table s = 0" "ccb_table_lock s = 0"
  shows "\<exists>t. ccb_new s = Some t \<and> early n t \<and> active t = 0 \<and> idle_tcb t = idle_tcb s"
proof -
  have inv: "mem_inv [] s" and c: "ccb_list s = 0" "ccb_lock s = 0"
    using assms(1) by (simp_all add: early_def)
  then have ok: "pmm_ok s" by (simp add: mem_inv_def)
  note nz = brk_nonzero [OF ok] and m = pmm_ok_mutex [OF ok] and room = early_room [OF assms(1)]
  let ?s1 = "s\<lparr>pmm_alloc_base := pmm_alloc_base s + 0x1000, pmm_mutex := 0\<rparr>"
  let ?t = "?s1\<lparr>mem := (mem s)(brk s := 0), ccb_list := 0, ccb_lock := 0, ccb_table := brk s,
    ccb_table_lock := 0, the_ccb := (the_ccb s)\<lparr>ccb_id := 0, active_tcb := 0, active_pcx := 0,
      active_pcx_id := 0\<rparr>\<rparr>"
  have "ccb_new s = Some ?t"
    using assms(2,3) c nz m room
    by (simp add: ccb_new_def ccb_alloc_def allocator_alloc_def ccb_allocator_def allocator_pop_def
        allocator_release_def Let_def pmm_alloc_page brk_def)
  moreover have "early_view ?t = early_view ?s1" using c by (simp add: early_view_def mem_view_def pmm_view_def)
  then have "early n ?t" using early_cong early_step(1) [OF assms(1)] by blast
  ultimately show ?thesis by simp
qed

lemma boot_vector_page:
  assumes "early (Suc n) s" "on_fire vt \<noteq> Some Pinion_on_reset"
    and "unat (drop_bit 7 v) < INTERRUPT_VECTOR_PAGES"
  shows "\<exists>t. interrupt_add_vector_page v vt s = Some t \<and> early n t \<and> active t = active s \<and>
    idle_tcb t = idle_tcb s"
proof -
  from boot_pge_alloc [OF assms(1)] obtain p s1 where s1: "pge_alloc s = Some (p, s1)" "early n s1"
    "p \<noteq> 0" "boot_frame s s1" by metis
  let ?t = "s1\<lparr>interrupt_vector_page_table := (interrupt_vector_page_table s1)
       (unat (drop_bit 7 v) := \<lparr>route = Some (\<lambda>i j. 0), vtable = Some vt\<rparr>)\<rparr>"
  have "interrupt_add_vector_page v vt s = Some ?t"
    using s1(1,3) assms(3) by (simp add: interrupt_add_vector_page_def Let_def)
  moreover have "early n ?t"
  proof -
    have "mem_inv [] ?t"
      by (rule mem_inv_view [of _ s1]) (use s1(2) in \<open>simp_all add: early_def mem_view_def pmm_view_def\<close>)
    moreover have "routed ?t \<subseteq> routed s1" by (auto simp: routed_def split: if_splits)
    moreover have "vtables_ok ?t"
      using s1(2) assms(2) by (auto simp: early_def vtables_ok_def)
    ultimately show ?thesis using s1(2) by (auto simp: early_def run_queue_def)
  qed
  ultimately show ?thesis using s1(4) by (simp add: boot_frame_def)
qed

text \<open>What \<open>pmm_init\<close> changes.\<close>

definition no_map :: pmm_map where
  "no_map = \<lparr>map_count = 0, map_entry = (\<lambda>i. \<lparr>entry_base = 0, entry_size = 0\<rparr>)\<rparr>"

definition not_map :: "kernel \<Rightarrow> kernel" where
  "not_map s = s\<lparr>pmm_map_low := no_map, pmm_map_high := no_map\<rparr>"

lemma not_map_upd [simp]:
  "not_map (s\<lparr>pmm_map_low := m\<rparr>) = not_map s" "not_map (s\<lparr>pmm_map_high := m\<rparr>) = not_map s"
  by (simp_all add: not_map_def)

lemma set_map_not_map:
  "set_low_base i b s = Some t \<Longrightarrow> not_map t = not_map s"
  "set_low_size i b s = Some t \<Longrightarrow> not_map t = not_map s"
  "set_high_entry i b z s = Some t \<Longrightarrow> not_map t = not_map s"
  "not_map (set_low_count n s) = not_map s" "not_map (set_high_count n s) = not_map s"
  by (auto simp: set_low_base_def set_low_size_def set_high_entry_def set_low_count_def
      set_high_count_def bind_eq_Some_conv)

lemma fill_low_not_map: "pmm_fill_low mm i s = Some (a, b, t) \<Longrightarrow> not_map t = not_map s"
proof (induction mm i s arbitrary: a b t rule: pmm_fill_low.induct)
  case (1 mm i s)
  then show ?case
    unfolding pmm_fill_low.simps [of mm i s]
    by (fastforce simp: bind_eq_Some_conv set_map_not_map(4) dest: set_map_not_map(1,2,3) split: if_splits)
qed

lemma fill_high_not_map: "pmm_fill_high mm i j s = Some (a, t) \<Longrightarrow> not_map t = not_map s"
proof (induction mm i j s arbitrary: a t rule: pmm_fill_high.induct)
  case (1 mm i j s)
  then show ?case
    unfolding pmm_fill_high.simps [of mm i j s]
    by (fastforce simp: bind_eq_Some_conv dest: set_map_not_map(3) split: if_splits)
qed

lemma not_mapD:
  assumes "not_map t = not_map s"
  shows "mem_view t = mem_view s" "early_view t = early_view s" "the_ccb t = the_ccb s"
    "ccb_table t = ccb_table s" "ccb_table_lock t = ccb_table_lock s" "idle_tcb t = idle_tcb s"
    "image_base t = image_base s" "image_limit t = image_limit s"
proof -
  have "mem_view (not_map u) = mem_view u" "early_view (not_map u) = early_view u"
    "the_ccb (not_map u) = the_ccb u" "ccb_table (not_map u) = ccb_table u"
    "ccb_table_lock (not_map u) = ccb_table_lock u" "idle_tcb (not_map u) = idle_tcb u"
    "image_base (not_map u) = image_base u" "image_limit (not_map u) = image_limit u" for u
    by (simp_all add: not_map_def mem_view_def early_view_def pmm_view_def)
  then show "mem_view t = mem_view s" "early_view t = early_view s" "the_ccb t = the_ccb s"
    "ccb_table t = ccb_table s" "ccb_table_lock t = ccb_table_lock s" "idle_tcb t = idle_tcb s"
    "image_base t = image_base s" "image_limit t = image_limit s"
    using assms by metis+
qed

text \<open>
  The state of the static variables when \<open>init\<close> starts (\<open>.bss\<close> is zero), and an image
  and a memory size for which the kernel's area lies in the top gigabyte and has room for
  the 264 pages that initialisation takes.
\<close>

definition boot_state :: "kernel \<Rightarrow> bool" where
  "boot_state s \<longleftrightarrow> pmm_mutex s = 0 \<and> tcb_list s = 0 \<and> tcb_lock s = 0 \<and> ccb_list s = 0 \<and>
     ccb_lock s = 0 \<and> pge_list s = 0 \<and> pge_lock s = 0 \<and> tcb_table s = (\<lambda>i. None) \<and>
     tcb_table_lock s = 0 \<and> schedule_head s = 0 \<and> schedule_tail s = 0 \<and>
     ccb_table s = 0 \<and> ccb_table_lock s = 0 \<and> st s (idle_tcb s) = TCB_STATE_FREE \<and>
     interrupt_vector_page_table s = (\<lambda>k. \<lparr>route = None, vtable = None\<rparr>)"

definition boot_room :: "unfold_mmap \<Rightarrow> kernel \<Rightarrow> bool" where
  "boot_room mm s \<longleftrightarrow>
     (let (base, limit) = get_pinion_range s; area = base - 0x200000; cut = pmm_cutoff (mmap_total mm)
      in page_base \<le> area \<and> page_base \<le> idle_tcb s \<and> idle_tcb s < limit \<and>
         unat (limit - area) + unat area = unat limit \<and>
         unat area + unat cut < 2 ^ 64 \<and> unat (limit - area) + 264 * 0x1000 \<le> unat cut)"

lemma pinion_range_aligned:
  "take_bit 12 (fst (get_pinion_range s)) = 0" "take_bit 12 (snd (get_pinion_range s)) = 0"
  "take_bit 12 (pmm_cutoff tot) = 0"
proof -
  have m: "take_bit 12 (NOT 0xFFF :: u64) = 0" "take_bit 12 (0xFFFFFFFFFF800000 :: u64) = 0" by simp_all
  show "take_bit 12 (fst (get_pinion_range s)) = 0" "take_bit 12 (snd (get_pinion_range s)) = 0"
    "take_bit 12 (pmm_cutoff tot) = 0"
    unfolding get_pinion_range_def pmm_cutoff_def fst_conv snd_conv
    by (intro page_aligned_neg page_aligned_mask m)+
qed

lemma boot_pmm_init:
  assumes "boot_state s" "boot_room mm s" "pmm_init mm s \<noteq> None"
  shows "\<exists>t. pmm_init mm s = Some t \<and> early 264 t \<and> ccb_table t = 0 \<and> ccb_table_lock t = 0 \<and>
    idle_tcb t = idle_tcb s"
proof -
  obtain base limit where range: "get_pinion_range s = (base, limit)" by fastforce
  let ?area = "base - 0x200000" and ?cut = "pmm_cutoff (mmap_total mm)"
  let ?u = "s\<lparr>pmm_base := ?area, pmm_map_cutoff := ?cut, pmm_alloc_base := limit - ?area,
    pmm_alloc_limit := ?cut\<rparr>"
  from assms(3) obtain t where t: "pmm_init mm s = Some t" by blast
  have nm: "not_map t = not_map ?u"
    using t fill_low_not_map fill_high_not_map set_map_not_map(5)
    by (fastforce simp: pmm_init_def range Let_def bind_eq_Some_conv)
  have room: "page_base \<le> ?area" "page_base \<le> idle_tcb s" "idle_tcb s < limit"
    "unat (limit - ?area) + unat ?area = unat limit" "unat ?area + unat ?cut < 2 ^ 64"
    "unat (limit - ?area) + 264 * 0x1000 \<le> unat ?cut"
    using assms(2) by (simp_all add: boot_room_def range Let_def)
  have al: "take_bit 12 base = 0" "take_bit 12 limit = 0" "take_bit 12 ?cut = 0"
    using pinion_range_aligned(1,2) [of s] pinion_range_aligned(3) by (simp_all add: range)
  have al2: "take_bit 12 ?area = 0" by (rule page_aligned_arith(2) [OF al(1)]) simp
  then have al3: "take_bit 12 (limit - ?area) = 0" by (rule page_aligned_arith(2) [OF al(2)])
  have ok: "pmm_ok ?u"
    using room al2 al3 al(3) assms(1)
    by (simp add: pmm_ok_def boot_state_def page_aligned_iff page_base_def word_le_nat_alt)
  have b: "brk ?u = limit" by (simp add: brk_def)
  have e0: "tcb_entry ?u k = 0" for k using assms(1) by (simp add: tcb_entry_def boot_state_def)
  then have lv: "live ?u = {}" by (simp add: live_def)
  have "mem_inv [] ?u"
    using ok assms(1) room(2,3) e0 lv
    by (simp add: mem_inv_def boot_state_def block_def b page_base_def word_less_nat_alt)
  then have "early 264 ?u"
    using assms(1) room(6)
    by (simp add: early_def boot_state_def run_queue_def routed_def vtables_ok_def)
  then have "early 264 t" using early_cong [OF not_mapD(2) [OF nm]] by blast
  then show ?thesis
    using t assms(1) not_mapD(4,5,6) [OF nm] by (simp add: boot_state_def)
qed

lemma early_tcb_new:
  assumes "early (Suc (Suc n)) s"
  shows "\<exists>t. tcb_new s = Some (brk s, t) \<and> brk s \<noteq> 0"
proof -
  have inv: "mem_inv [] s" and tab: "tcb_table s = (\<lambda>i. None)" "tcb_table_lock s = 0"
    using assms by (simp_all add: early_def)
  then have e: "pge_list s = 0" "pge_lock s = 0" "tcb_list s = 0" "tcb_lock s = 0" "pmm_ok s"
    by (auto simp: mem_inv_def)
  note nz = brk_nonzero [OF e(5)] and step = early_step(1) [OF assms]
  let ?s1 = "(upd_tcb (brk s) (tcb_set_word0 0) s)\<lparr>pmm_alloc_base := pmm_alloc_base s + 0x1000,
      pmm_mutex := 0, tcb_list := 0, tcb_lock := 0\<rparr>"
  have a1: "tcb_alloc s = Some (brk s, ?s1)"
    by (rule tcb_alloc_fresh [OF e(4,3,5) early_room [OF assms]])
  let ?s2 = "?s1\<lparr>tcb_table_lock := 1\<rparr>"
  have "early (Suc n) (s\<lparr>pmm_alloc_base := pmm_alloc_base s + 0x1000, pmm_mutex := 0\<rparr>)" by (rule step)
  then have "pmm_ok (s\<lparr>pmm_alloc_base := pmm_alloc_base s + 0x1000, pmm_mutex := 0\<rparr>)"
    "pmm_alloc_base s + 0x1000 \<noteq> pmm_alloc_limit s"
    using early_room [OF step] by (simp_all add: early_def mem_inv_def)
  then have ok2: "pmm_ok ?s2" and room2: "pmm_alloc_base ?s2 \<noteq> pmm_alloc_limit ?s2"
    by (simp_all add: pmm_ok_def)
  have l2: "pge_lock ?s2 = 0" "pge_list ?s2 = 0" using e by simp_all
  obtain s3 where a3: "pge_alloc ?s2 = Some (brk ?s2, s3)" "tcb_table s3 = tcb_table ?s2"
    using pge_alloc_fresh [OF l2 ok2 room2] by simp
  have nz2: "brk ?s2 \<noteq> 0" by (rule brk_nonzero [OF ok2])
  have sub: "tcb_subtable 1 ?s2 = Some (True, s3\<lparr>tcb_table := (tcb_table s3)(0 := Some (\<lambda>j. 0))\<rparr>)"
    using a3 nz2 tab(1) by (simp add: tcb_subtable_def)
  have "tcb_entry (s3\<lparr>tcb_table := (tcb_table s3)(0 := Some (\<lambda>j. 0))\<rparr>) 1 = 0"
    by (simp add: tcb_entry_def)
  then have "\<exists>t. tcb_new_search 1 (brk s) ?s2 = Some (brk s, t)"
    unfolding tcb_new_search.simps [of 1 "brk s" ?s2] using sub by (simp add: TCB_LIMIT_def)
  then show ?thesis using a1 nz tab(2) by (auto simp: tcb_new_def)
qed

text \<open>The first thread: created, queued although it is suspended, and switched to.\<close>

lemma first_thread:
  assumes "early (Suc (Suc n)) s" "active s = 0"
  shows "\<exists>p t u F. tcb_new s = Some (p, t) \<and> scheduler_add_tcb p t = Some u \<and>
    (\<exists>v. scheduler_schedule u = Some v \<and> kernel_inv [] F v \<and> vtables_ok v \<and> active v = p \<and>
      live v = {p} \<and> st v p = TCB_STATE_RUNNING \<and> tcb_id (tcbs v p) = 1)"
proof -
  have inv: "mem_inv [] s" and tab: "tcb_table s = (\<lambda>i. None)" "tcb_table_lock s = 0"
    and rq: "run_queue [] s" and ro: "routed s = {}" and vt: "vtables_ok s"
    and idle: "st s (idle_tcb s) = TCB_STATE_FREE"
    using assms(1) by (simp_all add: early_def)
  have e0: "tcb_entry s k = 0" for k using tab(1) by (simp add: tcb_entry_def)
  then have lv0: "live s = {}" by (simp add: live_def)
  from early_tcb_new [OF assms(1)] obtain t0 where new0: "tcb_new s = Some (brk s, t0)" "brk s \<noteq> 0" by blast
  obtain p k t F where t: "tcb_new s = Some (p, t)"
    "mem_inv F t" "mem_step p [] s F t" "p \<noteq> idle_tcb s" "p \<noteq> 0" "tcb_table_lock t = 0"
    "0 < k" "\<forall>j. 0 < j \<and> j < k \<longrightarrow> tcb_entry s j \<noteq> 0" "live t = insert p (live s)"
    "st t p = TCB_STATE_SUSPENDED" "tcb_id (tcbs t p) = of_nat k"
  proof (rule tcb_new_spec [OF inv tab(2)])
    fix p t F assume "tcb_new s = Some (0, t)"
    with new0 show ?thesis by simp
  next
    fix p k t F
    assume "tcb_new s = Some (p, t)" "mem_inv F t" "mem_step p [] s F t" "p \<noteq> idle_tcb s" "p \<noteq> 0"
      "tcb_table_lock t = 0" "0 < k" "\<forall>j. 0 < j \<and> j < k \<longrightarrow> tcb_entry s j \<noteq> 0"
      "live t = insert p (live s)" "st t p = TCB_STATE_SUSPENDED" "tcb_id (tcbs t p) = of_nat k"
    then show ?thesis by (rule that)
  qed
  have k: "k = 1" using t(7,8) e0 by (metis less_one nat_neq_iff)
  have out: "outside t = outside s" and same: "\<And>q. q \<noteq> p \<Longrightarrow> tcbs t q = tcbs s q"
    using t(3) by (simp_all add: mem_step_def)
  note O = outsideD [OF out]
  have "run_queue [] t" using rq by (simp add: run_queue_def O)
  from push_spec [OF this t(5)] obtain u where u: "scheduler_push_tcb p t = Some u"
    "run_queue [p] u" "no_sched u = no_sched t" by auto
  note N = no_sched_step [OF u(3)]
  have au: "active u = 0" using N(2) O(1) assms(2) by simp
  then have nq: "active u \<noteq> 0 \<longrightarrow> active u \<notin> set [p]" by simp
  from schedule_spec [OF u(2) nq] au obtain v where v: "scheduler_schedule u = Some v"
    "thread_step {0, p} u v" "active v = p" "run_queue [] v"
    "st v = (st u)(p := TCB_STATE_RUNNING)" by auto
  have stv: "st v q = ((st t)(p := TCB_STATE_RUNNING)) q" for q
    using fun_cong [OF v(5), of q] N(1) [of q] by simp
  have fx: "fixed v = fixed u" using v(2) by (simp add: thread_step_def)
  note FX = fixedD [OF fx]
  have pl: "live t = {p}" using t(9) lv0 by simp
  then have lv: "live v = {p}" using FX(5) N(3) by simp
  have pF: "{0, p} \<inter> set F = {}" using t(2) pl block_nonzero by (auto simp: mem_inv_def)
  have idv: "idle_tcb v = idle_tcb s" using FX(2) N(8) O(2) by simp
  have "mem_inv F u" by (rule mem_inv_no_sched [OF t(2) u(3)])
  then have mv: "mem_inv F v" by (rule mem_inv_thread_step [OF _ v(2) pF])
  have ro': "interrupt_vector_page_table v = interrupt_vector_page_table s"
    using FX(4) N(4) O(8) by simp
  have "st v (idle_tcb s) = TCB_STATE_FREE" using stv t(4) same [of "idle_tcb s"] idle by simp
  moreover have "st v p = TCB_STATE_RUNNING" using stv [of p] by simp
  ultimately have "{q \<in> threads v. st v q = TCB_STATE_QUEUED} = {}"
    unfolding threads_def lv idv by auto
  moreover have "routed v = {}" using ro by (simp add: routed_def ro')
  ultimately have "kernel_inv [] F v"
    using mv v(3,4) t(5,6) lv stv [of p] no_schedD(3) [OF u(3)] FX(3)
    by (simp add: kernel_inv_def threads_def)
  moreover have "tcb_id (tcbs v p) = 1"
    using v(2) N(6) [of p] t(11) k by (simp add: thread_step_def)
  moreover have "vtables_ok v" using vt vtables_ok_cong [OF ro'] by simp
  ultimately show ?thesis
    using t(1) u(1) v(1,3) lv stv [of p] by (auto simp: scheduler_add_tcb_def)
qed

lemma init_spec:
  assumes "boot_state s" "boot_room mm s" "pmm_init mm s \<noteq> None"
  shows "\<exists>v F. init_kernel handler mm s = Some v \<and> kernel_inv [] F v \<and> vtables_ok v \<and>
    active v \<noteq> 0 \<and> live v = {active v} \<and> st v (active v) = TCB_STATE_RUNNING \<and>
    tcb_id (tcbs v (active v)) = 1"
proof -
  from boot_pmm_init [OF assms] obtain s1 where s1: "pmm_init mm s = Some s1" "early 264 s1"
    "ccb_table s1 = 0" "ccb_table_lock s1 = 0" by blast
  have "early (258 + 6) s1" using s1(2) by simp
  from boot_pcx_init [OF this] obtain s2 where s2: "pcx_init s1 = Some s2" "early 6 s2" "boot_frame s1 s2"
    by blast
  have "early (Suc 5) s2" using s2(2) by simp
  from boot_idt_init [OF this] obtain s3 where s3: "idt_init handler s2 = Some s3" "early 5 s3"
    "boot_frame s2 s3" by blast
  have "early (Suc 4) s3" "ccb_table s3 = 0" "ccb_table_lock s3 = 0"
    using s3 s2(3) s1 by (simp_all add: boot_frame_def)
  from boot_ccb_new [OF this] obtain s4 where s4: "ccb_new s3 = Some s4" "early 4 s4" "active s4 = 0"
    by blast
  have e4: "early (Suc 3) s4" using s4(2) by simp
  have v1: "on_fire pinion_vector_page_vtable \<noteq> Some Pinion_on_reset"
    "on_fire irq_vector_page_vtable \<noteq> Some Pinion_on_reset"
    by (simp_all add: pinion_vector_page_vtable_def irq_vector_page_vtable_def)
  have b: "unat (drop_bit 7 (0x0080 :: u16)) < INTERRUPT_VECTOR_PAGES"
    "unat (drop_bit 7 (0x0100 :: u16)) < INTERRUPT_VECTOR_PAGES"
    by (simp_all add: INTERRUPT_VECTOR_PAGES_def)
  from boot_vector_page [OF e4 v1(1) b(1)] obtain s5 where s5:
    "interrupt_add_vector_page 0x0080 pinion_vector_page_vtable s4 = Some s5" "early 3 s5"
    "active s5 = 0" using s4(3) by auto
  have e5: "early (Suc 2) s5" using s5(2) by simp
  from boot_vector_page [OF e5 v1(2) b(2)] obtain s6 where s6:
    "interrupt_add_vector_page 0x0100 irq_vector_page_vtable s5 = Some s6" "early 2 s6"
    "active s6 = 0" using s5(3) by auto
  have "early (Suc (Suc 0)) s6" using s6(2) by (simp add: numeral_2_eq_2)
  from first_thread [OF this s6(3)] obtain p t u v F where f: "tcb_new s6 = Some (p, t)"
    "scheduler_add_tcb p t = Some u" "scheduler_schedule u = Some v" "kernel_inv [] F v" "vtables_ok v"
    "active v = p" "live v = {p}" "st v p = TCB_STATE_RUNNING" "tcb_id (tcbs v p) = 1" by blast
  have "init_kernel handler mm s = Some v"
    using s1(1) s2(1) s3(1) s4(1) s5(1) s6(1) f(1-3) by (simp add: init_kernel_def)
  moreover have "p \<noteq> 0" using f(7) live_nonzero by auto
  ultimately show ?thesis using f(4-9) by auto
qed

end
