(* ===== verification/Vectors.thy ===== *)
theory Vectors
  imports Kernel_Ops
begin

text \<open>
  What a fired vector does, exactly: every block that is routed to it and has it in a tap is
  flagged in that tap, woken if it waits, and handed the vector in \<open>rax\<close>; nothing else
  changes.
\<close>

definition taps :: "u16 \<Rightarrow> kernel \<Rightarrow> ptr \<Rightarrow> bool" where
  "taps vec s p \<longleftrightarrow> (\<exists>j < TAP_COUNT. tcb_tap (tcbs s p) j AND 0x3FFF = vec)"

definition flagged :: "u16 \<Rightarrow> kernel \<Rightarrow> ptr \<Rightarrow> bool" where
  "flagged vec s p \<longleftrightarrow>
     (\<exists>j < TAP_COUNT. tcb_tap (tcbs s p) j AND 0x3FFF = vec \<and> tcb_tap (tcbs s p) j AND 0x8000 \<noteq> 0)"

definition woken :: "u16 \<Rightarrow> u16" where
  "woken v = (if v = TCB_STATE_WAITING then TCB_STATE_QUEUED
     else if v = TCB_STATE_SUSPENDEDWAITING then TCB_STATE_SUSPENDED else v)"

lemma woken_idem [simp]: "woken (woken v) = woken v"
  by (simp add: woken_def)

definition routes :: "u16 \<Rightarrow> kernel \<Rightarrow> ptr list" where
  "routes vec s =
     (case route (interrupt_vector_page_table s (unat (drop_bit 7 vec))) of
        None \<Rightarrow> []
      | Some r \<Rightarrow> map (r (unat (vec AND 0x7F))) [0..<TAP_COUNT])"

text \<open>\<open>fired vec P s t\<close>: the effect of the vector on the blocks of \<open>P\<close>.\<close>

definition fired :: "u16 \<Rightarrow> ptr set \<Rightarrow> kernel \<Rightarrow> kernel \<Rightarrow> bool" where
  "fired vec P s t \<longleftrightarrow> (\<forall>q.
     st t q = (if q \<in> P \<and> taps vec s q then woken (st s q) else st s q) \<and>
     taps vec t q = taps vec s q \<and>
     (flagged vec t q \<longleftrightarrow> flagged vec s q \<or> (q \<in> P \<and> taps vec s q)) \<and>
     (q \<in> P \<and> taps vec s q \<and> woken (st s q) \<noteq> st s q \<longrightarrow> tcb_rax (tcbs t q) = ucast vec) \<and>
     (q \<notin> P \<or> \<not> taps vec s q \<longrightarrow> tcb_tap (tcbs t q) = tcb_tap (tcbs s q) \<and>
        tcb_rax (tcbs t q) = tcb_rax (tcbs s q)) \<and>
     (woken (st s q) = st s q \<longrightarrow> tcb_rax (tcbs t q) = tcb_rax (tcbs s q)))"

lemma fired_refl: "P = {} \<Longrightarrow> fired vec P s s"
  by (simp add: fired_def)

lemma tap_flag:
  fixes x :: u16
  shows "(x OR 0x8000) AND 0x3FFF = x AND 0x3FFF" "(x OR 0x8000) AND 0x8000 \<noteq> 0"
proof -
  have "(x OR 0x8000) AND 0x3FFF = (x AND 0x3FFF) OR (0x8000 AND 0x3FFF)" by (rule bit.conj_disj_distrib2)
  then show "(x OR 0x8000) AND 0x3FFF = x AND 0x3FFF" by simp
  have "(x OR 0x8000) AND 0x8000 = 0x8000" by (simp add: bit.conj_disj_distrib2 bit_eq_iff bit_simps)
  then show "(x OR 0x8000) AND 0x8000 \<noteq> 0" by simp
qed

lemma fired_one:
  assumes j: "j < TAP_COUNT" "tcb_tap (tcbs s p) j AND 0x3FFF = vec"
    and tap: "tcb_tap (tcbs t p) = (tcb_tap (tcbs s p))(j := tcb_tap (tcbs s p) j OR 0x8000)"
    and st: "st t p = woken (st s p)"
    and rax: "tcb_rax (tcbs t p) = (if woken (st s p) = st s p then tcb_rax (tcbs s p) else ucast vec)"
    and other: "\<And>q. q \<noteq> p \<Longrightarrow> st t q = st s q \<and> tcb_tap (tcbs t q) = tcb_tap (tcbs s q) \<and>
      tcb_rax (tcbs t q) = tcb_rax (tcbs s q)"
  shows "fired vec {p} s t"
proof -
  have same: "tcb_tap (tcbs t p) i AND 0x3FFF = tcb_tap (tcbs s p) i AND 0x3FFF" for i
    using tap tap_flag(1) by simp
  have taps: "taps vec s p" "taps vec t p" using j same unfolding taps_def by auto
  have "tcb_tap (tcbs t p) j AND 0x8000 \<noteq> 0" using tap tap_flag(2) by simp
  then have flag: "flagged vec t p" using j same unfolding flagged_def by auto
  show ?thesis
    unfolding fired_def
  proof (intro allI)
    fix q show "st t q = (if q \<in> {p} \<and> taps vec s q then woken (st s q) else st s q) \<and>
      taps vec t q = taps vec s q \<and> (flagged vec t q \<longleftrightarrow> flagged vec s q \<or> (q \<in> {p} \<and> taps vec s q)) \<and>
      (q \<in> {p} \<and> taps vec s q \<and> woken (st s q) \<noteq> st s q \<longrightarrow> tcb_rax (tcbs t q) = ucast vec) \<and>
      (q \<notin> {p} \<or> \<not> taps vec s q \<longrightarrow> tcb_tap (tcbs t q) = tcb_tap (tcbs s q) \<and>
        tcb_rax (tcbs t q) = tcb_rax (tcbs s q)) \<and>
      (woken (st s q) = st s q \<longrightarrow> tcb_rax (tcbs t q) = tcb_rax (tcbs s q))"
    proof (cases "q = p")
      case True
      then show ?thesis using taps flag st rax by simp
    next
      case False
      with other [OF False] show ?thesis by (simp add: taps_def flagged_def)
    qed
  qed
qed

lemma push_no_sched: "scheduler_push_tcb p s = Some t \<Longrightarrow> no_sched t = no_sched s"
  by (auto simp: scheduler_push_tcb_def bind_eq_Some_conv Let_def no_sched_def upd_tcb_def fun_eq_iff)

lemma no_sched_rax: "no_sched t = no_sched s \<Longrightarrow> tcb_rax (tcbs t p) = tcb_rax (tcbs s p)"
  using no_sched_fields by blast

lemma set_state_rax [simp]: "tcb_rax (tcbs (set_state p v s) q) = tcb_rax (tcbs s q)"
  by (simp add: set_state_def)

lemma notify_fired:
  assumes "interrupt_notify vec p s = Some t"
  shows "fired vec {p} s t"
proof (cases "find (\<lambda>j. tcb_tap (tcbs s p) j AND 0x3FFF = vec) [0..<TAP_COUNT]")
  case None
  then have "\<not> taps vec s p" by (auto simp: find_None_iff taps_def)
  moreover have "t = s" using assms None by (simp add: interrupt_notify_def)
  ultimately show ?thesis by (auto simp: fired_def)
next
  case (Some j)
  then have j: "j < TAP_COUNT" "tcb_tap (tcbs s p) j AND 0x3FFF = vec" by (auto simp: find_Some_iff)
  let ?s1 = "upd_tcb p (\<lambda>t. t\<lparr>tcb_tap := (tcb_tap t)(j := tcb_tap t j OR 0x8000)\<rparr>) s"
  let ?rax = "upd_tcb p (\<lambda>t. t\<lparr>tcb_rax := ucast vec\<rparr>)"
  have st1: "st ?s1 q = st s q" for q by simp
  consider (w) "st s p = TCB_STATE_WAITING" | (sw) "st s p = TCB_STATE_SUSPENDEDWAITING"
    | (o) "st s p \<noteq> TCB_STATE_WAITING" "st s p \<noteq> TCB_STATE_SUSPENDEDWAITING" by blast
  then show ?thesis
  proof cases
    case w
    then obtain u where u: "scheduler_push_tcb p ?s1 = Some u"
      "t = ?rax (set_state p TCB_STATE_QUEUED u)"
      using assms Some by (auto simp: interrupt_notify_def scheduler_add_tcb_def Let_def bind_eq_Some_conv)
    note ns = push_no_sched [OF u(1)]
    have stu: "st (set_state p TCB_STATE_QUEUED u) q = ((st s)(p := TCB_STATE_QUEUED)) q" for q
      using fun_cong [OF st_set_state [of p TCB_STATE_QUEUED u], of q] no_sched_step(1) [OF ns, of q] by simp
    show ?thesis
      by (rule fired_one [OF j])
         (use u(2) w stu no_sched_step(5) [OF ns] no_sched_rax [OF ns] in \<open>auto simp: woken_def\<close>)
  next
    case sw
    then have t: "t = ?rax (set_state p TCB_STATE_SUSPENDED ?s1)"
      using assms Some by (auto simp: interrupt_notify_def Let_def)
    have stu: "st (set_state p TCB_STATE_SUSPENDED ?s1) q = ((st s)(p := TCB_STATE_SUSPENDED)) q" for q
      using fun_cong [OF st_set_state [of p TCB_STATE_SUSPENDED ?s1], of q] by simp
    show ?thesis
      by (rule fired_one [OF j]) (use t sw stu in \<open>auto simp: woken_def\<close>)
  next
    case o
    then have t: "t = ?s1" using assms Some by (auto simp: interrupt_notify_def Let_def)
    show ?thesis
      by (rule fired_one [OF j]) (use t o in \<open>auto simp: woken_def\<close>)
  qed
qed

lemma fired_trans:
  assumes "fired vec P s t" "fired vec Q t u"
  shows "fired vec (P \<union> Q) s u"
  unfolding fired_def
proof (intro allI)
  fix q
  from assms(1) have t: "st t q = (if q \<in> P \<and> taps vec s q then woken (st s q) else st s q)"
    "taps vec t q = taps vec s q" "flagged vec t q \<longleftrightarrow> flagged vec s q \<or> (q \<in> P \<and> taps vec s q)"
    "q \<in> P \<and> taps vec s q \<and> woken (st s q) \<noteq> st s q \<longrightarrow> tcb_rax (tcbs t q) = ucast vec"
    "q \<notin> P \<or> \<not> taps vec s q \<longrightarrow> tcb_tap (tcbs t q) = tcb_tap (tcbs s q) \<and>
        tcb_rax (tcbs t q) = tcb_rax (tcbs s q)"
    "woken (st s q) = st s q \<longrightarrow> tcb_rax (tcbs t q) = tcb_rax (tcbs s q)"
    unfolding fired_def by blast+
  from assms(2) have u: "st u q = (if q \<in> Q \<and> taps vec t q then woken (st t q) else st t q)"
    "taps vec u q = taps vec t q" "flagged vec u q \<longleftrightarrow> flagged vec t q \<or> (q \<in> Q \<and> taps vec t q)"
    "q \<in> Q \<and> taps vec t q \<and> woken (st t q) \<noteq> st t q \<longrightarrow> tcb_rax (tcbs u q) = ucast vec"
    "q \<notin> Q \<or> \<not> taps vec t q \<longrightarrow> tcb_tap (tcbs u q) = tcb_tap (tcbs t q) \<and>
        tcb_rax (tcbs u q) = tcb_rax (tcbs t q)"
    "woken (st t q) = st t q \<longrightarrow> tcb_rax (tcbs u q) = tcb_rax (tcbs t q)"
    unfolding fired_def by blast+
  show "st u q = (if q \<in> P \<union> Q \<and> taps vec s q then woken (st s q) else st s q) \<and>
      taps vec u q = taps vec s q \<and>
      (flagged vec u q \<longleftrightarrow> flagged vec s q \<or> (q \<in> P \<union> Q \<and> taps vec s q)) \<and>
      (q \<in> P \<union> Q \<and> taps vec s q \<and> woken (st s q) \<noteq> st s q \<longrightarrow> tcb_rax (tcbs u q) = ucast vec) \<and>
      (q \<notin> P \<union> Q \<or> \<not> taps vec s q \<longrightarrow> tcb_tap (tcbs u q) = tcb_tap (tcbs s q) \<and>
        tcb_rax (tcbs u q) = tcb_rax (tcbs s q)) \<and>
      (woken (st s q) = st s q \<longrightarrow> tcb_rax (tcbs u q) = tcb_rax (tcbs s q))"
  proof (intro conjI)
    show "st u q = (if q \<in> P \<union> Q \<and> taps vec s q then woken (st s q) else st s q)"
      using t(1,2) u(1) by simp
    show "taps vec u q = taps vec s q" using t(2) u(2) by simp
    show "flagged vec u q \<longleftrightarrow> flagged vec s q \<or> (q \<in> P \<union> Q \<and> taps vec s q)"
      using t(2,3) u(3) by auto
    show "q \<in> P \<union> Q \<and> taps vec s q \<and> woken (st s q) \<noteq> st s q \<longrightarrow> tcb_rax (tcbs u q) = ucast vec"
      using t(1,2,4) u(4,5,6) by (cases "q \<in> P") (auto split: if_splits)
    show "q \<notin> P \<union> Q \<or> \<not> taps vec s q \<longrightarrow> tcb_tap (tcbs u q) = tcb_tap (tcbs s q) \<and>
        tcb_rax (tcbs u q) = tcb_rax (tcbs s q)"
      using t(2,5) u(5) by auto
    show "woken (st s q) = st s q \<longrightarrow> tcb_rax (tcbs u q) = tcb_rax (tcbs s q)"
      using t(1,6) u(6) by (auto split: if_splits)
  qed
qed

lemma notify_all_fired:
  "interrupt_notify_all vec ps s = Some t \<Longrightarrow> fired vec (set ps - {0}) s t"
proof (induction ps arbitrary: s)
  case Nil
  then show ?case by (simp add: fired_refl)
next
  case (Cons p ps)
  show ?case
  proof (cases "p = 0")
    case True
    then show ?thesis using Cons by simp
  next
    case False
    then obtain u where u: "interrupt_notify vec p s = Some u" "interrupt_notify_all vec ps u = Some t"
      using Cons.prems by (auto simp: bind_eq_Some_conv)
    have "set (p # ps) - {0} = {p} \<union> (set ps - {0})" using False by auto
    with fired_trans [OF notify_fired [OF u(1)] Cons.IH [OF u(2)]] show ?thesis by simp
  qed
qed

lemma fire_fired:
  assumes "interrupt_vector_fire vec s = Some t"
  shows "fired vec (set (routes vec s) - {0}) s t"
proof (cases "route (interrupt_vector_page_table s (unat (drop_bit 7 vec)))")
  case None
  then have "t = s" using assms by (auto simp: interrupt_vector_fire_def vector_page_def bind_eq_Some_conv)
  with None show ?thesis by (simp add: routes_def fired_refl)
next
  case (Some r)
  have "run_on_fire vt s = Some u \<Longrightarrow> u = s" for vt u
    by (auto simp: run_on_fire_def split: option.splits vec_handler.splits)
  then have "interrupt_notify_all vec (routes vec s) s = Some t"
    using assms Some by (auto simp: interrupt_vector_fire_def vector_page_def routes_def bind_eq_Some_conv)
  then show ?thesis by (rule notify_all_fired)
qed

text \<open>A fired vector never changes which vectors a block taps.\<close>

lemma notify_tap_vec:
  assumes "interrupt_notify vec p s = Some t"
  shows "tcb_tap (tcbs t q) i AND 0x3FFF = tcb_tap (tcbs s q) i AND 0x3FFF"
proof (cases "find (\<lambda>j. tcb_tap (tcbs s p) j AND 0x3FFF = vec) [0..<TAP_COUNT]")
  case None
  then show ?thesis using assms by (simp add: interrupt_notify_def)
next
  case (Some j)
  let ?s1 = "upd_tcb p (\<lambda>t. t\<lparr>tcb_tap := (tcb_tap t)(j := tcb_tap t j OR 0x8000)\<rparr>) s"
  have one: "tcb_tap (tcbs ?s1 q) i AND 0x3FFF = tcb_tap (tcbs s q) i AND 0x3FFF"
    using tap_flag(1) by simp
  have "tcb_tap (tcbs u q) i = tcb_tap (tcbs ?s1 q) i" if "scheduler_add_tcb p ?s1 = Some u" for u
    using no_sched_step(5) [OF push_no_sched [of p ?s1 u], of q] that by (simp add: scheduler_add_tcb_def)
  then have "tcb_tap (tcbs t q) i = tcb_tap (tcbs ?s1 q) i"
    using assms Some by (auto simp: interrupt_notify_def Let_def bind_eq_Some_conv split: if_splits)
  with one show ?thesis by simp
qed

lemma notify_all_tap_vec:
  "interrupt_notify_all vec ps s = Some t \<Longrightarrow>
   tcb_tap (tcbs t q) i AND 0x3FFF = tcb_tap (tcbs s q) i AND 0x3FFF"
proof (induction ps arbitrary: s)
  case Nil
  then show ?case by simp
next
  case (Cons p ps)
  show ?case
  proof (cases "p = 0")
    case False
    then obtain u where u: "interrupt_notify vec p s = Some u" "interrupt_notify_all vec ps u = Some t"
      using Cons.prems by (auto simp: bind_eq_Some_conv)
    show ?thesis using Cons.IH [OF u(2)] notify_tap_vec [OF u(1)] by simp
  qed (use Cons in simp)
qed

lemma run_on_fire_same: "run_on_fire vt s = Some u \<Longrightarrow> u = s"
  by (auto simp: run_on_fire_def split: option.splits vec_handler.splits)

lemma fire_cases:
  assumes "interrupt_vector_fire vec s = Some t"
  shows "t = s \<or> interrupt_notify_all vec (routes vec s) s = Some t"
  using assms run_on_fire_same
  by (auto simp: interrupt_vector_fire_def vector_page_def routes_def bind_eq_Some_conv split: option.splits)

lemma fire_tap_vec:
  "interrupt_vector_fire vec s = Some t \<Longrightarrow>
   tcb_tap (tcbs t q) i AND 0x3FFF = tcb_tap (tcbs s q) i AND 0x3FFF"
  using fire_cases notify_all_tap_vec by metis

lemma reset_tap_vec:
  "interrupt_vector_reset vec s = Some t \<Longrightarrow>
   tcb_tap (tcbs t q) i AND 0x3FFF = tcb_tap (tcbs s q) i AND 0x3FFF"
  using reset_cases fire_tap_vec by metis

lemma notify_frame:
  assumes "interrupt_notify vec p s = Some t"
  shows "interrupt_vector_page_table t = interrupt_vector_page_table s \<and> the_ccb t = the_ccb s"
proof -
  have "interrupt_vector_page_table u = interrupt_vector_page_table v \<and> the_ccb u = the_ccb v"
    if "scheduler_add_tcb p v = Some u" for u v
    using no_sched_step(2,4) [OF push_no_sched [of p v u]] that by (simp add: scheduler_add_tcb_def)
  then show ?thesis
    using assms by (auto simp: interrupt_notify_def Let_def bind_eq_Some_conv split: option.splits if_splits)
qed

lemma notify_all_frame:
  "interrupt_notify_all vec ps s = Some t \<Longrightarrow> interrupt_vector_page_table t = interrupt_vector_page_table s \<and>
   the_ccb t = the_ccb s"
proof (induction ps arbitrary: s)
  case (Cons p ps)
  then show ?case using notify_frame by (auto simp: bind_eq_Some_conv split: if_splits)
qed simp

lemma reset_frame:
  "interrupt_vector_reset vec s = Some t \<Longrightarrow> interrupt_vector_page_table t = interrupt_vector_page_table s \<and>
   the_ccb t = the_ccb s"
  using reset_cases fire_cases notify_all_frame by metis

subsection \<open>Routes\<close>

lemma routes_cong: "interrupt_vector_page_table t = interrupt_vector_page_table s \<Longrightarrow> routes vec t = routes vec s"
  by (simp add: routes_def)

lemma add_route_routes:
  assumes "interrupt_add_route p vec s = Some t"
    and "route (interrupt_vector_page_table s (unat (drop_bit 7 vec))) \<noteq> None" "0 \<in> set (routes vec s)"
  shows "p \<in> set (routes vec t)"
proof -
  from assms(2) obtain r where r: "route (interrupt_vector_page_table s (unat (drop_bit 7 vec))) = Some r" by blast
  let ?v = "unat (vec AND 0x7F)"
  have "\<exists>i \<in> set [0..<TAP_COUNT]. r ?v i = 0" using assms(3) r by (auto simp: routes_def)
  then have "find (\<lambda>i. r ?v i = 0) [0..<TAP_COUNT] \<noteq> None" unfolding find_None_iff by blast
  then obtain i where i: "find (\<lambda>i. r ?v i = 0) [0..<TAP_COUNT] = Some i" by blast
  then have "i < TAP_COUNT" by (auto simp: find_Some_iff)
  moreover have "t = set_route vec i p s"
    using assms(1) r i by (auto simp: interrupt_add_route_def vector_page_def bind_eq_Some_conv)
  ultimately show ?thesis using r by (auto simp: routes_def set_route_def Let_def)
qed

lemma add_route_tcbs:
  assumes "interrupt_add_route p vec s = Some t"
  shows "tcbs t = tcbs s"
proof -
  let ?r = "route (interrupt_vector_page_table s (unat (drop_bit 7 vec)))"
  show ?thesis
  proof (cases ?r)
    case None
    then show ?thesis using assms by (auto simp: interrupt_add_route_def vector_page_def bind_eq_Some_conv)
  next
    case (Some r)
    then show ?thesis
      using assms by (cases "find (\<lambda>i. r (unat (vec AND 0x7F)) i = 0) [0..<TAP_COUNT]")
        (auto simp: interrupt_add_route_def vector_page_def bind_eq_Some_conv)
  qed
qed

end
