(* ===== verification/Kernel_Specs.thy ===== *)
theory Kernel_Specs
  imports Boot Vectors
begin

text \<open>
  Facts about whole entries to the kernel: round robin under timer interrupts, where a
  faulting thread ends up, and which calls always return.
\<close>

lemma machine_invE:
  assumes "machine_inv m"
  obtains L F where "kernel_inv L F (kern m)" "vtables_ok (kern m)" "active (kern m) \<noteq> 0"
  using assms by (auto simp: machine_inv_def kernel_ok_def)

subsection \<open>Round robin\<close>

text \<open>Timer interrupts in a row, each with the register contents it finds.\<close>

fun ticks :: "(frame \<times> u64) list \<Rightarrow> kernel \<Rightarrow> kernel option" where
  "ticks [] s = Some s"
| "ticks ((f, cr2) # fs) s = do { s \<leftarrow> interrupt_entry 32 f cr2 s; ticks fs s }"

text \<open>One timer interrupt rotates the list of the active thread and the queued ones.\<close>

lemma timer_rotates:
  assumes "kernel_inv L F s" "active s \<noteq> 0"
  obtains t where "interrupt_entry 32 f cr2 s = Some t" "active t \<noteq> 0"
    "active t = hd (L @ [active s])" "kernel_inv (tl (L @ [active s])) F t"
proof -
  let ?s1 = "save_state_full 32 f s"
  let ?s2 = "signal_eoi ?s1"
  have k1: "kernel_inv L F ?s1"
    unfolding save_state_full_def by (rule kernel_inv_upd_tcb [OF assms(1)]) simp_all
  have k2: "kernel_inv L F ?s2" by (rule signal_eoi_inv [OF k1])
  have a: "active ?s2 = active s" by (simp add: signal_eoi_def)
  show ?thesis
  proof (rule schedule_inv [OF k2])
    fix t
    assume t: "scheduler_schedule ?s2 = Some t"
      "kernel_inv (tl (if active ?s2 = 0 then L else L @ [active ?s2])) F t"
      "active t = (if (if active ?s2 = 0 then L else L @ [active ?s2]) = [] then idle_tcb ?s2
         else hd (if active ?s2 = 0 then L else L @ [active ?s2]))" "active t \<noteq> 0"
    have "interrupt_entry 32 f cr2 s = Some t"
      using t(1) by (simp add: interrupt_entry_def Let_def fault_def)
    then show ?thesis using t assms(2) a that by simp
  qed
qed

lemma round_robin_ticks:
  assumes "kernel_inv L F s" "active s \<noteq> 0"
  shows "\<exists>t. ticks fs s = Some t \<and> active t = hd (rotate (length fs) (active s # L)) \<and>
    kernel_inv (tl (rotate (length fs) (active s # L))) F t"
  using assms
proof (induction fs arbitrary: L s)
  case Nil
  then show ?case by simp
next
  case (Cons x fs)
  obtain f cr2 where x: "x = (f, cr2)" by fastforce
  from timer_rotates [OF Cons.prems, of f cr2] obtain u where u: "interrupt_entry 32 f cr2 s = Some u"
    "active u \<noteq> 0" "active u = hd (L @ [active s])" "kernel_inv (tl (L @ [active s])) F u" by metis
  from Cons.IH [OF u(4,2)] obtain t where t: "ticks fs u = Some t"
    "active t = hd (rotate (length fs) (active u # tl (L @ [active s])))"
    "kernel_inv (tl (rotate (length fs) (active u # tl (L @ [active s])))) F t" by blast
  have "active u # tl (L @ [active s]) = L @ [active s]" using u(3) by (cases L) simp_all
  then have "rotate (length fs) (active u # tl (L @ [active s])) = rotate (length (x # fs)) (active s # L)"
    by (simp add: rotate1_rotate_swap)
  with t u(1) x show ?case by simp
qed

subsection \<open>Faults\<close>

lemma schedule_queue_heads:
  assumes "scheduler_schedule s = Some t"
  shows "queue_head q t = queue_head q s"
proof -
  have push: "queue_head q u = queue_head q v" if "scheduler_push_tcb p v = Some u" for p u v
    using queue_head_no_sched [OF push_no_sched [OF that]] .
  have pull: "queue_head q (snd (scheduler_pull_tcb v)) = queue_head q v" for v
    by (cases q) (simp_all add: scheduler_pull_tcb_def Let_def)
  have load: "queue_head q (snd (ccb_load_tcb p v)) = queue_head q v" for p v
    by (cases q) (simp_all add: ccb_load_tcb_def Let_def)
  have unload: "queue_head q (snd (ccb_unload_tcb v)) = queue_head q v" for v
    by (cases q) (simp_all add: ccb_unload_tcb_def Let_def)
  obtain p u where un: "ccb_unload_tcb s = (p, u)" by fastforce
  with unload [of s] have u: "queue_head q u = queue_head q s" by simp
  obtain w where w: "(if p \<noteq> 0 then scheduler_push_tcb p (set_state p TCB_STATE_QUEUED u) else Some u) = Some w"
    "t = (let (n, v) = scheduler_pull_tcb w in
       snd (ccb_load_tcb (if n = 0 then idle_tcb v else n) (if n = 0 then v else set_state n TCB_STATE_RUNNING v)))"
    using assms un by (auto simp: scheduler_schedule_def Let_def bind_eq_Some_conv case_prod_beta split: if_splits)
  have "queue_head q w = queue_head q u"
    using w(1) push by (auto split: if_splits)
  then show ?thesis using w(2) load pull [of w] u by (simp add: case_prod_beta Let_def)
qed

text \<open>
  The common path of the fault handlers: the thread that ran goes to the front of the queue
  \<open>q\<close>, is no longer active or queued, and keeps its state.
\<close>

lemma fault_path_spec:
  assumes c: "caller_ok s" and vec: "unat (drop_bit 7 vec) < INTERRUPT_VECTOR_PAGES"
  shows "\<exists>t M F. (case ccb_unload_tcb s of (p, s) \<Rightarrow> do {
      s \<leftarrow> enqueue q p s; s \<leftarrow> interrupt_vector_fire vec s; scheduler_schedule s }) = Some t \<and>
    kernel_inv M F t \<and> queue_head q t = active s \<and> active t \<noteq> active s \<and> active s \<notin> set M \<and>
    active s \<in> live t \<and> st t (active s) = TCB_STATE_RUNNING"
proof -
  from caller_okE [OF c] obtain L F where inv: "kernel_inv L F s" "vtables_ok s" "active s \<in> live s"
    "active s \<noteq> 0" "st s (active s) = TCB_STATE_RUNNING" by metis
  let ?a = "active s"
  obtain p u where un: "ccb_unload_tcb s = (p, u)" by fastforce
  note U = unload_spec [OF un]
  have fu: "fixed u = fixed s" using U(7) by (simp add: thread_step_def)
  have p: "p = ?a" "p \<noteq> 0" "p \<notin> set L" using U(1) inv(4) kernel_invD(8) [OF inv(1)] by simp_all
  from enqueue_inv [OF unload_inv [OF inv(1) un] p(2,3), of q] obtain v where v: "enqueue q p u = Some v"
    "kernel_inv L F v" "the_ccb v = the_ccb u" "st v = st u" "live v = live u"
    "interrupt_vector_page_table v = interrupt_vector_page_table u" by metis
  have qv: "queue_head q v = ?a" using v(1) p by (auto simp: enqueue_def bind_eq_Some_conv)
  have stv: "st v ?a = TCB_STATE_RUNNING"
    using fun_cong [OF v(4), of ?a] fun_cong [OF U(4), of ?a] inv(5) by simp
  have av: "active v = 0" using v(3) U(2) by simp
  then have nw: "not_waiting v" by (simp add: not_waiting_def)
  have ok: "vtables_ok v"
    using inv(2) vtables_ok_cong [OF v(6)] vtables_ok_cong [OF fixedD(4) [OF fu]] by simp
  from fire_inv [OF v(2) ok nw vec] obtain w M where w: "interrupt_vector_fire vec v = Some w"
    "kernel_inv M F w" "wakes v w" by blast
  have stw: "st w ?a = TCB_STATE_RUNNING" by (rule wakesD(6) [OF w(3) stv])
  have lw: "live w = live s" using wakesD(1) [OF w(3)] v(5) fixedD(5) [OF fu] by simp
  have aw: "active w = 0" using wakesD(3) [OF w(3)] av by simp
  have aM: "?a \<notin> set M" using kernel_invD(4) [OF w(2)] stw by auto
  have idle: "idle_tcb w \<noteq> ?a"
    using kernel_invD(1) [OF w(2)] inv(3) lw by (auto simp: mem_inv_def)
  show ?thesis
  proof (rule schedule_inv [OF w(2)])
    fix t
    assume "scheduler_schedule w = Some t" "kernel_inv (tl (if active w = 0 then M else M @ [active w])) F t"
      "active t = (if (if active w = 0 then M else M @ [active w]) = [] then idle_tcb w
         else hd (if active w = 0 then M else M @ [active w]))"
      "\<And>p. p \<noteq> active w \<Longrightarrow> p \<noteq> active t \<Longrightarrow> st t p = st w p" "live t = live w"
    note t = this [unfolded aw if_True eqTrueI [OF refl]]
    have at: "active t \<noteq> ?a" using t(3) idle aM by (cases M) auto
    have "?a \<notin> set (tl M)" using aM by (cases M) auto
    moreover have "st t ?a = TCB_STATE_RUNNING" using t(4) [of ?a] at inv(4) stw by simp
    moreover have "queue_head q t = ?a"
      using schedule_queue_heads [OF t(1)] qv w(3) by (auto simp: wakes_def)
    ultimately show ?thesis
      using un v(1) w(1) t(1,2,5) at inv(3) lw p(1) by (auto intro: exI [of _ t])
  qed
qed

subsection \<open>Calls that always return\<close>

fun total_call :: "api_call \<Rightarrow> bool" where
  "total_call (Interrupt_set_tap i v) = False"
| "total_call (Page_set a b c d) = False"
| "total_call (Page_get v) = False"
| "total_call (Fault_get_pagefault info) = False"
| "total_call (Memory_map_read i) = False"
| "total_call _ = True"

lemma total_calls:
  assumes "caller_ok s" "total_call c"
  shows "apilogic c s \<noteq> None"
proof -
  from caller_okE [OF assms(1)] obtain L F where inv: "kernel_inv L F s" "vtables_ok s"
    "active s \<in> live s" "active s \<noteq> 0" "st s (active s) = TCB_STATE_RUNNING" by metis
  note I = kernel_invD [OF inv(1)]
  have get: "\<exists>p. tcb_get n s = Some (p, s)" for n using tcb_get_eq [OF I(2)] by blast
  show ?thesis
  proof (cases c)
    case Thread_create
    show ?thesis
      by (rule create_spec [OF inv(1)]) (use Thread_create in auto)
  next
    case (Thread_pause n)
    have "apilogic_thread_pause n s \<noteq> None"
    proof (cases "st s (target n s) = TCB_STATE_QUEUED \<and> target n s \<noteq> 0")
      case True
      then have k: "st s (target n s) \<in> {TCB_STATE_SUSPENDED, TCB_STATE_SUSPENDEDWAITING, TCB_STATE_WAITING,
        TCB_STATE_QUEUED, TCB_STATE_RUNNING}" by simp
      show ?thesis
        by (rule pause_spec [OF inv(1,3) refl _ k]) (use True in auto)
    next
      case False
      then show ?thesis by (auto simp: apilogic_thread_pause_def self_lookup [OF inv(1,3)])
    qed
    then show ?thesis using Thread_pause by auto
  next
    case (Thread_resume n)
    have ns: "st s (active s) \<noteq> TCB_STATE_SUSPENDED" using inv(5) by simp
    have "apilogic_thread_resume n s \<noteq> None"
    proof (cases "target n s = 0")
      case True
      then show ?thesis using resume_none [OF inv(1,3)] by simp
    next
      case False
      show ?thesis
        by (rule resume_spec [OF inv(1,3) refl False ns]) auto
    qed
    then show ?thesis using Thread_resume by auto
  next
    case Thread_exit
    then show ?thesis using exit_inv [OF assms(1)] by auto
  next
    case (Thread_reap n)
    have ns: "st s (active s) \<noteq> TCB_STATE_SUSPENDED" using inv(5) by simp
    consider (self) "n = THREAD_ID_SELF"
      | (refused) "n \<noteq> THREAD_ID_SELF" "target n s = 0 \<or> st s (target n s) \<noteq> TCB_STATE_SUSPENDED"
      | (reaped) "n \<noteq> THREAD_ID_SELF" "target n s \<noteq> 0" "st s (target n s) = TCB_STATE_SUSPENDED" by blast
    then have "apilogic_thread_reap n s \<noteq> None"
    proof cases
      case reaped
      then have p: "unat n < TCB_LIMIT" "tcb_entry s (unat n) = target n s"
        by (auto simp: target_def split: if_splits)
      show ?thesis
        by (rule reap_spec [OF inv(1) p reaped(2,3) ns]) simp
    qed (simp_all add: reap_self_id [OF inv(1)] reap_refused [OF inv(1)])
    then show ?thesis using Thread_reap by auto
  next
    case (Thread_pull_state n cls state)
    then show ?thesis using pull_same [OF inv(1), of n cls state] by auto
  next
    case (Thread_push_state n cls state)
    then show ?thesis using push_inv [OF inv(1), of n cls state] by auto
  next
    case (Interrupt_get_tap i)
    then show ?thesis using inv(4) by (simp add: apilogic_interrupt_get_tap_def)
  next
    case (Interrupt_reset v)
    then show ?thesis using reset_call_inv [OF assms(1), of v] by auto
  next
    case Interrupt_wait
    then show ?thesis using wait_call_inv [OF assms(1)] by auto
  qed (use assms(2) in \<open>simp_all add: case_prod_beta\<close>)
qed

subsection \<open>Page allocation in a row\<close>

fun pmm_allocs :: "nat \<Rightarrow> kernel \<Rightarrow> (ptr list \<times> kernel) option" where
  "pmm_allocs 0 s = Some ([], s)"
| "pmm_allocs (Suc n) s = do {
     (p, s) \<leftarrow> pmm_alloc s;
     (ps, s) \<leftarrow> pmm_allocs n s;
     Some (p # ps, s)
   }"

lemma pmm_allocs_spec:
  assumes "pmm_ok s" "unat (pmm_alloc_base s) + n * 0x1000 \<le> unat (pmm_alloc_limit s)"
  shows "\<exists>ps t. pmm_allocs n s = Some (ps, t) \<and> pmm_ok t \<and>
    map unat ps = map (\<lambda>i. unat (brk s) + i * 0x1000) [0..<n] \<and>
    unat (brk t) = unat (brk s) + n * 0x1000 \<and> pmm_alloc_limit t = pmm_alloc_limit s \<and>
    pmm_base t = pmm_base s"
  using assms
proof (induction n arbitrary: s)
  case 0
  then show ?case by simp
next
  case (Suc n)
  let ?s1 = "s\<lparr>pmm_alloc_base := pmm_alloc_base s + 0x1000, pmm_mutex := 0\<rparr>"
  have ne: "pmm_alloc_base s \<noteq> pmm_alloc_limit s" using Suc.prems(2) by auto
  note step = pmm_alloc_step [OF Suc.prems(1) ne]
  have "unat (pmm_alloc_base ?s1) + unat (pmm_base s) = unat (pmm_alloc_base s) + unat (pmm_base s) + 0x1000"
    using step(2) unat_brk [OF step(1)] unat_brk [OF Suc.prems(1)] by simp
  then have "unat (pmm_alloc_base ?s1) + n * 0x1000 \<le> unat (pmm_alloc_limit ?s1)"
    using Suc.prems(2) by simp
  from Suc.IH [OF step(1) this] obtain ps t where t: "pmm_allocs n ?s1 = Some (ps, t)" "pmm_ok t"
    "map unat ps = map (\<lambda>i. unat (brk ?s1) + i * 0x1000) [0..<n]"
    "unat (brk t) = unat (brk ?s1) + n * 0x1000" "pmm_alloc_limit t = pmm_alloc_limit ?s1"
    "pmm_base t = pmm_base ?s1" by blast
  have "pmm_allocs (Suc n) s = Some (brk s # ps, t)"
    using pmm_alloc_page [OF pmm_ok_mutex [OF Suc.prems(1)] ne] t(1) by simp
  moreover have "map (\<lambda>i. unat (brk s) + i * 0x1000) [0..<Suc n] =
      unat (brk s) # map (\<lambda>i. unat (brk s) + 0x1000 + i * 0x1000) [0..<n]"
    by (simp add: upt_conv_Cons map_Suc_upt [symmetric] algebra_simps del: upt_Suc)
  ultimately show ?case using t step(2) by (intro exI [of _ "brk s # ps"] exI [of _ t]) (simp del: upt_Suc)
qed

end
