(* ===== verification/Samples.thy ===== *)
theory Samples
  imports Boot
begin

text \<open>
  Concrete kernel states on which the properties are instantiated: the state of the static
  variables at power-up, and a running system with four threads, one in each of the states
  running, queued, waiting and suspended, and one free block.
\<close>

definition blank_tcb :: tcb where
  "blank_tcb = \<lparr>tcb_reserved0 = 0, tcb_state = 0, tcb_id = 0, tcb_running_cpu = 0,
     tcb_tap = (\<lambda>i. 0), tcb_next = 0, tcb_pcx_id = 0, tcb_fault_type = 0, tcb_fault_addr = 0,
     tcb_gs = 0, tcb_rax = 0, tcb_rcx = 0, tcb_rbx = 0, tcb_rdx = 0, tcb_rdi = 0, tcb_rsi = 0,
     tcb_rbp = 0, tcb_r8 = 0, tcb_r9 = 0, tcb_r10 = 0, tcb_r11 = 0, tcb_r12 = 0, tcb_r13 = 0,
     tcb_r14 = 0, tcb_r15 = 0, tcb_xstate = 0, tcb_ivect = 0, tcb_saved = 0, tcb_error = 0,
     tcb_rip = 0, tcb_cs = 0, tcb_rflags = 0, tcb_rsp = 0, tcb_ss = 0\<rparr>"

definition blank_ccb :: ccb where
  "blank_ccb = \<lparr>ccb_id = 0, active_tcb = 0, active_pcx = 0, active_pcx_id = 0, tss_rsp0 = 0,
     tss_ist1 = 0, lapic_eoi = 0\<rparr>"

text \<open>The image is linked at 2 MB above the base of the kernel's window.\<close>

definition boot_kernel :: kernel where
  "boot_kernel = \<lparr>image_base = 0xFFFFFFFFC0200000, image_limit = 0xFFFFFFFFC0240000,
     pmm_map_cutoff = 0, pmm_map_low = no_map, pmm_map_high = no_map, pmm_mutex = 0, pmm_base = 0,
     pmm_alloc_base = 0, pmm_alloc_limit = 0, tcb_list = 0, tcb_lock = 0, ccb_list = 0,
     ccb_lock = 0, pge_list = 0, pge_lock = 0, tcbs = (\<lambda>p. blank_tcb), mem = (\<lambda>p. 0),
     tcb_table = (\<lambda>i. None), tcb_table_lock = 0, schedule_head = 0, schedule_tail = 0,
     idle_tcb = 0xFFFFFFFFC0210000, pagefault_queue = 0, miscfault_queue = 0, zombie_queue = 0,
     ccb_table = 0, ccb_table_lock = 0, the_ccb = blank_ccb,
     interrupt_vector_page_table = (\<lambda>k. \<lparr>route = None, vtable = None\<rparr>),
     pcx_root = 0, pcx_root_lock = 0, cr3 = 0, idt = 0\<rparr>"

text \<open>One region of 2 GB of memory: the kernel's area ends at 8 MB.\<close>

definition boot_mmap :: unfold_mmap where
  "boot_mmap = \<lparr>mmap_total = 0x80000000, mmap_count = 1,
     mmap_entry = (\<lambda>i. \<lparr>entry_base = 0, entry_size = 0x80000000\<rparr>)\<rparr>"

lemma boot_kernel_state: "boot_state boot_kernel"
  by (simp add: boot_state_def boot_kernel_def blank_tcb_def TCB_STATE_FREE_def)

lemma boot_kernel_room: "boot_room boot_mmap boot_kernel"
  by (simp add: boot_room_def boot_kernel_def boot_mmap_def get_pinion_range_def pmm_cutoff_def
      page_base_def Let_def)

lemma boot_mmap_low:
  assumes "pmm_map_cutoff s = 0x800000"
  shows "\<exists>t. pmm_fill_low boot_mmap 0 s = Some (1, 0, t)"
  unfolding pmm_fill_low.simps [of boot_mmap 0 s] using assms
  by (simp add: boot_mmap_def set_low_base_def set_low_size_def set_high_entry_def
      pmm_map_capacity_def pmm_map_low_space_def pmm_map_high_space_def Let_def)

lemma boot_mmap_high: "pmm_fill_high boot_mmap 1 0 s = Some (1, s)"
  unfolding pmm_fill_high.simps [of boot_mmap 1 0 s] by (simp add: boot_mmap_def)

lemma boot_kernel_maps: "pmm_init boot_mmap boot_kernel \<noteq> None"
proof -
  have "pmm_cutoff (mmap_total boot_mmap) = 0x800000" by (simp add: pmm_cutoff_def boot_mmap_def)
  moreover obtain base limit where "get_pinion_range boot_kernel = (base, limit)" by fastforce
  ultimately show ?thesis
    using boot_mmap_low [of "boot_kernel\<lparr>pmm_base := base - 0x200000, pmm_map_cutoff := 0x800000,
      pmm_alloc_base := limit - (base - 0x200000), pmm_alloc_limit := 0x800000\<rparr>"]
    by (auto simp: pmm_init_def boot_mmap_high [simplified] Let_def)
qed

subsection \<open>A running system\<close>

definition B1 :: ptr where "B1 = 0xFFFFFFFFC0240000"
definition B2 :: ptr where "B2 = 0xFFFFFFFFC0241000"
definition B3 :: ptr where "B3 = 0xFFFFFFFFC0242000"
definition B4 :: ptr where "B4 = 0xFFFFFFFFC0243000"
definition B5 :: ptr where "B5 = 0xFFFFFFFFC0244000"

lemmas block_addr_defs = B1_def B2_def B3_def B4_def B5_def

lemma block_addr_distinct [simp]:
  "B1 \<noteq> B2" "B1 \<noteq> B3" "B1 \<noteq> B4" "B1 \<noteq> B5" "B2 \<noteq> B3" "B2 \<noteq> B4" "B2 \<noteq> B5" "B3 \<noteq> B4" "B3 \<noteq> B5" "B4 \<noteq> B5"
  "B2 \<noteq> B1" "B3 \<noteq> B1" "B4 \<noteq> B1" "B5 \<noteq> B1" "B3 \<noteq> B2" "B4 \<noteq> B2" "B5 \<noteq> B2" "B4 \<noteq> B3" "B5 \<noteq> B3" "B5 \<noteq> B4"
  "B1 \<noteq> 0" "B2 \<noteq> 0" "B3 \<noteq> 0" "B4 \<noteq> 0" "B5 \<noteq> 0"
  by (simp_all add: block_addr_defs)

definition sample_tcb :: "u16 \<Rightarrow> u32 \<Rightarrow> (nat \<Rightarrow> u16) \<Rightarrow> tcb" where
  "sample_tcb v i taps = blank_tcb\<lparr>tcb_state := v, tcb_id := i, tcb_tap := taps\<rparr>"

lemma sample_tcb_simps [simp]:
  "tcb_state (sample_tcb v i taps) = v" "tcb_id (sample_tcb v i taps) = i"
  "tcb_tap (sample_tcb v i taps) = taps" "tcb_next (sample_tcb v i taps) = 0"
  "tcb_pcx_id (sample_tcb v i taps) = 0" "tcb_rax (sample_tcb v i taps) = 0"
  by (simp_all add: sample_tcb_def blank_tcb_def)

text \<open>Thread 3 taps vector \<open>0x100\<close> and waits for it.\<close>

definition sample_kernel :: kernel where
  "sample_kernel = boot_kernel\<lparr>
     pmm_base := 0xFFFFFFFFC0000000, pmm_alloc_base := 0x246000, pmm_alloc_limit := 0x800000,
     tcb_list := B5,
     tcbs := (\<lambda>p. blank_tcb)(B1 := sample_tcb TCB_STATE_RUNNING 1 (\<lambda>i. 0),
       B2 := sample_tcb TCB_STATE_QUEUED 2 (\<lambda>i. 0),
       B3 := sample_tcb TCB_STATE_WAITING 3 ((\<lambda>i. 0)(0 := 0x100)),
       B4 := sample_tcb TCB_STATE_SUSPENDED 4 (\<lambda>i. 0)),
     tcb_table := (\<lambda>k. None)(0 := Some ((\<lambda>j. 0)(1 := B1, 2 := B2, 3 := B3, 4 := B4))),
     schedule_head := B2, schedule_tail := B2,
     the_ccb := blank_ccb\<lparr>active_tcb := B1, active_pcx := 0x245000\<rparr>,
     interrupt_vector_page_table := (\<lambda>k. \<lparr>route = None, vtable = None\<rparr>)
       (1 := \<lparr>route = Some (\<lambda>i j. 0), vtable = Some pinion_vector_page_vtable\<rparr>,
        2 := \<lparr>route = Some (\<lambda>i j. if i = 0 \<and> j = 0 then B3 else 0), vtable = Some irq_vector_page_vtable\<rparr>),
     pcx_root := 0xFFFFFFFFC0245000, cr3 := 0x245000\<rparr>"

lemma sample_fields [simp]:
  "tcbs sample_kernel = (\<lambda>p. blank_tcb)(B1 := sample_tcb TCB_STATE_RUNNING 1 (\<lambda>i. 0),
       B2 := sample_tcb TCB_STATE_QUEUED 2 (\<lambda>i. 0),
       B3 := sample_tcb TCB_STATE_WAITING 3 ((\<lambda>i. 0)(0 := 0x100)),
       B4 := sample_tcb TCB_STATE_SUSPENDED 4 (\<lambda>i. 0))"
  "active sample_kernel = B1" "tcb_table_lock sample_kernel = 0" "tcb_lock sample_kernel = 0"
  "pge_lock sample_kernel = 0" "pge_list sample_kernel = 0" "tcb_list sample_kernel = B5"
  "schedule_head sample_kernel = B2" "schedule_tail sample_kernel = B2"
  "idle_tcb sample_kernel = 0xFFFFFFFFC0210000" "pmm_mutex sample_kernel = 0"
  "zombie_queue sample_kernel = 0" "miscfault_queue sample_kernel = 0" "pagefault_queue sample_kernel = 0"
  "mem sample_kernel = (\<lambda>p. 0)" "pcx_root sample_kernel = 0xFFFFFFFFC0245000"
  by (simp_all add: sample_kernel_def boot_kernel_def)

lemma sample_entry:
  "tcb_entry sample_kernel i =
     (if i = 1 then B1 else if i = 2 then B2 else if i = 3 then B3 else if i = 4 then B4 else 0)"
proof (cases "i < 512")
  case True
  then show ?thesis by (simp add: tcb_entry_def sample_kernel_def)
next
  case False
  then have "i div 512 \<noteq> 0" by (simp add: div_eq_0_iff)
  with False show ?thesis by (simp add: tcb_entry_def sample_kernel_def boot_kernel_def)
qed

lemma sample_live: "live sample_kernel = {B1, B2, B3, B4}"
proof -
  have "p \<in> live sample_kernel \<longleftrightarrow> p \<in> {B1, B2, B3, B4}" for p
  proof
    show "p \<in> live sample_kernel \<Longrightarrow> p \<in> {B1, B2, B3, B4}"
      by (auto simp: live_def sample_entry split: if_splits)
    have "(1::nat) < TCB_LIMIT" "2 < TCB_LIMIT" "3 < TCB_LIMIT" "4 < TCB_LIMIT" by (simp_all add: TCB_LIMIT_def)
    then show "p \<in> {B1, B2, B3, B4} \<Longrightarrow> p \<in> live sample_kernel"
      using liveI [of 1 sample_kernel] liveI [of 2 sample_kernel] liveI [of 3 sample_kernel]
        liveI [of 4 sample_kernel] by (auto simp: sample_entry)
  qed
  then show ?thesis by blast
qed

lemma sample_brk: "brk sample_kernel = 0xFFFFFFFFC0246000"
  by (simp add: brk_def sample_kernel_def)

lemma sample_ok: "pmm_ok sample_kernel"
  by (simp add: pmm_ok_def sample_kernel_def boot_kernel_def)

lemma sample_routed: "routed sample_kernel \<subseteq> {B3}"
  by (auto simp: routed_def sample_kernel_def boot_kernel_def split: if_splits)

lemma sample_vtables: "vtables_ok sample_kernel"
  by (auto simp: vtables_ok_def sample_kernel_def boot_kernel_def pinion_vector_page_vtable_def
      irq_vector_page_vtable_def split: if_splits)

lemma sample_inv: "kernel_inv [B2] [B5] sample_kernel"
proof -
  have m: "mem_inv [B5] sample_kernel"
    using sample_ok
    by (auto simp: mem_inv_def sample_live sample_entry block_def sample_brk block_addr_defs
        blank_tcb_def tcb_word0_def word_less_nat_alt split: if_splits)
  have idle: "0xFFFFFFFFC0210000 \<noteq> B1" "0xFFFFFFFFC0210000 \<noteq> B2" "0xFFFFFFFFC0210000 \<noteq> B3" "0xFFFFFFFFC0210000 \<noteq> B4"
    by (simp_all add: block_addr_defs)
  have "run_queue [B2] sample_kernel" by (simp add: run_queue_def)
  moreover have "set [B2] = {p \<in> threads sample_kernel. st sample_kernel p = TCB_STATE_QUEUED}"
    using idle by (auto simp: threads_def sample_live blank_tcb_def tcb_state_defs split: if_splits)
  moreover have "routed sample_kernel \<subseteq> live sample_kernel \<union> set [B5]"
    using sample_routed by (auto simp: sample_live)
  ultimately show ?thesis
    using m by (simp add: kernel_inv_def threads_def sample_live)
qed

lemma sample_caller: "caller_ok sample_kernel"
  using sample_inv sample_vtables
  by (auto simp: caller_ok_def caller_def kernel_ok_def sample_live)

end
