(* ===== verification/Page_Tables.thy ===== *)
theory Page_Tables
  imports Paging
begin

text \<open>
  The page tables as a tree. \<open>pt_tree lv m\<close> holds when \<open>lv\<close> gives every table page its
  level (0 for a page that is no table), an entry that leads on leads to a table one level
  below, and no two entries lead to the same table. Under this invariant mapping a frame
  changes the translation of that page and of no other.
\<close>

definition descends :: "u64 \<Rightarrow> bool" where
  "descends e \<longleftrightarrow> e AND PF_PRES \<noteq> 0 \<and> e AND PF_LARGE = 0"

definition pt_tree :: "(ptr \<Rightarrow> nat) \<Rightarrow> (ptr \<Rightarrow> u64) \<Rightarrow> bool" where
  "pt_tree lv m \<longleftrightarrow>
     (\<forall>p. lv p \<noteq> 0 \<longrightarrow> take_bit 12 p = 0) \<and>
     (\<forall>p j. 1 < lv p \<longrightarrow> j < 512 \<longrightarrow> descends (m (p + 8 * j)) \<longrightarrow>
        lv (next_table (m (p + 8 * j))) = lv p - 1) \<and>
     (\<forall>p j q k. 1 < lv p \<longrightarrow> 1 < lv q \<longrightarrow> j < 512 \<longrightarrow> k < 512 \<longrightarrow> descends (m (p + 8 * j)) \<longrightarrow>
        descends (m (q + 8 * k)) \<longrightarrow> next_table (m (p + 8 * j)) = next_table (m (q + 8 * k)) \<longrightarrow>
        p = q \<and> j = k)"

subsection \<open>Cells\<close>

lemma pt_index_less: "pt_index i addr < 512"
proof -
  have "pt_index i addr \<le> 0x1FF" unfolding pt_index_def by (rule word_and_le1)
  then show ?thesis by (simp add: word_le_nat_alt word_less_nat_alt)
qed

lemma unat_cell:
  assumes "take_bit 12 p = (0 :: u64)" "j < 512"
  shows "unat (p + 8 * j) = unat p + 8 * unat j" "4096 dvd unat p" "8 * unat j < 4096"
proof -
  show d: "4096 dvd unat p" using assms(1) page_aligned_iff [of p] by simp
  have j: "unat j < 512" using assms(2) by (simp add: word_less_nat_alt)
  then show j8: "8 * unat j < 4096" by simp
  have u8: "unat (8 * j) = 8 * unat j" using j by (simp add: unat_word_ariths)
  have "unat p < 2 ^ 64" using unsigned_less [of p] by simp
  with d have "unat p + 4096 \<le> 2 ^ 64" by (elim dvdE) simp
  then have "unat p + unat (8 * j) < 2 ^ LENGTH(64)" using u8 j8 by simp
  then show "unat (p + 8 * j) = unat p + 8 * unat j" using u8 by (simp add: unat_word_ariths)
qed

lemma cell_eq:
  assumes "take_bit 12 p = (0 :: u64)" "take_bit 12 q = 0" "j < 512" "k < 512"
  shows "p + 8 * j = q + 8 * k \<longleftrightarrow> p = q \<and> j = k"
proof
  assume "p + 8 * j = q + 8 * k"
  then have e: "unat p + 8 * unat j = unat q + 8 * unat k"
    using unat_cell(1) [OF assms(1,3)] unat_cell(1) [OF assms(2,4)] by simp
  obtain P Q where P: "unat p = 4096 * P" and Q: "unat q = 4096 * Q"
    using unat_cell(2) [OF assms(1,3)] unat_cell(2) [OF assms(2,4)] by (elim dvdE)
  have "P = Q" using e unat_cell(3) [OF assms(1,3)] unat_cell(3) [OF assms(2,4)]
    unfolding P Q by linarith
  then have "unat p = unat q" "unat j = unat k" using e P Q by simp_all
  then show "p = q \<and> j = k" by (simp add: word_unat_eq_iff)
qed simp

lemma cell_in_page:
  assumes "take_bit 12 p = (0 :: u64)" "take_bit 12 n = 0" "j < 512"
  shows "p + 8 * j - n < 0x1000 \<longleftrightarrow> p = n"
proof
  assume "p = n"
  moreover have "8 * j < 0x1000"
    using assms(3) by (simp add: word_less_nat_alt unat_word_ariths)
  ultimately show "p + 8 * j - n < 0x1000" by simp
next
  assume a: "p + 8 * j - n < 0x1000"
  define d where "d = p + 8 * j - n"
  have "n + d = p + 8 * j" by (simp add: d_def)
  obtain P N where P: "unat p = 4096 * P" and N: "unat n = 4096 * N"
    using unat_cell(2) [OF assms(1,3)] unat_cell(2) [OF assms(2,3)] by (elim dvdE)
  have d: "unat d < 4096" using a by (simp add: d_def word_less_nat_alt)
  have "unat n < 2 ^ 64" using unsigned_less [of n] by simp
  then have "unat n + 4096 \<le> 2 ^ 64" unfolding N by simp
  then have "unat n + unat d < 2 ^ LENGTH(64)" using d by simp
  then have "unat (n + d) = unat n + unat d" by (simp add: unat_word_ariths)
  then have "4096 * N + unat d = 4096 * P + 8 * unat j"
    using \<open>n + d = p + 8 * j\<close> unat_cell(1) [OF assms(1,3)] P N by simp
  then have "N = P" using d unat_cell(3) [OF assms(1,3)] by linarith
  then show "p = n" using P N by (simp add: word_unat_eq_iff)
qed

lemma cell_aligned:
  assumes "take_bit 12 n = (0 :: u64)"
  shows "(n + 8 * j - n) AND 7 = 0"
proof -
  have m: "(7 :: u64) = mask 3" by (simp add: mask_eq_exp_minus_1)
  have "take_bit 3 (8 * j) = 0" by (simp add: take_bit_eq_0_iff)
  then have "8 * j AND mask 3 = 0" by (simp only: take_bit_eq_mask)
  then show ?thesis by (simp add: m)
qed

lemma clear_page_cell:
  assumes "take_bit 12 p = (0 :: u64)" "take_bit 12 n = 0" "j < 512"
  shows "clear_page n m (p + 8 * j) = (if p = n then 0 else m (p + 8 * j))"
  using cell_in_page [OF assms] cell_aligned [OF assms(2), of j] by (auto simp: clear_page_def)

lemma pt_treeD:
  assumes "pt_tree lv m"
  shows "lv p \<noteq> 0 \<Longrightarrow> take_bit 12 p = 0"
    and "1 < lv p \<Longrightarrow> j < 512 \<Longrightarrow> descends (m (p + 8 * j)) \<Longrightarrow> lv (next_table (m (p + 8 * j))) = lv p - 1"
    and "1 < lv p \<Longrightarrow> 1 < lv q \<Longrightarrow> j < 512 \<Longrightarrow> k < 512 \<Longrightarrow> descends (m (p + 8 * j)) \<Longrightarrow>
      descends (m (q + 8 * k)) \<Longrightarrow> next_table (m (p + 8 * j)) = next_table (m (q + 8 * k)) \<Longrightarrow>
      p = q \<and> j = k"
  using assms unfolding pt_tree_def by blast+

lemma pt_treeI:
  assumes "\<And>p. lv p \<noteq> 0 \<Longrightarrow> take_bit 12 p = 0"
    and "\<And>p j. 1 < lv p \<Longrightarrow> j < 512 \<Longrightarrow> descends (m (p + 8 * j)) \<Longrightarrow>
      lv (next_table (m (p + 8 * j))) = lv p - 1"
    and "\<And>p j q k. 1 < lv p \<Longrightarrow> 1 < lv q \<Longrightarrow> j < 512 \<Longrightarrow> k < 512 \<Longrightarrow> descends (m (p + 8 * j)) \<Longrightarrow>
      descends (m (q + 8 * k)) \<Longrightarrow> next_table (m (p + 8 * j)) = next_table (m (q + 8 * k)) \<Longrightarrow>
      p = q \<and> j = k"
  shows "pt_tree lv m"
  using assms unfolding pt_tree_def by blast

subsection \<open>Adding an empty table\<close>

lemma walk_empty:
  assumes "take_bit 12 n = (0 :: u64)" "\<And>j. j < 512 \<Longrightarrow> m (n + 8 * j) = 0" "0 < k"
  shows "trans_loop m a k n = Some (- 1)" "flags_loop m a k n = 0"
  using assms(2) [OF pt_index_less [of k a]] assms(3) by (cases k; simp add: pte_addr_def Let_def)+

text \<open>
  Linking a table \<open>n\<close> that leads nowhere yet into the empty entry \<open>j\<close> of \<open>p\<close>; \<open>m'\<close> differs
  from \<open>m\<close> in that entry and in \<open>n\<close>.
\<close>

lemma link_table:
  assumes tree: "pt_tree lv m" and p: "1 < lv p" "j < 512"
    and n: "lv n = 0" "take_bit 12 n = 0" and e: "next_table e = n"
    and cell: "\<And>q k. lv q \<noteq> 0 \<Longrightarrow> k < 512 \<Longrightarrow> m' (q + 8 * k) = (if q = p \<and> k = j then e else m (q + 8 * k))"
    and last: "\<And>k. k < 512 \<Longrightarrow> \<not> descends (m' (n + 8 * k))"
  shows "pt_tree (lv(n := lv p - 1)) m'"
proof (rule pt_treeI)
  note T = pt_treeD [OF tree]
  have pn: "p \<noteq> n" using p(1) n(1) by auto
  let ?lv = "lv(n := lv p - 1)"
  {
    fix q assume "?lv q \<noteq> 0"
    then show "take_bit 12 q = 0" using T(1) n(2) by (auto split: if_splits)
  next
    fix q k
    assume q: "1 < ?lv q" "k < 512" "descends (m' (q + 8 * k))"
    then have "q \<noteq> n" using last by auto
    then have lq: "1 < lv q" using q(1) by simp
    then have c: "m' (q + 8 * k) = (if q = p \<and> k = j then e else m (q + 8 * k))"
      using cell q(2) by simp
    show "?lv (next_table (m' (q + 8 * k))) = ?lv q - 1"
    proof (cases "q = p \<and> k = j")
      case True
      then show ?thesis using c e pn by simp
    next
      case False
      then have c': "m' (q + 8 * k) = m (q + 8 * k)" using c by auto
      then have "lv (next_table (m (q + 8 * k))) = lv q - 1" using T(2) [OF lq q(2)] q(3) by simp
      then have "next_table (m (q + 8 * k)) \<noteq> n" using n(1) lq by auto
      then show ?thesis using \<open>lv (next_table (m (q + 8 * k))) = lv q - 1\<close> c' \<open>q \<noteq> n\<close> by simp
    qed
  next
    fix q k r l
    assume q: "1 < ?lv q" "1 < ?lv r" "k < 512" "l < 512" "descends (m' (q + 8 * k))"
      "descends (m' (r + 8 * l))" "next_table (m' (q + 8 * k)) = next_table (m' (r + 8 * l))"
    then have nn: "q \<noteq> n" "r \<noteq> n" using last by auto
    then have l: "1 < lv q" "1 < lv r" using q(1,2) by simp_all
    have c: "m' (q + 8 * k) = (if q = p \<and> k = j then e else m (q + 8 * k))"
      "m' (r + 8 * l) = (if r = p \<and> l = j then e else m (r + 8 * l))"
      using cell l q(3,4) by simp_all
    have old: "next_table (m (x + 8 * y)) \<noteq> n" if "1 < lv x" "y < 512" "descends (m (x + 8 * y))" for x y
      using T(2) [OF that] n(1) that(1) by auto
    show "q = r \<and> k = l"
    proof (cases "q = p \<and> k = j"; cases "r = p \<and> l = j")
      assume a: "q = p \<and> k = j" "\<not> (r = p \<and> l = j)"
      then have "m' (q + 8 * k) = e" "m' (r + 8 * l) = m (r + 8 * l)" using c by auto
      then show ?thesis using old [OF l(2) q(4)] q(6,7) e by simp
    next
      assume a: "\<not> (q = p \<and> k = j)" "r = p \<and> l = j"
      then have "m' (r + 8 * l) = e" "m' (q + 8 * k) = m (q + 8 * k)" using c by auto
      then show ?thesis using old [OF l(1) q(3)] q(5,7) e by simp
    next
      assume a: "\<not> (q = p \<and> k = j)" "\<not> (r = p \<and> l = j)"
      then have "m' (q + 8 * k) = m (q + 8 * k)" "m' (r + 8 * l) = m (r + 8 * l)" using c by auto
      then show ?thesis using T(3) [OF l q(3,4)] q(5-7) by simp
    qed simp
  }
qed

lemma add_table:
  assumes tree: "pt_tree lv m" and p: "1 < lv p" "j < 512" "m (p + 8 * j) AND PF_PRES = 0"
    and n: "lv n = 0" "take_bit 12 n = 0" and e: "descends e" "next_table e = n"
  defines "m' \<equiv> clear_page n (m(p + 8 * j := e))"
  shows "pt_tree (lv(n := lv p - 1)) m'"
    and "\<And>q k. lv q \<noteq> 0 \<Longrightarrow> k < 512 \<Longrightarrow> m' (q + 8 * k) = (if q = p \<and> k = j then e else m (q + 8 * k))"
    and "lv q \<noteq> 0 \<Longrightarrow> trans_loop m' a (lv q) q = trans_loop m a (lv q) q \<and>
      flags_loop m' a (lv q) q = flags_loop m a (lv q) q"
proof -
  note T = pt_treeD [OF tree]
  have pal: "take_bit 12 p = 0" using T(1) [of p] p(1) by simp
  have pn: "p \<noteq> n" using p(1) n(1) by auto
  show cell: "m' (q + 8 * k) = (if q = p \<and> k = j then e else m (q + 8 * k))"
    if "lv q \<noteq> 0" "k < 512" for q k
  proof -
    have qal: "take_bit 12 q = 0" using T(1) that(1) by simp
    have "q \<noteq> n" using that(1) n(1) by auto
    then show ?thesis
      using clear_page_cell [OF qal n(2) that(2)] cell_eq [OF qal pal that(2) p(2)]
      by (simp add: m'_def)
  qed
  have zero: "m' (n + 8 * k) = 0" if "k < 512" for k
    using clear_page_cell [OF n(2) n(2) that] by (simp add: m'_def)
  show "pt_tree (lv(n := lv p - 1)) m'"
    by (rule link_table [OF tree p(1,2) n e(2) cell]) (simp_all add: zero descends_def)
  show "trans_loop m' a (lv q) q = trans_loop m a (lv q) q \<and> flags_loop m' a (lv q) q = flags_loop m a (lv q) q"
    if "lv q \<noteq> 0" for q
    using that
  proof (induction "lv q" arbitrary: q)
    case 0
    then show ?case by simp
  next
    case (Suc k)
    let ?j = "pt_index (Suc k) a"
    note c = cell [OF Suc.prems pt_index_less [of "Suc k" a]]
    show ?case
    proof (cases "q = p \<and> ?j = j")
      case True
      then have k: "0 < k" using p(1) Suc.hyps(2) by auto
      have old: "m (pte_addr (Suc k) a q) AND PF_PRES = 0" using True p(3) by (simp add: pte_addr_def)
      have new: "m' (pte_addr (Suc k) a q) = e" using True c by (simp add: pte_addr_def)
      show ?thesis
        using old new e k walk_empty [where m = m', OF n(2) zero k]
        by (simp add: Suc.hyps(2) [symmetric] Let_def descends_def)
    next
      case False
      then have same: "m' (pte_addr (Suc k) a q) = m (pte_addr (Suc k) a q)"
        using c by (auto simp: pte_addr_def)
      show ?thesis
      proof (cases "descends (m (pte_addr (Suc k) a q)) \<and> k \<noteq> 0")
        case True
        then have "lv (next_table (m (q + 8 * ?j))) = k"
          using T(2) [of q ?j] pt_index_less [of "Suc k" a] Suc.hyps(2) by (simp add: pte_addr_def)
        then show ?thesis
          using same Suc.hyps(1) [of "next_table (m (q + 8 * ?j))"] True
          by (simp add: Suc.hyps(2) [symmetric] Let_def pte_addr_def)
      next
        case False
        then show ?thesis
          using same by (auto simp: Suc.hyps(2) [symmetric] Let_def descends_def)
      qed
    qed
  qed
qed

subsection \<open>Frames and flags in an entry\<close>

lemma frame_and_flag:
  assumes "x AND PF_BITS = 0" "f AND PF_BITS = f"
  shows "x AND f = 0"
proof -
  have "x AND f = (x AND PF_BITS) AND f" using assms(2) by (metis and.assoc and.commute)
  then show ?thesis using assms(1) by simp
qed

lemma entry_frame:
  assumes "x AND PF_BITS = 0" "f AND PF_BITS = f"
  shows "(x OR f) AND NOT PF_BITS = x" "(x OR f) AND PF_BITS = f"
proof -
  have x: "x AND NOT PF_BITS = x" using assms(1) by (simp add: bit_eq_iff bit_simps) blast
  have f: "f AND NOT PF_BITS = 0" using assms(2) by (simp add: bit_eq_iff bit_simps) blast
  show "(x OR f) AND NOT PF_BITS = x" by (simp only: bit.conj_disj_distrib2 x f or.right_neutral)
  show "(x OR f) AND PF_BITS = f" by (simp only: bit.conj_disj_distrib2 assms or.left_neutral)
qed

lemma entry_flag:
  assumes "x AND PF_BITS = 0" "g AND PF_BITS = g"
  shows "(x OR f) AND g = f AND g"
  using frame_and_flag [OF assms] by (simp add: bit.conj_disj_distrib2)

lemma pf_in_bits [simp]:
  "PF_PRES AND PF_BITS = PF_PRES" "PF_LARGE AND PF_BITS = PF_LARGE"
  by (simp_all add: pf_defs)

definition table_flags :: u64 where
  "table_flags = PF_VALID OR PF_PRES OR PF_WRITE OR PF_USER"

lemma table_flags_simps:
  "table_flags AND PF_BITS = table_flags" "table_flags AND PF_PRES \<noteq> 0" "table_flags AND PF_LARGE = 0"
  by (simp_all add: table_flags_def pf_defs)

text \<open>Flags with which an entry leads to the table at its frame.\<close>

definition link_flags :: "u64 \<Rightarrow> bool" where
  "link_flags f \<longleftrightarrow> f AND PF_BITS = f \<and> f AND PF_PRES \<noteq> 0 \<and> f AND PF_LARGE = 0"

lemma link_table_flags: "link_flags table_flags"
  by (simp add: link_flags_def table_flags_simps)

lemma table_entry:
  assumes "x AND PF_BITS = 0" "link_flags f"
  shows "descends (x OR f)" "next_table (x OR f) = x + page_base"
  using entry_flag [OF assms(1), of PF_PRES f] entry_flag [OF assms(1), of PF_LARGE f]
    entry_frame(1) [OF assms(1), of f] assms(2)
  by (simp_all add: descends_def next_table_def link_flags_def)

lemma low_frame:
  assumes "take_bit 12 x = (0 :: u64)" "unat x < 2 ^ 63"
  shows "x AND PF_BITS = 0"
proof -
  have "unat (drop_bit 63 x) = 0" using assms(2) by (simp add: drop_bit_eq_div unat_div_distrib)
  then have d: "drop_bit 63 x = 0" by (simp add: unsigned_eq_0_iff)
  have b: "\<not> bit x 63"
  proof
    assume "bit x 63"
    then have "bit (drop_bit 63 x) 0" by (simp add: bit_drop_bit_eq)
    then show False using d by simp
  qed
  have "PF_BITS = mask 12 OR push_bit 63 1" by (simp add: PF_BITS_def mask_eq_exp_minus_1)
  then have "x AND PF_BITS = (x AND mask 12) OR (x AND push_bit 63 1)"
    by (metis bit.conj_disj_distrib)
  moreover have "x AND mask 12 = 0" using assms(1) by (simp only: take_bit_eq_mask)
  moreover have "x AND push_bit 63 1 = 0"
    using b bit_iff_and_push_bit_not_eq_0 [of x 63] by blast
  ultimately show ?thesis by (metis or.left_neutral)
qed

text \<open>A page in the kernel's window, as a frame.\<close>

lemma window_frame:
  assumes "take_bit 12 p = 0" "page_base \<le> p"
  shows "(p - page_base) AND PF_BITS = 0"
proof (rule low_frame)
  have "take_bit 12 page_base = 0" by (simp add: page_base_def)
  then show "take_bit 12 (p - page_base) = 0" using page_aligned_arith(2) [OF assms(1)] by simp
  have "unat (p - page_base) = unat p - unat page_base" using assms(2) by (rule unat_sub)
  moreover have "unat p < 2 ^ 64" using unsigned_less [of p] by simp
  ultimately show "unat (p - page_base) < 2 ^ 63" by (simp add: page_base_def)
qed

subsection \<open>The descent that adds missing tables\<close>

text \<open>The page allocator as the paging code meets it: no page is ever given back.\<close>

definition pages_ok :: "kernel \<Rightarrow> bool" where
  "pages_ok s \<longleftrightarrow> pmm_ok s \<and> pge_list s = 0 \<and> pge_lock s = 0"

definition tables :: "(ptr \<Rightarrow> nat) \<Rightarrow> kernel \<Rightarrow> bool" where
  "tables lv s \<longleftrightarrow> pt_tree lv (mem s) \<and> pages_ok s \<and> (\<forall>p. lv p \<noteq> 0 \<longrightarrow> unat p < unat (brk s))"

definition pages_left :: "kernel \<Rightarrow> nat" where
  "pages_left s = (unat (pmm_alloc_limit s) - unat (pmm_alloc_base s)) div 0x1000"

lemma pages_left_room:
  assumes "0 < pages_left s"
  shows "pmm_alloc_base s \<noteq> pmm_alloc_limit s"
  using assms by (auto simp: pages_left_def)

lemma pge_alloc_table:
  assumes "pages_ok s" "0 < pages_left s"
  obtains t where "pge_alloc s = Some (brk s, t)" "pages_ok t" "unat (brk t) = unat (brk s) + 0x1000"
    "mem t = (mem s)(brk s := 0)" "pages_left t = pages_left s - 1" "pcx_root t = pcx_root s"
proof -
  from assms(1) have ok: "pge_lock s = 0" "pge_list s = 0" "pmm_ok s" by (simp_all add: pages_ok_def)
  note room = pages_left_room [OF assms(2)]
  let ?s1 = "s\<lparr>pmm_alloc_base := pmm_alloc_base s + 0x1000, pmm_mutex := 0\<rparr>"
  let ?t = "s\<lparr>pmm_alloc_base := pmm_alloc_base s + 0x1000, pmm_mutex := 0,
      mem := (mem s)(brk s := 0), pge_list := 0, pge_lock := 0\<rparr>"
  note step = pmm_alloc_step [OF ok(3) room]
  have v: "pmm_view ?t = pmm_view ?s1" by (simp add: pmm_view_def)
  have "unat (pmm_alloc_base s + 0x1000) = unat (pmm_alloc_base s) + 0x1000"
    using step(2) unat_brk [OF step(1)] unat_brk [OF ok(3)] by simp
  then have "pages_left ?t = pages_left s - 1" by (simp add: pages_left_def)
  moreover have "pages_ok ?t" using step(1) pmm_ok_view [OF v] by (simp add: pages_ok_def)
  ultimately show ?thesis
    using that [of ?t] pge_alloc_fresh [OF ok room] step(2) brk_view [OF v] by simp
qed

lemma brk_page:
  assumes "pages_ok s"
  shows "take_bit 12 (brk s) = 0" "page_base \<le> brk s" "brk s \<noteq> 0"
proof -
  from assms have ok: "pmm_ok s" by (simp add: pages_ok_def)
  then have "take_bit 12 (pmm_alloc_base s) = 0" "take_bit 12 (pmm_base s) = 0"
    by (simp_all add: pmm_ok_def page_aligned_iff)
  then show "take_bit 12 (brk s) = 0" unfolding brk_def by (rule page_aligned_arith)
  show "page_base \<le> brk s" "brk s \<noteq> 0" using brk_high [OF ok] brk_nonzero [OF ok] by (simp_all add: page_base_def)
qed

fun reaches :: "(ptr \<Rightarrow> u64) \<Rightarrow> u64 \<Rightarrow> nat \<Rightarrow> ptr \<Rightarrow> ptr \<Rightarrow> bool" where
  "reaches m addr (Suc (Suc k)) p x \<longleftrightarrow> descends (m (pte_addr (Suc (Suc k)) addr p)) \<and>
     reaches m addr (Suc k) (next_table (m (pte_addr (Suc (Suc k)) addr p))) x"
| "reaches m addr _ p x \<longleftrightarrow> p = x"

text \<open>What the descent keeps: levels, present entries and all translations.\<close>

definition grows :: "(ptr \<Rightarrow> nat) \<Rightarrow> (ptr \<Rightarrow> u64) \<Rightarrow> (ptr \<Rightarrow> nat) \<Rightarrow> (ptr \<Rightarrow> u64) \<Rightarrow> bool" where
  "grows lv m lv' m' \<longleftrightarrow> (\<forall>q. lv q \<noteq> 0 \<longrightarrow> lv' q = lv q \<and>
     (\<forall>k < 512. m (q + 8 * k) AND PF_PRES \<noteq> 0 \<or> lv q = 1 \<longrightarrow> m' (q + 8 * k) = m (q + 8 * k)) \<and>
     (\<forall>a. trans_loop m' a (lv q) q = trans_loop m a (lv q) q \<and>
       flags_loop m' a (lv q) q = flags_loop m a (lv q) q))"

lemma grows_refl [simp]: "grows lv m lv m"
  by (simp add: grows_def)

lemma grows_trans:
  assumes "grows lv m lv1 m1" "grows lv1 m1 lv2 m2"
  shows "grows lv m lv2 m2"
  unfolding grows_def
proof (intro allI impI conjI)
  fix q assume q: "lv q \<noteq> 0"
  with assms(1) have a: "lv1 q = lv q"
    "\<And>k. k < 512 \<Longrightarrow> m (q + 8 * k) AND PF_PRES \<noteq> 0 \<or> lv q = 1 \<Longrightarrow> m1 (q + 8 * k) = m (q + 8 * k)"
    "\<And>a. trans_loop m1 a (lv q) q = trans_loop m a (lv q) q"
    "\<And>a. flags_loop m1 a (lv q) q = flags_loop m a (lv q) q"
    unfolding grows_def by metis+
  from q a(1) assms(2) have b: "lv2 q = lv q"
    "\<And>k. k < 512 \<Longrightarrow> m1 (q + 8 * k) AND PF_PRES \<noteq> 0 \<or> lv q = 1 \<Longrightarrow> m2 (q + 8 * k) = m1 (q + 8 * k)"
    "\<And>a. trans_loop m2 a (lv q) q = trans_loop m1 a (lv q) q"
    "\<And>a. flags_loop m2 a (lv q) q = flags_loop m1 a (lv q) q"
    unfolding grows_def by metis+
  show "lv2 q = lv q" by (rule b(1))
  show "m2 (q + 8 * k) = m (q + 8 * k)" if "k < 512" "m (q + 8 * k) AND PF_PRES \<noteq> 0 \<or> lv q = 1" for k
    using a(2) [OF that] b(2) [OF that(1)] that(2) by auto
  show "trans_loop m2 a (lv q) q = trans_loop m a (lv q) q" for a using a(3) b(3) by simp
  show "flags_loop m2 a (lv q) q = flags_loop m a (lv q) q" for a using a(4) b(4) by simp
qed

text \<open>Allocating a table and linking it into an entry that is not present.\<close>

lemma tables_add:
  assumes tab: "tables lv s" and p: "1 < lv pt" "j < 512" "mem s (pt + 8 * j) AND PF_PRES = 0"
    and left: "0 < pages_left s" and f: "link_flags f"
  obtains t m where "pge_alloc s = Some (brk s, t)" "brk s \<noteq> 0" "lv (brk s) = 0"
    "clear_page (brk s) ((mem t)(pt + 8 * j := (brk s - page_base) OR f)) = m"
    "tables (lv(brk s := lv pt - 1)) (t\<lparr>mem := m\<rparr>)" "grows lv (mem s) (lv(brk s := lv pt - 1)) m"
    "m (pt + 8 * j) = (brk s - page_base) OR f" "\<And>k. k < 512 \<Longrightarrow> m (brk s + 8 * k) = 0"
    "\<And>q k. lv q \<noteq> 0 \<Longrightarrow> k < 512 \<Longrightarrow> q \<noteq> pt \<or> k \<noteq> j \<Longrightarrow> m (q + 8 * k) = mem s (q + 8 * k)"
    "descends ((brk s - page_base) OR f)" "next_table ((brk s - page_base) OR f) = brk s"
    "pages_left (t\<lparr>mem := m\<rparr>) = pages_left s - 1" "pcx_root t = pcx_root s"
proof -
  from tab have tree: "pt_tree lv (mem s)" and pok: "pages_ok s"
    and below: "\<And>p. lv p \<noteq> 0 \<Longrightarrow> unat p < unat (brk s)" by (simp_all add: tables_def)
  note B = brk_page [OF pok]
  obtain t where t: "pge_alloc s = Some (brk s, t)" "pages_ok t" "unat (brk t) = unat (brk s) + 0x1000"
    "mem t = (mem s)(brk s := 0)" "pages_left t = pages_left s - 1" "pcx_root t = pcx_root s"
    using pge_alloc_table [OF pok left] by metis
  let ?n = "brk s"
  let ?e = "(?n - page_base) OR f"
  have ln: "lv ?n = 0" using below [of ?n] by auto
  have win: "(?n - page_base) AND PF_BITS = 0" by (rule window_frame [OF B(1,2)])
  have e: "descends ?e" "next_table ?e = ?n" using table_entry [OF win f] by simp_all
  let ?m = "clear_page ?n ((mem s)(pt + 8 * j := ?e))"
  let ?s1 = "t\<lparr>mem := ?m\<rparr>"
  let ?lv1 = "lv(?n := lv pt - 1)"
  note A = add_table [OF tree p ln B(1) e]
  have z: "clear_page ?n ((mem t)(pt + 8 * j := ?e)) = ?m"
  proof -
    have "pt + 8 * j \<noteq> ?n"
    proof
      assume "pt + 8 * j = ?n"
      then have "pt + 8 * j = ?n + 8 * 0" by simp
      then have "pt = ?n" using cell_eq [of pt ?n j 0] pt_treeD(1) [OF tree, of pt] p B(1) by simp
      then show False using ln p by simp
    qed
    then show ?thesis by (auto simp: t(4) clear_page_def fun_eq_iff)
  qed
  have tab1: "tables ?lv1 ?s1"
  proof -
    have "pages_ok ?s1" using t(2) by (simp add: pages_ok_def pmm_ok_def)
    moreover have "brk ?s1 = brk t" by (simp add: brk_def)
    moreover have "unat q < unat (brk t)" if "?lv1 q \<noteq> 0" for q
      using that below [of q] t(3) by (auto split: if_splits)
    ultimately show ?thesis using A(1) by (simp add: tables_def)
  qed
  have grow: "grows lv (mem s) ?lv1 ?m"
    unfolding grows_def
  proof (intro allI impI conjI)
    fix q assume q: "lv q \<noteq> 0"
    then show "?lv1 q = lv q" using ln by auto
    show "?m (q + 8 * k) = mem s (q + 8 * k)"
      if "k < 512" "mem s (q + 8 * k) AND PF_PRES \<noteq> 0 \<or> lv q = 1" for k
      using A(2) [OF q that(1)] that(2) p by auto
    show "trans_loop ?m a (lv q) q = trans_loop (mem s) a (lv q) q" for a using A(3) [OF q] by blast
    show "flags_loop ?m a (lv q) q = flags_loop (mem s) a (lv q) q" for a using A(3) [OF q] by blast
  qed
  have new: "?m (pt + 8 * j) = ?e" using A(2) [of pt j] p by simp
  have zero: "?m (?n + 8 * k) = 0" if "k < 512" for k
    using clear_page_cell [OF B(1,1) that] by simp
  have other: "?m (q + 8 * k) = mem s (q + 8 * k)" if "lv q \<noteq> 0" "k < 512" "q \<noteq> pt \<or> k \<noteq> j" for q k
    using A(2) [OF that(1,2)] that(3) by auto
  have "pages_left ?s1 = pages_left s - 1" using t(5) by (simp add: pages_left_def)
  then show ?thesis
    using that [of t ?m] t(1,6) B(3) ln z tab1 grow new zero other e by simp
qed

text \<open>One level: the entry for the address is present afterwards.\<close>

lemma set_frame_level:
  assumes tab: "tables lv s" and p: "1 < lv pt"
    and room: "mem s (pte_addr i addr pt) AND PF_PRES = 0 \<Longrightarrow> 0 < pages_left s"
  obtains s1 lv1 where "(let a = pte_addr i addr pt in if mem s a AND PF_PRES = 0 then do {
      (newpt, s) \<leftarrow> pge_alloc s;
      let s = s\<lparr>mem := (mem s)
        (a := (newpt - page_base) OR PF_VALID OR PF_PRES OR PF_WRITE OR PF_USER)\<rparr>;
      _ \<leftarrow> deref newpt;
      Some (s\<lparr>mem := clear_page newpt (mem s)\<rparr>)
    } else Some s) = Some s1"
    "tables lv1 s1" "grows lv (mem s) lv1 (mem s1)" "pcx_root s1 = pcx_root s"
    "mem s1 (pte_addr i addr pt) AND PF_PRES \<noteq> 0" "pages_left s - 1 \<le> pages_left s1"
    "descends (mem s1 (pte_addr i addr pt)) \<longrightarrow> lv1 (next_table (mem s1 (pte_addr i addr pt))) = lv pt - 1"
proof (cases "mem s (pte_addr i addr pt) AND PF_PRES = 0")
  case False
  have tree: "pt_tree lv (mem s)" using tab by (simp add: tables_def)
  show ?thesis
    using that [of s lv] False tab pt_treeD(2) [OF tree p pt_index_less [of i addr]]
    by (simp add: pte_addr_def)
next
  case True
  let ?j = "pt_index i addr"
  have j: "?j < 512" by (rule pt_index_less)
  have old: "mem s (pt + 8 * ?j) AND PF_PRES = 0" using True by (simp add: pte_addr_def)
  show ?thesis
  proof (rule tables_add [OF tab p j old room [OF True] link_table_flags])
    let ?e = "(brk s - page_base) OR table_flags" and ?lv = "lv(brk s := lv pt - 1)"
    fix t m
    assume t: "pge_alloc s = Some (brk s, t)" "brk s \<noteq> 0"
      "clear_page (brk s) ((mem t)(pt + 8 * ?j := ?e)) = m" "tables ?lv (t\<lparr>mem := m\<rparr>)"
      "grows lv (mem s) ?lv m" "m (pt + 8 * ?j) = ?e" "descends ?e" "next_table ?e = brk s"
      "pages_left (t\<lparr>mem := m\<rparr>) = pages_left s - 1" "pcx_root t = pcx_root s"
    have e: "(brk s - page_base) OR PF_VALID OR PF_PRES OR PF_WRITE OR PF_USER = ?e"
      by (simp add: table_flags_def or.assoc)
    have "?e AND PF_PRES \<noteq> 0" using t(7) by (simp add: descends_def)
    then show ?thesis
      using True t(1-6,8-10)
      by (intro that [of "t\<lparr>mem := m\<rparr>" ?lv]) (simp_all add: Let_def e pte_addr_def)
  qed
qed

lemma tables_unlock: "tables lv s \<Longrightarrow> tables lv (pcx_unlock s)"
  by (simp add: tables_def pages_ok_def pmm_ok_def pcx_unlock_def brk_def)

lemma set_frame_loop_spec:
  assumes "tables lv s" "lv pt = i" "1 \<le> i" "i - 1 \<le> pages_left s"
  shows "\<exists>r t lv'. set_frame_loop addr i pt s = Some (r, t) \<and> tables lv' t \<and>
    grows lv (mem s) lv' (mem t) \<and> pcx_root t = pcx_root s \<and>
    pages_left s - (i - 1) \<le> pages_left t \<and>
    (\<forall>x. r = Some x \<longrightarrow> lv' x = 1 \<and> reaches (mem t) addr i pt x)"
  using assms
proof (induction i arbitrary: lv pt s)
  case 0
  then show ?case by simp
next
  case (Suc k)
  show ?case
  proof (cases k)
    case 0
    then have "set_frame_loop addr (Suc k) pt s = Some (Some pt, s)"
      by (simp add: set_frame_loop.simps [of addr "Suc 0" pt s])
    moreover have "reaches (mem s) addr (Suc k) pt pt" using 0 by simp
    ultimately show ?thesis using Suc.prems 0 grows_refl by fastforce
  next
    case (Suc j)
    then have lp: "1 < lv pt" and left: "0 < pages_left s" using Suc.prems by simp_all
    let ?a = "pte_addr (Suc k) addr pt"
    obtain s1 lv1 where s1: "(let a = ?a in if mem s a AND PF_PRES = 0 then do {
        (newpt, s) \<leftarrow> pge_alloc s;
        let s = s\<lparr>mem := (mem s)
          (a := (newpt - page_base) OR PF_VALID OR PF_PRES OR PF_WRITE OR PF_USER)\<rparr>;
        _ \<leftarrow> deref newpt;
        Some (s\<lparr>mem := clear_page newpt (mem s)\<rparr>)
      } else Some s) = Some s1"
      "tables lv1 s1" "grows lv (mem s) lv1 (mem s1)" "pcx_root s1 = pcx_root s"
      "mem s1 ?a AND PF_PRES \<noteq> 0" "pages_left s - 1 \<le> pages_left s1"
      "descends (mem s1 ?a) \<longrightarrow> lv1 (next_table (mem s1 ?a)) = lv pt - 1"
      by (rule set_frame_level [OF Suc.prems(1) lp left, where i = "Suc k" and addr = addr]) (rule that)
    have body: "set_frame_loop addr (Suc k) pt s =
        (if mem s1 ?a AND PF_LARGE \<noteq> 0 then Some (None, pcx_unlock s1)
         else set_frame_loop addr k (next_table (mem s1 ?a)) s1)"
      using s1(1) Suc unfolding set_frame_loop.simps [of addr "Suc k" pt s] by (simp add: Let_def)
    show ?thesis
    proof (cases "mem s1 ?a AND PF_LARGE = 0")
      case False
      then have "set_frame_loop addr (Suc k) pt s = Some (None, pcx_unlock s1)" using body by simp
      moreover have "mem (pcx_unlock s1) = mem s1" "pcx_root (pcx_unlock s1) = pcx_root s1"
        "pages_left (pcx_unlock s1) = pages_left s1"
        by (simp_all add: pcx_unlock_def pages_left_def)
      moreover have "pages_left s - k \<le> pages_left s1" using s1(6) Suc by simp
      ultimately show ?thesis using tables_unlock [OF s1(2)] s1(3,4) by auto
    next
      case True
      let ?n = "next_table (mem s1 ?a)"
      have desc: "descends (mem s1 ?a)" using True s1(5) by (simp add: descends_def)
      have ln: "lv1 ?n = k" using s1(7) desc Suc.prems(2) by simp
      have "1 \<le> k" "k - 1 \<le> pages_left s1" using Suc Suc.prems(4) s1(6) by simp_all
      from Suc.IH [OF s1(2) ln this] obtain r t lv' where t:
        "set_frame_loop addr k ?n s1 = Some (r, t)" "tables lv' t" "grows lv1 (mem s1) lv' (mem t)"
        "pcx_root t = pcx_root s1" "pages_left s1 - (k - 1) \<le> pages_left t"
        "\<forall>x. r = Some x \<longrightarrow> lv' x = 1 \<and> reaches (mem t) addr k ?n x" by blast
      have "lv1 pt \<noteq> 0" using s1(3) lp by (simp add: grows_def)
      then have same: "mem t ?a = mem s1 ?a"
        using t(3) s1(5) pt_index_less [of "Suc k" addr] by (simp add: grows_def pte_addr_def)
      have "\<forall>x. r = Some x \<longrightarrow> lv' x = 1 \<and> reaches (mem t) addr (Suc k) pt x"
        using t(6) desc same Suc by simp
      moreover have "pages_left s - k \<le> pages_left t" using t(5) s1(6) Suc by simp
      ultimately show ?thesis
        using body True t grows_trans [OF s1(3) t(3)] s1(4) by auto
    qed
  qed
qed

text \<open>Two addresses that reach the same last table share all the indices above it.\<close>

lemma reaches_unique:
  assumes "pt_tree lv m" "lv p = i" "lv q = i" "1 \<le> i" "reaches m a i p x" "reaches m b i q x"
  shows "p = q \<and> (\<forall>k. 2 \<le> k \<and> k \<le> i \<longrightarrow> pt_index k a = pt_index k b)"
  using assms(2-)
proof (induction i arbitrary: p q)
  case 0
  then show ?case by simp
next
  case (Suc i)
  show ?case
  proof (cases i)
    case 0
    then show ?thesis using Suc.prems by auto
  next
    case (Suc j)
    let ?pa = "pte_addr (Suc i) a p" and ?qb = "pte_addr (Suc i) b q"
    from Suc.prems(4,5) Suc have d: "descends (m ?pa)" "descends (m ?qb)"
      "reaches m a i (next_table (m ?pa)) x" "reaches m b i (next_table (m ?qb)) x" by simp_all
    have l: "1 < lv p" "1 < lv q" using Suc.prems(1,2) Suc by simp_all
    note T = pt_treeD [OF assms(1)]
    have n: "lv (next_table (m ?pa)) = i" "lv (next_table (m ?qb)) = i"
      using T(2) [OF l(1) pt_index_less [of "Suc i" a]] T(2) [OF l(2) pt_index_less [of "Suc i" b]]
        d(1,2) Suc.prems(1,2) by (simp_all add: pte_addr_def)
    from Suc.IH [OF n _ d(3,4)] Suc have e: "next_table (m ?pa) = next_table (m ?qb)"
      "\<forall>k. 2 \<le> k \<and> k \<le> i \<longrightarrow> pt_index k a = pt_index k b" by simp_all
    have "p = q \<and> pt_index (Suc i) a = pt_index (Suc i) b"
      using T(3) [OF l pt_index_less pt_index_less] d(1,2) e(1) by (simp add: pte_addr_def)
    then show ?thesis using e(2) by (metis le_SucE)
  qed
qed

text \<open>Writing an entry of a last table: addresses that come through it, and all others.\<close>

lemma leaf_write_tree:
  assumes "pt_tree lv m" "lv x = 1" "j < 512"
  shows "pt_tree lv (m(x + 8 * j := e))"
    and "1 < lv q \<Longrightarrow> k < 512 \<Longrightarrow> (m(x + 8 * j := e)) (q + 8 * k) = m (q + 8 * k)"
proof -
  note T = pt_treeD [OF assms(1)]
  have xal: "take_bit 12 x = 0" using T(1) [of x] assms(2) by simp
  show same: "(m(x + 8 * j := e)) (q + 8 * k) = m (q + 8 * k)" if "1 < lv q" "k < 512" for q k
  proof -
    have "take_bit 12 q = 0" using T(1) [of q] that(1) by simp
    then have "q + 8 * k \<noteq> x + 8 * j" using cell_eq [OF _ xal that(2) assms(3)] that(1) assms(2) by auto
    then show ?thesis by simp
  qed
  show "pt_tree lv (m(x + 8 * j := e))"
    by (rule pt_treeI) (use same T in \<open>simp_all del: fun_upd_apply\<close>)
qed

lemma leaf_write_reaches:
  assumes "pt_tree lv m" "lv x = 1" "j < 512" "lv q = k" "1 \<le> k"
  shows "reaches (m(x + 8 * j := e)) a k q y = reaches m a k q y"
  using assms(4,5)
proof (induction k arbitrary: q)
  case 0
  then show ?case by simp
next
  case (Suc k)
  show ?case
  proof (cases k)
    case 0
    then show ?thesis by simp
  next
    case (Suc i)
    note same = leaf_write_tree(2) [OF assms(1-3), of q "pt_index (Suc k) a" e]
    have l: "1 < lv q" using Suc.prems Suc by simp
    then have c: "(m(x + 8 * j := e)) (pte_addr (Suc k) a q) = m (pte_addr (Suc k) a q)"
      using same pt_index_less [of "Suc k" a] by (simp add: pte_addr_def del: fun_upd_apply)
    show ?thesis
    proof (cases "descends (m (pte_addr (Suc k) a q))")
      case True
      then have "lv (next_table (m (pte_addr (Suc k) a q))) = k"
        using pt_treeD(2) [OF assms(1) l pt_index_less [of "Suc k" a]] Suc.prems(1)
        by (simp add: pte_addr_def)
      then show ?thesis using Suc.IH c Suc by (simp del: fun_upd_apply)
    next
      case False
      then show ?thesis using c Suc by (simp del: fun_upd_apply)
    qed
  qed
qed

lemma leaf_write_other:
  assumes "pt_tree lv m" "lv x = 1" "j < 512" "lv q = k" "1 \<le> k"
    and "\<not> (reaches m a k q x \<and> pt_index 1 a = j)"
  shows "trans_loop (m(x + 8 * j := e)) a k q = trans_loop m a k q \<and>
    flags_loop (m(x + 8 * j := e)) a k q = flags_loop m a k q"
  using assms(4-)
proof (induction k arbitrary: q)
  case 0
  then show ?case by simp
next
  case (Suc k)
  let ?m = "m(x + 8 * j := e)"
  let ?c = "pte_addr (Suc k) a q"
  have qal: "take_bit 12 q = 0" using pt_treeD(1) [OF assms(1)] Suc.prems(1) by simp
  have xal: "take_bit 12 x = 0" using pt_treeD(1) [OF assms(1)] assms(2) by simp
  show ?case
  proof (cases k)
    case 0
    then have "\<not> (q = x \<and> pt_index 1 a = j)" using Suc.prems(3) by simp
    then have "?c \<noteq> x + 8 * j"
      using cell_eq [OF qal xal pt_index_less assms(3)] 0 by (simp add: pte_addr_def)
    then have "?m ?c = m ?c" by simp
    then show ?thesis using 0 by (simp add: Let_def del: fun_upd_apply)
  next
    case (Suc i)
    have l: "1 < lv q" using Suc.prems(1) Suc by simp
    then have c: "?m ?c = m ?c"
      using leaf_write_tree(2) [OF assms(1-3), of q "pt_index (Suc k) a" e] pt_index_less [of "Suc k" a]
      by (simp add: pte_addr_def del: fun_upd_apply)
    show ?thesis
    proof (cases "descends (m ?c)")
      case True
      have "lv (next_table (m ?c)) = k"
        using pt_treeD(2) [OF assms(1) l pt_index_less [of "Suc k" a]] True Suc.prems(1)
        by (simp add: pte_addr_def)
      moreover have "\<not> (reaches m a k (next_table (m ?c)) x \<and> pt_index 1 a = j)"
        using Suc.prems(3) True Suc by simp
      ultimately show ?thesis
        using Suc.IH [of "next_table (m ?c)"] c Suc by (simp add: Let_def del: fun_upd_apply)
    next
      case False
      then show ?thesis using c by (auto simp: Let_def descends_def simp del: fun_upd_apply)
    qed
  qed
qed

text \<open>An address whose descent ends at a last table reads that table's entry.\<close>

lemma reaches_trans:
  assumes "reaches m a (Suc k) p x"
  shows "trans_loop m a (Suc k) p = trans_loop m a 1 x" "flags_loop m a (Suc k) p = flags_loop m a 1 x"
proof -
  have "trans_loop m a (Suc k) p = trans_loop m a 1 x \<and> flags_loop m a (Suc k) p = flags_loop m a 1 x"
    using assms
  proof (induction k arbitrary: p)
    case 0
    then show ?case by simp
  next
    case (Suc k)
    then have d: "descends (m (pte_addr (Suc (Suc k)) a p))"
      "reaches m a (Suc k) (next_table (m (pte_addr (Suc (Suc k)) a p))) x" by simp_all
    from Suc.IH [OF d(2)] d(1) show ?case by (simp add: Let_def descends_def)
  qed
  then show "trans_loop m a (Suc k) p = trans_loop m a 1 x" "flags_loop m a (Suc k) p = flags_loop m a 1 x"
    by simp_all
qed

lemma reaches_cong:
  assumes "\<And>k. 2 \<le> k \<Longrightarrow> k \<le> i \<Longrightarrow> pt_index k a = pt_index k b"
  shows "reaches m a i p x = reaches m b i p x"
  using assms
proof (induction i arbitrary: p)
  case 0
  then show ?case by simp
next
  case (Suc i)
  then show ?case by (cases i) (simp_all add: pte_addr_def)
qed

subsection \<open>Mapping a frame\<close>

text \<open>Addresses that all four indices agree on, and what a last-level entry translates to.\<close>

definition same_page :: "u64 \<Rightarrow> u64 \<Rightarrow> bool" where
  "same_page a b \<longleftrightarrow> (\<forall>k. 1 \<le> k \<and> k \<le> 4 \<longrightarrow> pt_index k a = pt_index k b)"

definition leaf_trans :: "u64 \<Rightarrow> u64 \<Rightarrow> u64" where
  "leaf_trans e a = (if e AND PF_PRES = 0 then - 1 else (e AND NOT PF_BITS) + (a AND 0xFFF))"

definition leaf_flags :: "u64 \<Rightarrow> u64" where
  "leaf_flags e = (if e AND PF_PRES = 0 then 0 else e AND PF_BITS)"

lemma leaf_walk:
  "trans_loop m a 1 x = Some (leaf_trans (m (pte_addr 1 a x)) a)"
  "flags_loop m a 1 x = leaf_flags (m (pte_addr 1 a x))"
  by (simp_all add: leaf_trans_def leaf_flags_def offset_mask_def level_shift_def Let_def mask_eq_exp_minus_1)

lemma set_frame_spec:
  assumes tab: "tables lv s" and root: "lv (pcx_root s) = 4" and left: "3 \<le> pages_left s"
    and al: "sz AND 0xFFF = 0" "addr AND 0xFFF = 0"
  shows "\<exists>e t lv'. pcx_set_frame 0 addr sz frame flags s = Some (e, t) \<and> tables lv' t \<and>
    lv' (pcx_root t) = 4 \<and> pcx_root t = pcx_root s \<and> pages_left s - 3 \<le> pages_left t \<and>
    (\<forall>a. if e = 0 \<and> same_page a addr
       then trans_loop (mem t) a 4 (pcx_root s) = Some (leaf_trans (frame OR flags) a) \<and>
         flags_loop (mem t) a 4 (pcx_root s) = leaf_flags (frame OR flags)
       else trans_loop (mem t) a 4 (pcx_root s) = trans_loop (mem s) a 4 (pcx_root s) \<and>
         flags_loop (mem t) a 4 (pcx_root s) = flags_loop (mem s) a 4 (pcx_root s))"
proof -
  let ?root = "pcx_root s"
  from set_frame_loop_spec [OF tab root, of addr] left obtain r t lv' where t:
    "set_frame_loop addr 4 ?root s = Some (r, t)" "tables lv' t" "grows lv (mem s) lv' (mem t)"
    "pcx_root t = ?root" "\<forall>x. r = Some x \<longrightarrow> lv' x = 1 \<and> reaches (mem t) addr 4 ?root x"
    "pages_left s - 3 \<le> pages_left t" by auto
  have lr: "lv' ?root = 4" using t(3) root unfolding grows_def by (metis zero_neq_numeral)
  have keep: "trans_loop (mem t) a 4 ?root = trans_loop (mem s) a 4 ?root"
    "flags_loop (mem t) a 4 ?root = flags_loop (mem s) a 4 ?root" for a
    using t(3) root unfolding grows_def by (metis zero_neq_numeral)+
  show ?thesis
  proof (cases r)
    case None
    then have "pcx_set_frame 0 addr sz frame flags s = Some (1, t)"
      using t(1) al by (simp add: pcx_set_frame_def pcx_arg_def)
    moreover have "\<not> ((1 :: u32) = 0 \<and> same_page a addr)" for a by simp
    ultimately show ?thesis using t(2,4,6) lr keep by (intro exI [of _ 1] exI [of _ t] exI [of _ lv']) simp
  next
    case (Some x)
    then have x: "lv' x = 1" "reaches (mem t) addr 4 ?root x" using t(5) by simp_all
    let ?j = "pt_index 1 addr" and ?e = "frame OR flags"
    let ?m = "(mem t)(x + 8 * ?j := ?e)"
    let ?u = "t\<lparr>mem := ?m\<rparr>"
    have tree: "pt_tree lv' (mem t)" using t(2) by (simp add: tables_def)
    note W = leaf_write_tree(1) [OF tree x(1) pt_index_less, of 1 addr ?e]
    have "pages_ok ?u" using t(2) by (simp add: tables_def pages_ok_def pmm_ok_def)
    moreover have "brk ?u = brk t" by (simp add: brk_def)
    ultimately have tu: "tables lv' ?u" using W t(2) by (simp add: tables_def)
    have set: "pcx_set_frame 0 addr sz frame flags s = Some (0, ?u)"
      using t(1) Some al by (simp add: pcx_set_frame_def pcx_arg_def pte_addr_def)
    have n4: "(4 :: nat) = Suc 3" by simp
    have "if (0 :: u32) = 0 \<and> same_page a addr
       then trans_loop ?m a 4 ?root = Some (leaf_trans ?e a) \<and> flags_loop ?m a 4 ?root = leaf_flags ?e
       else trans_loop ?m a 4 ?root = trans_loop (mem s) a 4 ?root \<and>
         flags_loop ?m a 4 ?root = flags_loop (mem s) a 4 ?root" for a
    proof (cases "same_page a addr")
      case True
      then have "reaches (mem t) a 4 ?root x"
        using x(2) reaches_cong [of 4 a addr "mem t" ?root x] by (simp add: same_page_def)
      then have "reaches ?m a (Suc 3) ?root x"
        using leaf_write_reaches [OF tree x(1) pt_index_less lr, of 1 addr ?e a x]
        by (simp del: fun_upd_apply reaches.simps)
      from reaches_trans [OF this] have "trans_loop ?m a 4 ?root = trans_loop ?m a 1 x"
        "flags_loop ?m a 4 ?root = flags_loop ?m a 1 x" unfolding n4 by blast+
      moreover have "?m (pte_addr 1 a x) = ?e" using True by (simp add: same_page_def pte_addr_def)
      ultimately show ?thesis using True unfolding leaf_walk by simp
    next
      case False
      have "\<not> (reaches (mem t) a 4 ?root x \<and> pt_index 1 a = ?j)"
      proof
        assume r: "reaches (mem t) a 4 ?root x \<and> pt_index 1 a = ?j"
        with reaches_unique [OF tree lr lr _ _ x(2), of a]
        have "\<forall>k. 2 \<le> k \<and> k \<le> 4 \<longrightarrow> pt_index k a = pt_index k addr" by simp
        moreover have "k = 1 \<or> 2 \<le> k" if "1 \<le> k" for k :: nat using that by linarith
        ultimately show False using r False unfolding same_page_def by metis
      qed
      from leaf_write_other [OF tree x(1) pt_index_less lr _ this] False keep show ?thesis
        by (simp del: fun_upd_apply)
    qed
    then have "\<forall>a. if (0 :: u32) = 0 \<and> same_page a addr
       then trans_loop (mem ?u) a 4 ?root = Some (leaf_trans ?e a) \<and> flags_loop (mem ?u) a 4 ?root = leaf_flags ?e
       else trans_loop (mem ?u) a 4 ?root = trans_loop (mem s) a 4 ?root \<and>
         flags_loop (mem ?u) a 4 ?root = flags_loop (mem s) a 4 ?root"
      by (simp del: fun_upd_apply One_nat_def)
    moreover have "lv' (pcx_root ?u) = 4" "pcx_root ?u = ?root" "pages_left s - 3 \<le> pages_left ?u"
      using lr t(4,6) by (simp_all add: pages_left_def)
    ultimately show ?thesis using set tu by blast
  qed
qed

end
