(* ===== verification/Page_Calls.thy ===== *)
theory Page_Calls
  imports Page_Tables Page_Api
begin

text \<open>
  The calls \<open>page_set\<close> and \<open>page_get\<close> on the page table tree: a region that is mapped page
  by page, and what a later lookup reports.
\<close>

subsection \<open>Pages of a region\<close>

definition page_at :: "u64 \<Rightarrow> nat \<Rightarrow> u64" where
  "page_at x j = x + of_nat j * 0x1000"

lemma page_at_0 [simp]: "page_at x 0 = x"
  by (simp add: page_at_def)

lemma page_at_Suc: "page_at x (Suc j) = page_at (x + 0x1000) j"
  by (simp add: page_at_def algebra_simps)

lemma same_page_refl [simp]: "same_page a a"
  by (simp add: same_page_def)

lemma same_page_trans: "same_page a b \<Longrightarrow> same_page a c \<Longrightarrow> same_page b c"
  by (simp add: same_page_def)

lemma pt_index_bits: "bit (pt_index i a) n \<longleftrightarrow> n < 9 \<and> bit a (level_shift i + n)"
proof -
  have "(0x1FF :: u64) = mask 9" by (simp add: mask_eq_exp_minus_1)
  show ?thesis unfolding pt_index_def \<open>0x1FF = mask 9\<close>
    by (auto simp: bit_simps dest: bit_imp_le_length)
qed

text \<open>Four indices of nine bits each: an address is looked up by its bits 12 to 47.\<close>

lemma same_page_bits: "same_page a b \<longleftrightarrow> (\<forall>n. 12 \<le> n \<and> n < 48 \<longrightarrow> bit a n = bit b n)"
proof
  assume s: "same_page a b"
  show "\<forall>n. 12 \<le> n \<and> n < 48 \<longrightarrow> bit a n = bit b n"
  proof (intro allI impI)
    fix n :: nat assume n: "12 \<le> n \<and> n < 48"
    let ?i = "Suc ((n - 12) div 9)" and ?r = "(n - 12) mod 9"
    have "level_shift ?i + ?r = n" using n by (simp add: level_shift_def)
    moreover have "1 \<le> ?i \<and> ?i \<le> 4" using n by auto
    moreover have "?r < 9" by simp
    ultimately show "bit a n = bit b n" using s pt_index_bits [of ?i a ?r] pt_index_bits [of ?i b ?r]
      unfolding same_page_def by metis
  qed
next
  assume e: "\<forall>n. 12 \<le> n \<and> n < 48 \<longrightarrow> bit a n = bit b n"
  show "same_page a b"
    unfolding same_page_def
  proof (intro allI impI bit_word_eqI)
    fix k n :: nat assume "1 \<le> k \<and> k \<le> 4"
    then show "bit (pt_index k a) n = bit (pt_index k b) n"
      using e by (auto simp: pt_index_bits level_shift_def)
  qed
qed

lemma same_page_take:
  assumes "take_bit 12 a = 0" "take_bit 12 b = 0" "same_page a b"
  shows "take_bit 48 (unat a) = take_bit 48 (unat b)"
proof -
  have low: "\<not> bit x n" if "take_bit 12 x = 0" "n < 12" for x :: u64 and n
    using that by (metis bit_take_bit_iff bit_0_eq bot_apply bot_bool_def)
  have "take_bit 48 a = take_bit 48 b"
  proof (rule bit_word_eqI)
    fix n show "bit (take_bit 48 a) n = bit (take_bit 48 b) n"
      using assms(3) low [OF assms(1), of n] low [OF assms(2), of n]
      by (cases "n < 12") (auto simp: bit_simps same_page_bits not_less)
  qed
  then show ?thesis by (metis unsigned_take_bit_eq)
qed

lemma page_at_apart:
  assumes "take_bit 12 v = 0" "i < j" "j < 2 ^ 36"
  shows "\<not> same_page (page_at v i) (page_at v j)"
proof
  assume s: "same_page (page_at v i) (page_at v j)"
  have al: "take_bit 12 (page_at v l) = 0" for l
  proof -
    have "2 ^ 12 dvd v" using assms(1) by (simp add: take_bit_eq_0_iff)
    moreover have "(0x1000 :: u64) = 2 ^ 12" by simp
    then have "2 ^ 12 dvd of_nat l * (0x1000 :: u64)" by (metis dvd_triv_right)
    ultimately show ?thesis by (simp add: take_bit_eq_0_iff page_at_def)
  qed
  have u: "take_bit 48 (unat (page_at v l)) = (unat v + l * 0x1000) mod 2 ^ 48" for l
  proof -
    have "page_at v l = of_nat (unat v + l * 0x1000)" by (simp add: page_at_def)
    then have "unat (page_at v l) = take_bit 64 (unat v + l * 0x1000)"
      by (simp only: unsigned_of_nat) simp
    then show ?thesis by (simp add: take_bit_eq_mod mod_mod_cancel)
  qed
  from same_page_take [OF al al s] have "(unat v + i * 0x1000) mod 2 ^ 48 = (unat v + j * 0x1000) mod 2 ^ 48"
    by (simp only: u)
  then have "(2 :: nat) ^ 48 dvd (unat v + j * 0x1000) - (unat v + i * 0x1000)"
    using assms(2) mod_eq_dvd_iff_nat [of "unat v + i * 0x1000" "unat v + j * 0x1000" "2 ^ 48"] by simp
  then have "(2 :: nat) ^ 48 dvd (j - i) * 0x1000" by (simp add: diff_mult_distrib)
  moreover have "0 < (j - i) * 0x1000" "(j - i) * 0x1000 < 2 ^ 48" using assms(2,3) by simp_all
  ultimately show False using nat_dvd_not_less by blast
qed

subsection \<open>Mapping a region\<close>

definition walk :: "kernel \<Rightarrow> u64 \<Rightarrow> u64 option \<times> u64" where
  "walk s a = (trans_loop (mem s) a 4 (pcx_root s), flags_loop (mem s) a 4 (pcx_root s))"

definition leaf :: "u64 \<Rightarrow> u64 \<Rightarrow> u64 option \<times> u64" where
  "leaf e a = (Some (leaf_trans e a), leaf_flags e)"

text \<open>The first \<open>k\<close> pages of a region are mapped as told, everything else as before.\<close>

definition region_mapped :: "nat \<Rightarrow> u64 \<Rightarrow> u64 \<Rightarrow> u64 \<Rightarrow> kernel \<Rightarrow> kernel \<Rightarrow> bool" where
  "region_mapped k v p flags s t \<longleftrightarrow>
     (\<forall>j a. j < k \<longrightarrow> same_page a (page_at v j) \<longrightarrow> walk t a = leaf (page_at p j OR flags) a) \<and>
     (\<forall>a. (\<forall>j < k. \<not> same_page a (page_at v j)) \<longrightarrow> walk t a = walk s a)"

definition rooted :: "(ptr \<Rightarrow> nat) \<Rightarrow> kernel \<Rightarrow> bool" where
  "rooted lv s \<longleftrightarrow> tables lv s \<and> lv (pcx_root s) = 4"

lemma set_frame_walk:
  assumes "rooted lv s" "3 \<le> pages_left s" "take_bit 12 addr = 0"
  obtains e t lv' where "pcx_set_frame 0 addr 0x1000 frame flags s = Some (e, t)" "rooted lv' t"
    "pages_left s - 3 \<le> pages_left t"
    "e = 0 \<Longrightarrow> region_mapped 1 addr frame flags s t" "e \<noteq> 0 \<Longrightarrow> walk t = walk s"
proof -
  have "addr AND mask 12 = 0" using assms(3) by (simp only: take_bit_eq_mask)
  then have al: "addr AND 0xFFF = 0" by (simp add: mask_eq_exp_minus_1)
  from assms(1) have r: "tables lv s" "lv (pcx_root s) = 4" by (simp_all add: rooted_def)
  have sz: "(0x1000 :: u64) AND 0xFFF = 0" by simp
  from set_frame_spec [OF r assms(2) sz al, of frame flags] obtain e t lv' where
    t: "pcx_set_frame 0 addr 0x1000 frame flags s = Some (e, t)" "tables lv' t" "lv' (pcx_root t) = 4"
    "pcx_root t = pcx_root s" "pages_left s - 3 \<le> pages_left t" and
    w: "\<And>a. if e = 0 \<and> same_page a addr
       then trans_loop (mem t) a 4 (pcx_root s) = Some (leaf_trans (frame OR flags) a) \<and>
         flags_loop (mem t) a 4 (pcx_root s) = leaf_flags (frame OR flags)
       else trans_loop (mem t) a 4 (pcx_root s) = trans_loop (mem s) a 4 (pcx_root s) \<and>
         flags_loop (mem t) a 4 (pcx_root s) = flags_loop (mem s) a 4 (pcx_root s)" by blast
  have "walk t a = (if e = 0 \<and> same_page a addr then leaf (frame OR flags) a else walk s a)" for a
    using w [of a] t(4) by (simp add: walk_def leaf_def split: if_splits)
  then show ?thesis
    using that [OF t(1) _ t(5)] t(2,3) by (simp add: rooted_def region_mapped_def fun_eq_iff)
qed

lemma region_mapped_0 [simp]: "region_mapped 0 v p f s t \<longleftrightarrow> (\<forall>a. walk t a = walk s a)"
  by (simp add: region_mapped_def)

lemma region_mapped_Suc:
  assumes "take_bit 12 v = 0" "Suc k \<le> 2 ^ 36"
    and "region_mapped 1 v p f s u" "region_mapped k (v + 0x1000) (p + 0x1000) f u t"
  shows "region_mapped (Suc k) v p f s t"
proof -
  have later: "walk t a = walk u a" if "same_page a v" for a
  proof -
    have "\<not> same_page a (page_at (v + 0x1000) j)" if "j < k" for j
      using page_at_apart [OF assms(1), of 0 "Suc j"] same_page_trans [OF \<open>same_page a v\<close>] that assms(2)
      by (auto simp: page_at_Suc)
    then show ?thesis using assms(4) by (simp add: region_mapped_def)
  qed
  show ?thesis
    unfolding region_mapped_def
  proof (rule conjI; intro allI impI)
    fix j a assume j: "j < Suc k" and a: "same_page a (page_at v j)"
    show "walk t a = leaf (page_at p j OR f) a"
    proof (cases j)
      case 0
      then show ?thesis using later [of a] assms(3) a by (simp add: region_mapped_def)
    next
      case (Suc i)
      then show ?thesis using assms(4) a j by (simp add: region_mapped_def page_at_Suc)
    qed
  next
    fix a assume "\<forall>j < Suc k. \<not> same_page a (page_at v j)"
    then have "\<not> same_page a v" "\<forall>j < k. \<not> same_page a (page_at (v + 0x1000) j)"
      by (auto simp flip: page_at_Suc dest: spec [of _ 0])
    then show "walk t a = walk s a" using assms(3,4) by (simp add: region_mapped_def)
  qed
qed

lemma page_set_loop_spec:
  assumes "rooted lv s" "3 * n \<le> pages_left s" "take_bit 12 (v + i) = 0" "n \<le> 2 ^ 36"
  shows "\<exists>ok t lv' k. page_set_loop n i v p f s = Some (ok, t) \<and> rooted lv' t \<and> k \<le> n \<and>
    (ok \<longleftrightarrow> k = n) \<and> region_mapped k (v + i) (p + i) f s t"
  using assms
proof (induction n arbitrary: lv s i)
  case 0
  then show ?case by auto
next
  case (Suc n)
  have "3 \<le> pages_left s" using Suc.prems(2) by simp
  then obtain e u lv1 where u: "pcx_set_frame 0 (v + i) 0x1000 (p + i) f s = Some (e, u)" "rooted lv1 u"
    "pages_left s - 3 \<le> pages_left u" "e = 0 \<Longrightarrow> region_mapped 1 (v + i) (p + i) f s u"
    "e \<noteq> 0 \<Longrightarrow> walk u = walk s"
    using set_frame_walk [OF Suc.prems(1) _ Suc.prems(3), of "p + i" f] by metis
  show ?case
  proof (cases "e = 0")
    case False
    then have "page_set_loop (Suc n) i v p f s = Some (False, u)" using u(1) by simp
    moreover have "region_mapped 0 (v + i) (p + i) f s u" using u(5) False by simp
    ultimately show ?thesis using u(2) by (intro exI [of _ False] exI [of _ u] exI [of _ lv1] exI [of _ 0]) simp
  next
    case True
    have left: "3 * n \<le> pages_left u" using u(3) Suc.prems(2) by simp
    have "2 ^ 12 dvd (v + i) + 2 ^ 12" using Suc.prems(3) by (simp only: take_bit_eq_0_iff dvd_add_triv_right_iff)
    then have al: "take_bit 12 (v + (i + 0x1000)) = 0" by (simp add: take_bit_eq_0_iff add.assoc)
    have "n \<le> 2 ^ 36" using Suc.prems(4) by simp
    from Suc.IH [OF u(2) left al this] obtain ok t lv' k where
      t: "page_set_loop n (i + 0x1000) v p f u = Some (ok, t)" "rooted lv' t" "k \<le> n" "ok \<longleftrightarrow> k = n"
      "region_mapped k (v + (i + 0x1000)) (p + (i + 0x1000)) f u t" by blast
    have "Suc k \<le> 2 ^ 36" using t(3) Suc.prems(4) by simp
    from region_mapped_Suc [OF Suc.prems(3) this u(4) [OF True]] t(5)
    have "region_mapped (Suc k) (v + i) (p + i) f s t" by (simp add: add.assoc)
    then show ?thesis using u(1) True t(1-4) by auto
  qed
qed

lemma page_set_spec:
  assumes "rooted lv s" "3 * (unat sz div 0x1000) \<le> pages_left s" "sz \<le> 2 ^ 48"
    and "(pbase OR vbase OR sz) AND 0xFFF = 0"
  shows "\<exists>ok t lv' k. apilogic_page_set vbase pbase flags sz s = Some (ok, t) \<and> rooted lv' t \<and>
    k \<le> unat sz div 0x1000 \<and> (ok \<longleftrightarrow> k = unat sz div 0x1000) \<and> region_mapped k vbase pbase flags s t"
proof -
  have m: "(0xFFF :: u64) = mask 12" by (simp add: mask_eq_exp_minus_1)
  have "vbase AND 0xFFF = 0" using assms(4) by (metis bit.conj_disj_distrib2 word_bw_comms(1) or_eq_0_iff)
  then have al: "take_bit 12 (vbase + 0) = 0" unfolding m by (simp add: take_bit_eq_mask)
  have "unat sz \<le> 2 ^ 48" using assms(3) by (simp add: word_le_nat_alt)
  then have "unat sz div 0x1000 \<le> 2 ^ 36" by simp
  from page_set_loop_spec [OF assms(1,2) al this, of pbase flags] assms(4) show ?thesis
    by (simp add: apilogic_page_set_def)
qed

subsection \<open>Reading a mapping back\<close>

lemma page_get_leaf:
  assumes "walk t a = leaf e a"
  shows "apilogic_page_get a t =
    Some (\<lparr>pg_paddr = leaf_trans e a, pg_flags = cooked_page_flags (leaf_flags e)\<rparr>, pcx_unlock t)"
  using assms by (simp add: apilogic_page_get_def pcx_get_trans_def pcx_get_flags_def pcx_arg_def
    walk_def leaf_def pcx_unlock_def)

lemma leaf_entry:
  assumes "frame AND PF_BITS = 0" "flags AND PF_BITS = flags" "flags AND PF_PRES \<noteq> 0"
  shows "leaf_trans (frame OR flags) a = frame + (a AND 0xFFF)" "leaf_flags (frame OR flags) = flags"
  using assms(3) entry_frame [OF assms(1,2)] entry_flag [OF assms(1) pf_in_bits(1), of flags]
  by (simp_all add: leaf_trans_def leaf_flags_def)

text \<open>
  Each flag of the calls survives the conversion into page table flags and back. The call
  \<open>page_set\<close> computes the conversion and does not use it: \<open>PAGE_VALID\<close> is bit 0 and the
  valid bit of an entry is bit 9, so that a mapping reads back as invalid.
\<close>

lemma cooked_raw:
  assumes "f AND PAGE_VALID \<noteq> 0" "f AND (PAGE_READ OR PAGE_WRITE OR PAGE_EXEC) \<noteq> 0"
  shows "\<forall>x \<in> {PAGE_VALID, PAGE_READ, PAGE_WRITE, PAGE_EXEC, PAGE_USER, PAGE_ACCESSED, PAGE_DIRTY,
      PAGE_CACHE_DISABLE, PAGE_WRITE_THROUGH}. cooked_page_flags (raw_page_flags f) AND x \<noteq> 0 \<longleftrightarrow> f AND x \<noteq> 0"
  using assms unfolding raw_page_flags_def Let_def or_if_def
  apply (cases "f AND PAGE_READ = 0"; cases "f AND PAGE_WRITE = 0"; cases "f AND PAGE_EXEC = 0";
    cases "f AND PAGE_USER = 0"; cases "f AND PAGE_ACCESSED = 0"; cases "f AND PAGE_DIRTY = 0";
    cases "f AND PAGE_CACHE_DISABLE = 0"; cases "f AND PAGE_WRITE_THROUGH = 0")
  apply (simp_all only: simp_thms if_True if_False)
  apply (simp_all add: cooked_page_flags_def or_if_def page_flag_defs pf_defs)
  done

lemma cooked_invalid: "f AND PF_VALID = 0 \<Longrightarrow> cooked_page_flags f = 0"
  by (simp add: cooked_page_flags_def)

end
