(* ===== verification/Pmm_Map.thy ===== *)
theory Pmm_Map
  imports Pmm
begin

text \<open>
  What \<open>pmm_init\<close> makes of the memory map of the boot loader: the cutoff between the
  memory of the kernel and the memory left to threads, and the two maps it is split into.
\<close>

subsection \<open>The cutoff\<close>

lemma and_not_mask:
  fixes a :: u64
  shows "a AND NOT (mask n) = a - take_bit n a"
proof -
  have "a - take_bit n a = a AND NOT (take_bit n a)"
    by (rule disjunctive_diff) (simp add: bit_simps)
  also have "\<dots> = a AND NOT (mask n)" by (rule bit_word_eqI) (auto simp: bit_simps)
  finally show ?thesis by simp
qed

text \<open>Negating, clearing the low bits and negating again rounds up.\<close>

lemma round_up:
  fixes x :: u64
  assumes "n < 64" "unat x + 2 ^ n \<le> 2 ^ 64"
  defines "r \<equiv> - ((- x) AND NOT (mask n))"
  shows "2 ^ n dvd unat r" "unat x \<le> unat r" "unat r < unat x + 2 ^ n"
proof -
  have r: "r = x + take_bit n (- x)" unfolding r_def and_not_mask by simp
  have lt: "unat (take_bit n (- x)) < 2 ^ n"
    by (simp add: unsigned_take_bit_eq)
  then have "unat x + unat (take_bit n (- x)) < 2 ^ LENGTH(64)" using assms(2) by simp
  then have ur: "unat r = unat x + unat (take_bit n (- x))" unfolding r by (simp add: unat_word_ariths)
  show "unat x \<le> unat r" "unat r < unat x + 2 ^ n" using lt by (simp_all add: ur)
  have "take_bit n (- r) = 0" unfolding r_def by (rule bit_word_eqI) (auto simp: bit_simps)
  then have "2 ^ n dvd - r" by (simp add: take_bit_eq_0_iff)
  then have "2 ^ n dvd r" by simp
  then have "take_bit n r = 0" by (simp add: take_bit_eq_0_iff)
  then have "take_bit n (unat r) = 0" by (metis unsigned_take_bit_eq unsigned_0)
  then show "2 ^ n dvd unat r" by (simp add: take_bit_eq_0_iff)
qed

lemma pmm_cutoff_mask: "pmm_cutoff tot = - ((- (tot div 256)) AND NOT (mask 23))"
proof -
  have "(0xFFFFFFFFFF800000 :: u64) = NOT (mask 23)" by (simp add: mask_eq_exp_minus_1)
  then show ?thesis unfolding pmm_cutoff_def by simp
qed

lemma cutoff_bounds:
  "0x800000 dvd unat (pmm_cutoff tot)" "unat tot div 256 \<le> unat (pmm_cutoff tot)"
  "unat (pmm_cutoff tot) < unat tot div 256 + 0x800000"
proof -
  have u: "unat (tot div 256) = unat tot div 256" by (simp add: unat_div_distrib)
  have "unat tot < 2 ^ 64" using unsigned_less [of tot] by simp
  then have "unat (tot div 256) + 2 ^ 23 \<le> 2 ^ 64" unfolding u by simp
  from round_up [OF _ this]
  show "0x800000 dvd unat (pmm_cutoff tot)" "unat tot div 256 \<le> unat (pmm_cutoff tot)"
    "unat (pmm_cutoff tot) < unat tot div 256 + 0x800000"
    unfolding pmm_cutoff_mask u [symmetric] by simp_all
qed

subsection \<open>The low map\<close>

abbreviation mm_base :: "unfold_mmap \<Rightarrow> nat \<Rightarrow> nat" where
  "mm_base mm i \<equiv> unat (entry_base (mmap_entry mm i))"

abbreviation mm_end :: "unfold_mmap \<Rightarrow> nat \<Rightarrow> nat" where
  "mm_end mm i \<equiv> unat (entry_base (mmap_entry mm i)) + unat (entry_size (mmap_entry mm i))"

abbreviation mm_count :: "unfold_mmap \<Rightarrow> nat" where
  "mm_count mm \<equiv> unat (mmap_count mm)"

text \<open>The entries are in order and none wraps around.\<close>

definition mm_sorted :: "unfold_mmap \<Rightarrow> bool" where
  "mm_sorted mm \<longleftrightarrow> (\<forall>i < mm_count mm. mm_end mm i < 2 ^ 64) \<and>
     (\<forall>i < mm_count mm. \<forall>j < i. mm_end mm j \<le> mm_base mm i)"

text \<open>Entry \<open>i\<close> starts and ends below the cutoff.\<close>

definition below_cut :: "unfold_mmap \<Rightarrow> nat \<Rightarrow> nat \<Rightarrow> bool" where
  "below_cut mm c i \<longleftrightarrow> mm_base mm i < c \<and> mm_end mm i \<le> c"

lemma mm_end_word:
  assumes "mm_end mm i < 2 ^ 64"
  shows "unat (entry_base (mmap_entry mm i) + entry_size (mmap_entry mm i)) = mm_end mm i"
  using assms by (simp add: unat_word_ariths)

lemma capacities [simp]:
  "pmm_map_capacity pmm_map_low_space = 3" "pmm_map_capacity pmm_map_high_space = 8"
  by (simp_all add: pmm_map_capacity_def pmm_map_low_space_def pmm_map_high_space_def)

lemma pmm_map_entry_copy [simp]:
  "e\<lparr>entry_base := entry_base x, entry_size := entry_size x\<rparr> = (x :: pmm_map_entry)"
  "\<lparr>entry_base = entry_base x, entry_size = entry_size x\<rparr> = x"
  "(e :: pmm_map_entry)\<lparr>entry_base := b, entry_size := z\<rparr> = \<lparr>entry_base = b, entry_size = z\<rparr>"
  by (cases x; cases e; simp)+

lemma fill_low_copy:
  assumes "i < mm_count mm" "i < 3" "mm_end mm i < 2 ^ 64"
    "below_cut mm (unat (pmm_map_cutoff s)) i"
  shows "pmm_fill_low mm i s = pmm_fill_low mm (Suc i) (s\<lparr>pmm_map_low := (pmm_map_low s)\<lparr>map_entry :=
    (map_entry (pmm_map_low s))(i := mmap_entry mm i)\<rparr>\<rparr>)"
  using assms mm_end_word [OF assms(3)]
  by (subst pmm_fill_low.simps)
    (simp add: below_cut_def word_less_nat_alt word_le_nat_alt set_low_base_def set_low_size_def in_bounds_def)

lemma fill_low_prefix:
  assumes "mm_sorted mm" "k \<le> mm_count mm" "k \<le> 3" "\<forall>i < k. below_cut mm (unat (pmm_map_cutoff s)) i"
  shows "\<exists>m. pmm_fill_low mm 0 s = pmm_fill_low mm k (s\<lparr>pmm_map_low := m\<rparr>) \<and>
    (\<forall>i < k. map_entry m i = mmap_entry mm i)"
  using assms(2-)
proof (induction k)
  case 0
  have "s\<lparr>pmm_map_low := pmm_map_low s\<rparr> = s" by simp
  then show ?case by (metis less_nat_zero_code)
next
  case (Suc k)
  then obtain m where m: "pmm_fill_low mm 0 s = pmm_fill_low mm k (s\<lparr>pmm_map_low := m\<rparr>)"
    "\<forall>i < k. map_entry m i = mmap_entry mm i" by auto
  have "mm_end mm k < 2 ^ 64" using assms(1) Suc.prems(1) by (simp add: mm_sorted_def)
  with fill_low_copy [of k mm "s\<lparr>pmm_map_low := m\<rparr>"] Suc.prems
  have "pmm_fill_low mm 0 s = pmm_fill_low mm (Suc k)
    (s\<lparr>pmm_map_low := m\<lparr>map_entry := (map_entry m)(k := mmap_entry mm k)\<rparr>\<rparr>)"
    by (simp add: m(1))
  moreover have "\<forall>i < Suc k. map_entry (m\<lparr>map_entry := (map_entry m)(k := mmap_entry mm k)\<rparr>) i = mmap_entry mm i"
    using m(2) by (simp add: less_Suc_eq)
  ultimately show ?case by blast
qed

subsection \<open>The high map\<close>

lemma fill_high_rest:
  assumes "i \<le> 8" "mm_count mm \<le> j + 8"
  shows "\<exists>m. pmm_fill_high mm i j s = Some (max i (mm_count mm - j), s\<lparr>pmm_map_high := m\<rparr>) \<and>
    (\<forall>l. map_entry m l = (if i \<le> l \<and> l + j < mm_count mm then mmap_entry mm (l + j)
       else map_entry (pmm_map_high s) l))"
  using assms(1)
proof (induction "8 - i" arbitrary: i s)
  case 0
  then have "pmm_fill_high mm i j s = Some (max i (mm_count mm - j), s\<lparr>pmm_map_high := pmm_map_high s\<rparr>)"
    using assms(2) by (subst pmm_fill_high.simps) simp
  moreover have "\<not> (i \<le> l \<and> l + j < mm_count mm)" for l using 0 assms(2) by simp
  ultimately show ?case by (intro exI [of _ "pmm_map_high s"]) (simp only: if_False simp_thms)
next
  case (Suc d)
  show ?case
  proof (cases "i + j < mm_count mm")
    case False
    then have "pmm_fill_high mm i j s = Some (max i (mm_count mm - j), s\<lparr>pmm_map_high := pmm_map_high s\<rparr>)"
      by (subst pmm_fill_high.simps) simp
    moreover have "\<not> (i \<le> l \<and> l + j < mm_count mm)" for l using False by simp
    ultimately show ?thesis by (intro exI [of _ "pmm_map_high s"]) (simp only: if_False simp_thms)
  next
    case True
    let ?u = "s\<lparr>pmm_map_high := (pmm_map_high s)\<lparr>map_entry := (map_entry (pmm_map_high s))(i := mmap_entry mm (i + j))\<rparr>\<rparr>"
    have d: "d = 8 - Suc i" "Suc i \<le> 8" using Suc.hyps(2) by simp_all
    from Suc.hyps(1) [OF d, of ?u] obtain m where m:
      "pmm_fill_high mm (Suc i) j ?u = Some (max (Suc i) (mm_count mm - j), ?u\<lparr>pmm_map_high := m\<rparr>)"
      "\<forall>l. map_entry m l = (if Suc i \<le> l \<and> l + j < mm_count mm then mmap_entry mm (l + j)
         else map_entry (pmm_map_high ?u) l)" by blast
    have "pmm_fill_high mm i j s = pmm_fill_high mm (Suc i) j ?u"
      using True d(2) by (subst pmm_fill_high.simps) (simp add: set_high_entry_def in_bounds_def)
    moreover have "max (Suc i) (mm_count mm - j) = max i (mm_count mm - j)" using True by simp
    ultimately show ?thesis using m True by (intro exI [of _ m]) (auto simp: le_Suc_eq not_le less_Suc_eq)
  qed
qed

subsection \<open>Where the map is cut\<close>

text \<open>An address in one of the first \<open>n\<close> entries.\<close>

definition in_map :: "nat \<Rightarrow> (nat \<Rightarrow> pmm_map_entry) \<Rightarrow> nat \<Rightarrow> bool" where
  "in_map n e a \<longleftrightarrow> (\<exists>i < n. unat (entry_base (e i)) \<le> a \<and>
     a < unat (entry_base (e i)) + unat (entry_size (e i)))"

text \<open>
  Entry \<open>k\<close> is the first that does not lie below the cutoff, and both maps have room.
\<close>

definition cut_at :: "unfold_mmap \<Rightarrow> nat \<Rightarrow> nat \<Rightarrow> bool" where
  "cut_at mm c k \<longleftrightarrow> mm_sorted mm \<and> k < mm_count mm \<and> k \<le> 2 \<and> mm_count mm \<le> k + 8 \<and>
     (\<forall>i < k. below_cut mm c i) \<and> \<not> below_cut mm c k"

lemma in_map_tail:
  "in_map (n - k) (\<lambda>i. e (i + k)) a \<or> in_map (min k n) e a \<longleftrightarrow> in_map n e a"
proof
  assume "in_map (n - k) (\<lambda>i. e (i + k)) a \<or> in_map (min k n) e a"
  then show "in_map n e a"
  proof
    assume "in_map (n - k) (\<lambda>i. e (i + k)) a"
    then obtain i where "i < n - k" "unat (entry_base (e (i + k))) \<le> a"
      "a < unat (entry_base (e (i + k))) + unat (entry_size (e (i + k)))" by (auto simp: in_map_def)
    then show ?thesis unfolding in_map_def by (intro exI [of _ "i + k"]) simp
  qed (auto simp: in_map_def)
next
  assume "in_map n e a"
  then obtain i where i: "i < n" "unat (entry_base (e i)) \<le> a" "a < unat (entry_base (e i)) + unat (entry_size (e i))"
    by (auto simp: in_map_def)
  show "in_map (n - k) (\<lambda>i. e (i + k)) a \<or> in_map (min k n) e a"
  proof (cases "i < k")
    case True
    then show ?thesis using i by (auto simp: in_map_def)
  next
    case False
    then have "i - k < n - k" "i - k + k = i" using i(1) by simp_all
    then show ?thesis using i unfolding in_map_def by (intro disjI1 exI [of _ "i - k"]) simp
  qed
qed

lemma in_map_Suc:
  "in_map (Suc n) e a \<longleftrightarrow> in_map n e a \<or>
     unat (entry_base (e n)) \<le> a \<and> a < unat (entry_base (e n)) + unat (entry_size (e n))"
  by (auto simp: in_map_def less_Suc_eq)

lemma in_map_shift:
  "in_map (Suc n) e a \<longleftrightarrow> unat (entry_base (e 0)) \<le> a \<and> a < unat (entry_base (e 0)) + unat (entry_size (e 0)) \<or>
     in_map n (\<lambda>i. e (Suc i)) a"
  by (auto simp: in_map_def less_Suc_eq_0_disj)

lemma in_map_cong: "(\<And>i. i < n \<Longrightarrow> e i = e' i) \<Longrightarrow> in_map n e a = in_map n e' a"
  by (auto simp: in_map_def)

lemma cut_sides:
  assumes "cut_at mm c k"
  shows "in_map k (mmap_entry mm) a \<Longrightarrow> a < c"
    and "in_map (mm_count mm - Suc k) (\<lambda>i. mmap_entry mm (i + Suc k)) a \<Longrightarrow> mm_end mm k \<le> a"
    and "in_map (mm_count mm) (mmap_entry mm) a \<longleftrightarrow> in_map k (mmap_entry mm) a \<or>
      mm_base mm k \<le> a \<and> a < mm_end mm k \<or>
      in_map (mm_count mm - Suc k) (\<lambda>i. mmap_entry mm (i + Suc k)) a"
proof -
  show "in_map k (mmap_entry mm) a \<Longrightarrow> a < c"
    using assms by (fastforce simp: in_map_def cut_at_def below_cut_def)
  show "mm_end mm k \<le> a" if "in_map (mm_count mm - Suc k) (\<lambda>i. mmap_entry mm (i + Suc k)) a"
  proof -
    from that obtain i where i: "i < mm_count mm - Suc k" "mm_base mm (i + Suc k) \<le> a"
      by (auto simp: in_map_def)
    then have "mm_end mm k \<le> mm_base mm (i + Suc k)"
      using assms unfolding cut_at_def mm_sorted_def by (simp add: less_diff_conv)
    then show ?thesis using i(2) by simp
  qed
  have "min (Suc k) (mm_count mm) = Suc k" using assms by (simp add: cut_at_def)
  then show "in_map (mm_count mm) (mmap_entry mm) a \<longleftrightarrow> in_map k (mmap_entry mm) a \<or>
      mm_base mm k \<le> a \<and> a < mm_end mm k \<or>
      in_map (mm_count mm - Suc k) (\<lambda>i. mmap_entry mm (i + Suc k)) a"
    using in_map_tail [of "mm_count mm" "Suc k" "mmap_entry mm" a] by (auto simp: in_map_Suc)
qed

definition map_split :: "unfold_mmap \<Rightarrow> kernel \<Rightarrow> bool" where
  "map_split mm t \<longleftrightarrow>
     (let c = unat (pmm_map_cutoff t); all = in_map (mm_count mm) (mmap_entry mm) in
      \<forall>a. (in_map (unat (map_count (pmm_map_low t))) (map_entry (pmm_map_low t)) a \<longleftrightarrow> a < c \<and> all a) \<and>
          (in_map (unat (map_count (pmm_map_high t))) (map_entry (pmm_map_high t)) a \<longleftrightarrow> c \<le> a \<and> all a))"

lemma map_splitI:
  assumes "\<And>a. in_map L l a \<longleftrightarrow> a < c \<and> in_map (mm_count mm) (mmap_entry mm) a"
    and "\<And>a. in_map H h a \<longleftrightarrow> c \<le> a \<and> in_map (mm_count mm) (mmap_entry mm) a"
    and "unat (pmm_map_cutoff t) = c" "unat (map_count (pmm_map_low t)) = L" "map_entry (pmm_map_low t) = l"
    "unat (map_count (pmm_map_high t)) = H" "map_entry (pmm_map_high t) = h"
  shows "map_split mm t"
  unfolding map_split_def Let_def using assms by simp

text \<open>
  The high map has the entries from \<open>k\<close> on, with their ends, and
  behind them what the array held before.
\<close>

definition high_from :: "unfold_mmap \<Rightarrow> nat \<Rightarrow> kernel \<Rightarrow> kernel \<Rightarrow> bool" where
  "high_from mm k s t \<longleftrightarrow> unat (map_count (pmm_map_high t)) = mm_count mm - k \<and>
     (\<forall>l < mm_count mm - k. let e = map_entry (pmm_map_high t) l in
        unat (entry_base e) + unat (entry_size e) = mm_end mm (l + k)) \<and>
     (\<forall>l \<ge> mm_count mm - k. map_entry (pmm_map_high t) l = map_entry (pmm_map_high s) l)"

text \<open>The two loops, from the state in which the cutoff is set.\<close>

lemma fill_maps:
  assumes cut: "cut_at mm (unat (pmm_map_cutoff s)) k"
  shows "\<exists>i j u v. pmm_fill_low mm 0 s = Some (i, j, u) \<and>
    pmm_fill_high mm i j u = Some v \<and> map_split mm (set_high_count (fst v) (snd v)) \<and>
    high_from mm k s (set_high_count (fst v) (snd v)) \<and> pmm_map_cutoff (snd v) = pmm_map_cutoff s"
proof -
  let ?c = "pmm_map_cutoff s" and ?n = "mm_count mm" and ?e = "mmap_entry mm"
  have k: "k < ?n" "k \<le> 2" "?n \<le> k + 8" "mm_sorted mm" "\<forall>i < k. below_cut mm (unat ?c) i"
    "\<not> below_cut mm (unat ?c) k" using cut by (simp_all add: cut_at_def)
  have wrap: "mm_end mm k < 2 ^ 64" using k(1,4) by (simp add: mm_sorted_def)
  note w = mm_end_word [OF wrap]
  obtain m where m: "pmm_fill_low mm 0 s = pmm_fill_low mm k (s\<lparr>pmm_map_low := m\<rparr>)"
    "\<forall>i < k. map_entry m i = ?e i"
    using fill_low_prefix [of mm k s] k by auto
  note sides = cut_sides [OF cut]
  have bounds: "unat (of_nat x :: u64) = x" if "x \<le> 10" for x
    using that by (simp add: unsigned_of_nat take_bit_nat_eq_self)
  show ?thesis
  proof (cases "entry_base (?e k) < ?c")
    case False
    let ?u = "set_low_count k (s\<lparr>pmm_map_low := m\<rparr>)"
    have low: "pmm_fill_low mm 0 s = Some (0, k, ?u)"
      unfolding m(1) using k(1,2) False by (subst pmm_fill_low.simps) simp
    obtain h where h: "pmm_fill_high mm 0 k ?u = Some (max 0 (?n - k), ?u\<lparr>pmm_map_high := h\<rparr>)"
      "\<And>l. l + k < ?n \<Longrightarrow> map_entry h l = ?e (l + k)"
      "\<And>l. ?n \<le> l + k \<Longrightarrow> map_entry h l = map_entry (pmm_map_high s) l"
      using fill_high_rest [of 0 mm k ?u] k(3) by (auto simp: set_low_count_def)
    have base: "unat ?c \<le> mm_base mm k" using False by (simp add: word_less_nat_alt)
    have L: "in_map k (map_entry m) a = in_map k ?e a" for a using m(2) by (intro in_map_cong) simp
    have S: "?n - k = Suc (?n - Suc k)" using k(1) by simp
    have H: "in_map (?n - k) (map_entry h) a = in_map (?n - k) (\<lambda>i. ?e (i + k)) a" for a
      using h(2) by (intro in_map_cong) simp
    have H': "in_map (?n - k) (map_entry h) a \<longleftrightarrow> mm_base mm k \<le> a \<and> a < mm_end mm k \<or>
        in_map (?n - Suc k) (\<lambda>i. ?e (i + Suc k)) a" for a
      unfolding H unfolding S in_map_shift by simp
    have nk: "?n - k \<le> 10" "k \<le> 10" using k(2,3) by simp_all
    have "map_split mm (set_high_count (?n - k) (?u\<lparr>pmm_map_high := h\<rparr>))"
    proof (rule map_splitI)
      fix a
      show "in_map k (map_entry m) a \<longleftrightarrow> a < unat ?c \<and> in_map ?n ?e a"
        "in_map (?n - k) (map_entry h) a \<longleftrightarrow> unat ?c \<le> a \<and> in_map ?n ?e a"
        using sides(1,2) [of a] base unfolding L H' sides(3) [of a] by linarith+
    qed (simp_all add: set_high_count_def set_low_count_def bounds nk)
    moreover have "high_from mm k s (set_high_count (?n - k) (?u\<lparr>pmm_map_high := h\<rparr>))"
      unfolding high_from_def set_high_count_def using h(2,3) bounds nk by simp
    ultimately show ?thesis using low h(1) by (auto simp: set_low_count_def)
  next
    case True
    then have over: "unat ?c < mm_end mm k" using k(6) by (simp add: below_cut_def word_less_nat_alt)
    then have no: "\<not> entry_base (?e k) + entry_size (?e k) \<le> ?c"
      unfolding word_le_nat_alt w by simp
    let ?le = "\<lparr>entry_base = entry_base (?e k), entry_size = ?c - entry_base (?e k)\<rparr>"
    let ?he = "\<lparr>entry_base = ?c, entry_size = entry_size (?e k) + entry_base (?e k) - ?c\<rparr>"
    let ?m = "m\<lparr>map_entry := (map_entry m)(k := ?le)\<rparr>"
    let ?u = "set_low_count (Suc k) (s\<lparr>pmm_map_low := ?m, pmm_map_high := (pmm_map_high s)
      \<lparr>map_entry := (map_entry (pmm_map_high s))(0 := ?he)\<rparr>\<rparr>)"
    have low: "pmm_fill_low mm 0 s = Some (1, k, ?u)"
      unfolding m(1) using k(1,2) True no by (subst pmm_fill_low.simps)
        (simp add: set_low_base_def set_low_size_def set_high_entry_def in_bounds_def set_low_count_def)
    obtain h where h: "pmm_fill_high mm 1 k ?u = Some (max 1 (?n - k), ?u\<lparr>pmm_map_high := h\<rparr>)"
      "\<And>l. map_entry h l = (if 1 \<le> l \<and> l + k < ?n then ?e (l + k) else map_entry (pmm_map_high ?u) l)"
      using fill_high_rest [of 1 mm k ?u] k(3) by auto
    have c: "mm_base mm k < unat ?c" using True by (simp add: word_less_nat_alt)
    then have le: "mm_base mm k + unat (?c - entry_base (?e k)) = unat ?c"
      by (simp add: unat_sub word_le_nat_alt)
    have he: "unat ?c + unat (entry_size (?e k) + entry_base (?e k) - ?c) = mm_end mm k"
      using over w by (simp add: unat_sub word_le_nat_alt add.commute)
    have L: "in_map (Suc k) (map_entry ?m) a \<longleftrightarrow> in_map k ?e a \<or> mm_base mm k \<le> a \<and> a < unat ?c" for a
      unfolding in_map_Suc using m(2) le in_map_cong [of k "map_entry ?m" ?e a] by simp
    have S: "max 1 (?n - k) = Suc (?n - Suc k)" using k(1) by simp
    have H: "in_map (Suc (?n - Suc k)) (map_entry h) a \<longleftrightarrow> unat ?c \<le> a \<and> a < mm_end mm k \<or>
        in_map (?n - Suc k) (\<lambda>i. ?e (i + Suc k)) a" for a
      unfolding in_map_shift using h(2) he
        in_map_cong [of "?n - Suc k" "\<lambda>i. map_entry h (Suc i)" "\<lambda>i. ?e (i + Suc k)" a]
      by (simp add: set_low_count_def)
    have nk: "Suc (?n - Suc k) \<le> 10" "Suc k \<le> 10" using k(2,3) by simp_all
    have "map_split mm (set_high_count (Suc (?n - Suc k)) (?u\<lparr>pmm_map_high := h\<rparr>))"
    proof (rule map_splitI)
      fix a
      show "in_map (Suc k) (map_entry ?m) a \<longleftrightarrow> a < unat ?c \<and> in_map ?n ?e a"
        "in_map (Suc (?n - Suc k)) (map_entry h) a \<longleftrightarrow> unat ?c \<le> a \<and> in_map ?n ?e a"
        using sides(1,2) [of a] c over unfolding L H sides(3) [of a] by linarith+
    qed (simp_all add: set_high_count_def set_low_count_def bounds [OF nk(1)] bounds [OF nk(2)]
      del: of_nat_Suc fun_upd_apply)
    moreover have "high_from mm k s (set_high_count (Suc (?n - Suc k)) (?u\<lparr>pmm_map_high := h\<rparr>))"
    proof -
      have n: "Suc (?n - Suc k) = ?n - k" using k(1) by simp
      have "let e = map_entry h l in unat (entry_base e) + unat (entry_size e) = mm_end mm (l + k)"
        if "l < ?n - k" for l
        using that h(2) [of l] he by (cases l) (auto simp: Let_def set_low_count_def)
      moreover have "map_entry h l = map_entry (pmm_map_high s) l" if "?n - k \<le> l" for l
        using that h(2) [of l] k(1) by (auto simp: set_low_count_def)
      ultimately show ?thesis
        unfolding high_from_def set_high_count_def using bounds [OF nk(1)] unfolding n by simp
    qed
    ultimately show ?thesis using low h(1) S by (auto simp: set_low_count_def)
  qed
qed

lemma pmm_init_maps:
  assumes "cut_at mm (unat (pmm_cutoff (mmap_total mm))) k"
  shows "\<exists>t. pmm_init mm s = Some t \<and> map_split mm t \<and> high_from mm k s t \<and>
    pmm_map_cutoff t = pmm_cutoff (mmap_total mm)"
proof -
  obtain base limit where r: "get_pinion_range s = (base, limit)" by fastforce
  let ?s = "s\<lparr>pmm_base := base - 0x200000, pmm_map_cutoff := pmm_cutoff (mmap_total mm),
    pmm_alloc_base := limit - (base - 0x200000), pmm_alloc_limit := pmm_cutoff (mmap_total mm)\<rparr>"
  have "cut_at mm (unat (pmm_map_cutoff ?s)) k" using assms by simp
  from fill_maps [OF this] obtain i j u n v where f: "pmm_fill_low mm 0 ?s = Some (i, j, u)"
    "pmm_fill_high mm i j u = Some (n, v)" "map_split mm (set_high_count n v)"
    "high_from mm k ?s (set_high_count n v)" "pmm_map_cutoff v = pmm_map_cutoff ?s" by auto
  have "high_from mm k s (set_high_count n v) \<and> pmm_map_cutoff (set_high_count n v) = pmm_cutoff (mmap_total mm)"
    using f(4,5) by (simp add: high_from_def set_high_count_def)
  then show ?thesis using r f(1-3) by (simp add: pmm_init_def)
qed

lemma pmm_init_split:
  assumes "cut_at mm (unat (pmm_cutoff (mmap_total mm))) k"
  shows "\<exists>t. pmm_init mm s = Some t \<and> map_split mm t"
  using pmm_init_maps [OF assms] by blast

end
