(* ===== verification/Gates.thy ===== *)
theory Gates
  imports Boot Page_Tables
begin

text \<open>
  The interrupt descriptor table as the processor reads it: the address that a gate leads
  to, and the table that \<open>idt_init\<close> builds.
\<close>

text \<open>The processor puts the target of a gate together from its three pieces.\<close>

definition gate_target :: "u64 \<Rightarrow> u64 \<Rightarrow> u64" where
  "gate_target lo hi = (lo AND 0xFFFF) OR push_bit 16 (drop_bit 48 lo) OR push_bit 32 hi"

lemma gate_word_target:
  "gate_target (gate_word type h) ((w AND NOT 0xFFFFFFFF) OR drop_bit 32 h) = h"
proof (rule bit_word_eqI)
  fix n assume n: "n < LENGTH(64)"
  have m: "(0xFFFF :: u64) = mask 16" "(0xFFFFFFFF :: u64) = mask 32" by (simp_all add: mask_eq_exp_minus_1)
  have t: "\<not> bit (524288 :: u64) k" if "k \<noteq> 19" for k
  proof -
    have "(524288 :: u64) = push_bit 19 1" by simp
    then show ?thesis using that by (simp only: bit_simps) auto
  qed
  have ty: "\<not> bit (ucast type :: u64) k" if "16 \<le> k" for k
    using that bit_imp_le_length [of type k] by (auto simp: bit_simps)
  consider "n < 16" | "16 \<le> n" "n < 32" | "32 \<le> n" by linarith
  then show "bit (gate_target (gate_word type h) ((w AND NOT 0xFFFFFFFF) OR drop_bit 32 h)) n = bit h n"
  proof cases
    case 1
    then show ?thesis unfolding gate_target_def gate_word_def m using t [of n] by (simp add: bit_simps)
  next
    case 2
    then have "\<not> bit type n" using bit_imp_le_length [of type n] by auto
    then show ?thesis
      using 2 t [of "n + 32"] t [of "32 + n"] unfolding gate_target_def gate_word_def m
      by (auto simp: bit_simps ty)
  next
    case 3
    then have "n - 32 < 32" using n by auto
    with 3 show ?thesis using n unfolding gate_target_def gate_word_def m by (simp add: bit_simps)
  qed
qed

text \<open>The target of vector \<open>v\<close> in the table of a state.\<close>

definition idt_target :: "kernel \<Rightarrow> nat \<Rightarrow> u64" where
  "idt_target s v = gate_target (mem s (idt s + 16 * of_nat v)) (mem s (idt s + 16 * of_nat v + 8))"

lemma gate_cells:
  assumes "take_bit 12 p = (0 :: u64)" "v < 256" "w < 256"
  shows "p + 16 * of_nat v \<noteq> p + 16 * of_nat w + 8"
    and "v \<noteq> w \<Longrightarrow> p + 16 * of_nat v \<noteq> p + 16 * of_nat w"
    and "v \<noteq> w \<Longrightarrow> p + 16 * of_nat v + 8 \<noteq> p + 16 * of_nat w + 8"
proof -
  have lt: "(of_nat n :: u64) < 512" if "n < 512" for n
    using that by (simp add: word_less_nat_alt unsigned_of_nat take_bit_nat_eq_self)
  have e: "p + 16 * of_nat x + 8 = p + 8 * of_nat (2 * x + 1)" "p + 16 * of_nat x = p + 8 * of_nat (2 * x)" for x
    by (simp_all add: algebra_simps)
  have eq: "p + 8 * of_nat x = p + 8 * of_nat y \<longleftrightarrow> x = y" if "x < 512" "y < 512" for x y
  proof -
    have "(of_nat x :: u64) = of_nat y \<longleftrightarrow> x = y"
      using that by (simp add: word_unat_eq_iff unsigned_of_nat take_bit_nat_eq_self)
    then show ?thesis using cell_eq [OF assms(1,1) lt [OF that(1)] lt [OF that(2)]] by simp
  qed
  have b: "2 * v < 512" "2 * w + 1 < 512" "2 * w < 512" "2 * v + 1 < 512" using assms(2,3) by simp_all
  have "2 * v \<noteq> 2 * w + 1" by presburger
  then show "p + 16 * of_nat v \<noteq> p + 16 * of_nat w + 8" using eq [OF b(1,2)] unfolding e(1) unfolding e(2) by blast
  show "v \<noteq> w \<Longrightarrow> p + 16 * of_nat v \<noteq> p + 16 * of_nat w" unfolding e using eq [OF b(1,3)] by simp
  show "v \<noteq> w \<Longrightarrow> p + 16 * of_nat v + 8 \<noteq> p + 16 * of_nat w + 8" using eq [OF b(4,2)] unfolding e(1) by simp
qed

lemma idt_set_vector_target:
  assumes "take_bit 12 (idt s) = 0" "v < 256" "w < 256"
  shows "idt_target (idt_set_vector type h v s) w = (if w = v then h else idt_target s w)"
  using gate_cells [OF assms(1-3)] gate_cells [OF assms(1,3,2)]
  by (cases "w = v")
    (simp_all add: idt_target_def idt_set_vector_def Let_def gate_word_target [simplified] gate_cells(1) [OF assms(1,3,3)] eq_commute)

lemma idt_set_vector_idt [simp]: "idt (idt_set_vector type h v s) = idt s"
  by (simp add: idt_set_vector_def Let_def)

lemma idt_fold_idt [simp]: "idt (fold (\<lambda>v. idt_set_vector type (handler v) v) vs s) = idt s"
  by (induction vs arbitrary: s) simp_all

lemma idt_fold_target:
  assumes "take_bit 12 (idt s) = 0" "\<forall>v \<in> set vs. v < 256" "w < 256"
  shows "idt_target (fold (\<lambda>v. idt_set_vector type (handler v) v) vs s) w =
    (if w \<in> set vs then handler w else idt_target s w)"
  using assms
proof (induction vs arbitrary: s)
  case Nil
  then show ?case by simp
next
  case (Cons v vs)
  then show ?case using Cons.IH [of "idt_set_vector type (handler v) v s"] idt_set_vector_target [of s v w]
    by auto
qed

definition gated :: "nat \<Rightarrow> bool" where
  "gated v \<longleftrightarrow> v \<in> set fault_vectors \<or> 32 \<le> v \<and> v < 256"

lemma idt_init_targets:
  assumes "idt_init handler s = Some t" "take_bit 12 (idt t) = 0" "gated v"
  shows "idt_target t v = handler v"
proof -
  obtain page u where a: "pge_alloc s = Some (page, u)"
    using assms(1) by (auto simp: idt_init_def split: bind_splits)
  define u0 where "u0 = u\<lparr>idt := page\<rparr>"
  define u1 where "u1 = fold (\<lambda>v. idt_set_vector 0x8F01 (handler v) v) fault_vectors u0"
  define u2 where "u2 = fold (\<lambda>v. idt_set_vector 0x8E01 (handler v) v) [32..<255] u1"
  have t: "t = idt_set_vector 0x8F01 (handler 255) 255 u2"
    using assms(1) a unfolding idt_init_def u0_def u1_def u2_def idt_set_trap_vector_def idt_set_irq_vector_def
    by (simp del: upt_rec_numeral split: bind_splits)
  have i: "idt u0 = idt t" "idt u1 = idt t" "idt u2 = idt t" unfolding t u2_def u1_def by simp_all
  have v: "v < 256" using assms(3) by (auto simp: gated_def fault_vectors_def)
  have "\<forall>v \<in> set fault_vectors. v < 256" by (simp add: fault_vectors_def)
  with i assms(2) v have 1: "idt_target u1 v = (if v \<in> set fault_vectors then handler v else idt_target u0 v)"
    unfolding u1_def by (intro idt_fold_target) simp_all
  have 2: "idt_target u2 v = (if v \<in> set [32..<255] then handler v else idt_target u1 v)"
    unfolding u2_def by (intro idt_fold_target) (use i assms(2) v in \<open>simp_all del: upt_rec_numeral\<close>)
  have "idt_target t v = (if v = 255 then handler 255 else idt_target u2 v)"
    unfolding t using i assms(2) v by (intro idt_set_vector_target) simp_all
  then show ?thesis using 1 2 assms(3) unfolding gated_def by (auto simp del: upt_rec_numeral)
qed

end
