(* ===== verification/Contexts.thy ===== *)
theory Contexts
  imports Kernel_Specs
begin

text \<open>
  Register contexts: what \<open>resume_state_full\<close> of \<open>interrupt.s\<close> loads from the active block,
  and that the scheduler hands every thread its own registers back.
\<close>

text \<open>
  The registers after the return, from those before it (\<open>cur\<close>): the general registers come
  from the block, the interrupt return pops the rest of the frame. The error code is
  skipped; \<open>fs\<close>, \<open>gs\<close> and \<open>ds\<close> keep their values.
\<close>

definition load_frame :: "tcb \<Rightarrow> frame \<Rightarrow> frame" where
  "load_frame t cur =
     cur\<lparr>fr_regs := (fr_regs cur)
        \<lparr>ts_rip := tcb_rip t, ts_rsp := tcb_rsp t, ts_rbx := tcb_rbx t, ts_rbp := tcb_rbp t,
          ts_r12 := tcb_r12 t, ts_r13 := tcb_r13 t, ts_r14 := tcb_r14 t, ts_r15 := tcb_r15 t,
          ts_rax := tcb_rax t, ts_rcx := tcb_rcx t, ts_rdx := tcb_rdx t, ts_rdi := tcb_rdi t,
          ts_rsi := tcb_rsi t, ts_r8 := tcb_r8 t, ts_r9 := tcb_r9 t, ts_r10 := tcb_r10 t,
          ts_r11 := tcb_r11 t, ts_cs := tcb_cs t, ts_ss := tcb_ss t\<rparr>,
       fr_rflags := tcb_rflags t\<rparr>"

definition resume_state_full :: "kernel \<Rightarrow> frame \<Rightarrow> frame" where
  "resume_state_full s cur = load_frame (tcbs s (active s)) cur"

text \<open>The part of a frame that is saved and restored.\<close>

definition restored :: "frame \<Rightarrow> frame \<Rightarrow> frame" where
  "restored f cur = f\<lparr>fr_error := fr_error cur,
     fr_regs := (fr_regs f)\<lparr>ts_fs := ts_fs (fr_regs cur), ts_gs := ts_gs (fr_regs cur),
       ts_ds := ts_ds (fr_regs cur)\<rparr>\<rparr>"

lemma load_save [simp]: "load_frame (save_frame v f t) cur = restored f cur"
  by (simp add: load_frame_def save_frame_def restored_def Let_def)

lemma load_frame_state [simp]:
  "load_frame (t\<lparr>tcb_state := v\<rparr>) = load_frame t" "load_frame (t\<lparr>tcb_next := p\<rparr>) = load_frame t"
  "load_frame (t\<lparr>tcb_reserved0 := w\<rparr>) = load_frame t"
  by (simp_all add: load_frame_def fun_eq_iff)

text \<open>Scheduling does not touch the registers of any block.\<close>

lemma schedule_registers:
  assumes "scheduler_schedule s = Some t"
  shows "load_frame (tcbs t q) = load_frame (tcbs s q)"
proof -
  have state: "load_frame (tcbs (set_state p v u) q) = load_frame (tcbs u q)" for p v u
    by (simp add: set_state_def)
  have push: "load_frame (tcbs u q) = load_frame (tcbs v q)" if "scheduler_push_tcb p v = Some u" for p u v
    using that by (auto simp: scheduler_push_tcb_def Let_def bind_eq_Some_conv split: if_splits)
  have pull: "tcbs (snd (scheduler_pull_tcb v)) = tcbs v" for v
    by (simp add: scheduler_pull_tcb_def Let_def)
  have load: "tcbs (snd (ccb_load_tcb p v)) = tcbs v" for p v
    by (simp add: ccb_load_tcb_def Let_def)
  have unload: "load_frame (tcbs (snd (ccb_unload_tcb v)) q) = load_frame (tcbs v q)" for v
    by (simp add: ccb_unload_tcb_def Let_def)
  obtain p u where un: "ccb_unload_tcb s = (p, u)" by fastforce
  with unload [of s] have u: "load_frame (tcbs u q) = load_frame (tcbs s q)" by simp
  obtain w where w: "(if p \<noteq> 0 then scheduler_push_tcb p (set_state p TCB_STATE_QUEUED u) else Some u) = Some w"
    "t = (let (n, v) = scheduler_pull_tcb w in
       snd (ccb_load_tcb (if n = 0 then idle_tcb v else n) (if n = 0 then v else set_state n TCB_STATE_RUNNING v)))"
    using assms un by (auto simp: scheduler_schedule_def Let_def bind_eq_Some_conv case_prod_beta split: if_splits)
  have "load_frame (tcbs w q) = load_frame (tcbs u q)"
    using w(1) push state by (auto split: if_splits)
  then show ?thesis using w(2) load pull [of w] u state by (simp add: case_prod_beta Let_def)
qed

lemma timer_registers:
  assumes "interrupt_entry 32 f cr2 s = Some t"
  shows "load_frame (tcbs t (active s)) cur = restored f cur"
    and "q \<noteq> active s \<Longrightarrow> load_frame (tcbs t q) = load_frame (tcbs s q)"
proof -
  have "scheduler_schedule (signal_eoi (save_state_full 32 f s)) = Some t"
    using assms by (simp add: interrupt_entry_def Let_def fault_def save_state_full_def save_frame_def)
  note R = schedule_registers [OF this]
  show "load_frame (tcbs t (active s)) cur = restored f cur"
    unfolding R by (simp add: signal_eoi_def save_state_full_def)
  show "q \<noteq> active s \<Longrightarrow> load_frame (tcbs t q) = load_frame (tcbs s q)"
    unfolding R by (simp add: signal_eoi_def save_state_full_def)
qed

text \<open>Until its turn comes, a waiting thread's registers stay as they are.\<close>

lemma ticks_turn:
  assumes "kernel_inv L F s" "active s \<noteq> 0" "length fs \<le> length L" "ticks fs s = Some t"
  defines "p \<equiv> (active s # L) ! length fs"
  shows "active t = p \<and> load_frame (tcbs t p) = load_frame (tcbs s p)"
  using assms(1-4) unfolding p_def
proof (induction fs arbitrary: s L)
  case Nil
  then show ?case by simp
next
  case (Cons x fs)
  obtain f cr2 where x: "x = (f, cr2)" by fastforce
  from timer_rotates [OF Cons.prems(1,2), of f cr2] obtain u where u: "interrupt_entry 32 f cr2 s = Some u"
    "active u \<noteq> 0" "active u = hd (L @ [active s])" "kernel_inv (tl (L @ [active s])) F u" by metis
  have n: "length fs < length L" using Cons.prems(3) by simp
  have turn: "active u # tl (L @ [active s]) = L @ [active s]" using u(3) by (cases L) simp_all
  have "length fs \<le> length (tl (L @ [active s]))" using n by simp
  from Cons.IH [OF u(4,2) this] Cons.prems(4) u(1) x n
  have t: "active t = L ! length fs" "load_frame (tcbs t (L ! length fs)) = load_frame (tcbs u (L ! length fs))"
    unfolding turn by (simp_all add: nth_append)
  have "L ! length fs \<noteq> active s"
    using n kernel_invD(8) [OF Cons.prems(1)] Cons.prems(2) by (auto dest: nth_mem)
  with t timer_registers(2) [OF u(1)] show ?case by simp
qed

end
