(* ===== verification/Config.thy ===== *)
theory Config
  imports Prelude "HOL-Library.Sublist" "HOL-Library.Char_ord"
begin

text \<open>
  The boot configuration (\<open>config.c\<close>): a text of lines with a section, a property and a
  value, which is cut in place into strings that an index of 64 items points into. The text
  is a list of characters that ends with a null character; positions in it stand for the
  pointers into it. Reading past its end is stuck.
\<close>

subsection \<open>Strings\<close>

abbreviation NUL :: char where "NUL \<equiv> CHR 0x00"
abbreviation TAB :: char where "TAB \<equiv> CHR 0x09"
abbreviation NL :: char where "NL \<equiv> CHR 0x0A"

text \<open>
  The comparison of \<open>config.c\<close>, \<open>api_resolve.c\<close>, \<open>load.c\<close> and \<open>init.c\<close>, on the
  characters before the terminating null: it stops when either string ends.
\<close>

fun strcmp :: "string \<Rightarrow> string \<Rightarrow> nat" where
  "strcmp (a # as) (b # bs) = (if a \<noteq> b then 1 else strcmp as bs)"
| "strcmp _ _ = 0"

lemma strcmp_prefix: "strcmp a b = 0 \<longleftrightarrow> prefix a b \<or> prefix b a"
  by (induction a b rule: strcmp.induct) auto

lemma strcmp_refl [simp]: "strcmp a a = 0"
  by (simp add: strcmp_prefix)

text \<open>The string at a position.\<close>

definition cstring :: "string \<Rightarrow> nat \<Rightarrow> string option" where
  "cstring b p = (if NUL \<in> set (drop p b) then Some (takeWhile (\<lambda>c. c \<noteq> NUL) (drop p b)) else None)"

definition holds_at :: "string \<Rightarrow> nat \<Rightarrow> string \<Rightarrow> bool" where
  "holds_at b p s \<longleftrightarrow> NUL \<notin> set s \<and> (\<exists>u v. b = u @ s @ NUL # v \<and> length u = p)"

lemma holds_at_cstring: "holds_at b p s \<Longrightarrow> cstring b p = Some s"
  by (fastforce simp: holds_at_def cstring_def takeWhile_append)

lemma holds_at_append: "holds_at b p s \<Longrightarrow> holds_at (b @ x) p s"
  unfolding holds_at_def by (elim conjE exE, intro conjI) (assumption, rule exI, rule exI, auto)

lemma holds_atI: "NUL \<notin> set s \<Longrightarrow> b = u @ s @ NUL # v \<Longrightarrow> length u = p \<Longrightarrow> holds_at b p s"
  by (auto simp: holds_at_def)

subsection \<open>The index\<close>

definition CONFIG_INDEX_SIZE :: nat where "CONFIG_INDEX_SIZE = 64"

record config_item =
  item_section :: "nat option"
  item_property :: "nat option"
  item_value :: "nat option"

record config =
  pconf :: string
  config_index :: "nat \<Rightarrow> config_item"

definition no_item :: config_item where
  "no_item = \<lparr>item_section = None, item_property = None, item_value = None\<rparr>"

subsection \<open>Parsing\<close>

text \<open>A loop that moves on while the character satisfies \<open>P\<close>.\<close>

function scan :: "(char \<Rightarrow> bool) \<Rightarrow> string \<Rightarrow> nat \<Rightarrow> nat option" where
  "scan P b i =
     (if i < length b then if P (b ! i) then scan P b (Suc i) else Some i else None)"
  by pat_completeness auto
termination
  by (relation "measure (\<lambda>(P, b, i). length b - i)") auto

declare scan.simps [simp del]

definition blank :: "char \<Rightarrow> bool" where "blank c \<longleftrightarrow> c = CHR '' '' \<or> c = TAB"
definition in_word :: "char \<Rightarrow> bool" where "in_word c \<longleftrightarrow> c \<noteq> NUL \<and> c \<noteq> CHR '' '' \<and> c \<noteq> TAB \<and> c \<noteq> NL"
definition in_line :: "char \<Rightarrow> bool" where "in_line c \<longleftrightarrow> c \<noteq> NUL \<and> c \<noteq> NL"

definition set_item :: "nat \<Rightarrow> (config_item \<Rightarrow> config_item) \<Rightarrow> config \<Rightarrow> config" where
  "set_item n f c = c\<lparr>config_index := (config_index c)(n := f (config_index c n))\<rparr>"

text \<open>
  Each of the three parts of a line is read in the same way: blanks are skipped, the item
  gets the position, and the character after the part becomes its terminator. At the end of
  the text the function returns (\<open>None\<close>), and a part that ends with the text takes back the
  section.
\<close>

definition config_part ::
  "(nat \<Rightarrow> config_item \<Rightarrow> config_item) \<Rightarrow> (char \<Rightarrow> bool) \<Rightarrow> nat \<Rightarrow> nat \<Rightarrow> config \<Rightarrow> (config \<times> nat option) option" where
  "config_part upd P n i c = do {
     i \<leftarrow> scan blank (pconf c) i;
     if pconf c ! i = NUL then Some (c, None)
     else do {
       let c = set_item n (upd i) c;
       j \<leftarrow> scan P (pconf c) i;
       if pconf c ! j = NUL then Some (set_item n (\<lambda>e. e\<lparr>item_section := None\<rparr>) c, None)
       else Some (c\<lparr>pconf := (pconf c)[j := NUL]\<rparr>, Some (Suc j))
     }
   }"

definition config_section :: "nat \<Rightarrow> nat \<Rightarrow> config \<Rightarrow> (config \<times> nat option) option" where
  "config_section = config_part (\<lambda>i e. e\<lparr>item_section := Some i\<rparr>) in_word"
definition config_property :: "nat \<Rightarrow> nat \<Rightarrow> config \<Rightarrow> (config \<times> nat option) option" where
  "config_property = config_part (\<lambda>i e. e\<lparr>item_property := Some i\<rparr>) in_word"
definition config_value :: "nat \<Rightarrow> nat \<Rightarrow> config \<Rightarrow> (config \<times> nat option) option" where
  "config_value = config_part (\<lambda>i e. e\<lparr>item_value := Some i\<rparr>) in_line"

lemmas config_part_defs = config_section_def config_property_def config_value_def

definition config_item_line :: "nat \<Rightarrow> nat \<Rightarrow> config \<Rightarrow> (config \<times> (nat \<times> nat) option) option" where
  "config_item_line n i c = do {
     (c, r) \<leftarrow> config_section n i c;
     case r of None \<Rightarrow> Some (c, None)
     | Some i \<Rightarrow> do {
         (c, r) \<leftarrow> config_property n i c;
         case r of None \<Rightarrow> Some (c, None)
         | Some i \<Rightarrow> do {
             (c, r) \<leftarrow> config_value n i c;
             case r of None \<Rightarrow> Some (c, None)
             | Some i \<Rightarrow> Some (c, if Suc n = CONFIG_INDEX_SIZE then None else Some (Suc n, i))
           }
       }
   }"

text \<open>
  One round of the loop from position \<open>i\<close> with \<open>n\<close> items: the new state, and where to
  go on, or that the function returns.
\<close>

definition config_line :: "nat \<Rightarrow> nat \<Rightarrow> config \<Rightarrow> (config \<times> (nat \<times> nat) option) option" where
  "config_line n i c = do {
     _ \<leftarrow> in_bounds i (length (pconf c));
     let ch = pconf c ! i;
     if ch = CHR ''#'' then do {
       j \<leftarrow> scan in_line (pconf c) i;
       Some (c, Some (n, if pconf c ! j \<noteq> NUL then Suc j else j))
     }
     else if ch = NL then Some (c, Some (n, Suc i))
     else if ch = NUL then Some (c, None)
     else config_item_line n i c
   }"

lemma scan_bounds:
  "scan P b i = Some j \<Longrightarrow> i \<le> j \<and> j < length b \<and> \<not> P (b ! j) \<and> (\<forall>k. i \<le> k \<longrightarrow> k < j \<longrightarrow> P (b ! k))"
proof (induction P b i rule: scan.induct)
  case (1 P b i)
  show ?case
  proof (cases "i < length b \<and> P (b ! i)")
    case True
    then have "scan P b (Suc i) = Some j" using 1(2) by (subst (asm) scan.simps) simp
    with True 1(1) have *: "Suc i \<le> j \<and> j < length b \<and> \<not> P (b ! j) \<and> (\<forall>k. Suc i \<le> k \<longrightarrow> k < j \<longrightarrow> P (b ! k))"
      by blast
    then have "P (b ! k)" if "i \<le> k" "k < j" for k using True that by (cases "k = i") auto
    then show ?thesis using * by auto
  next
    case False
    then show ?thesis using 1(2) by (subst (asm) scan.simps) (auto split: if_splits)
  qed
qed

lemma set_item_pconf [simp]: "pconf (set_item n f c) = pconf c"
  by (simp add: set_item_def)

lemma config_part_progress:
  assumes "config_part upd P n i c = Some (c', Some j)"
  shows "length (pconf c') = length (pconf c)" "i < j"
  using assms by (auto simp: config_part_def bind_eq_Some_conv Let_def dest!: scan_bounds split: if_splits)

lemma config_item_line_progress:
  assumes "config_item_line n i c = Some (c', Some (n', j))"
  shows "length (pconf c') = length (pconf c) \<and> i < j"
proof -
  obtain c1 i1 c2 i2 where p: "config_section n i c = Some (c1, Some i1)"
    "config_property n i1 c1 = Some (c2, Some i2)" "config_value n i2 c2 = Some (c', Some j)"
    using assms by (fastforce simp: config_item_line_def bind_eq_Some_conv split: option.splits if_splits)
  show ?thesis
    using config_part_progress [OF p(1) [unfolded config_part_defs]]
      config_part_progress [OF p(2) [unfolded config_part_defs]]
      config_part_progress [OF p(3) [unfolded config_part_defs]] by simp
qed

text \<open>A round that goes on has moved forward in a text of the same length.\<close>

lemma config_line_progress:
  assumes "config_line n i c = Some (c', Some (n', j))"
  shows "length (pconf c') = length (pconf c) \<and> i < j \<and> i < length (pconf c)"
proof -
  have i: "i < length (pconf c)" using assms by (auto simp: config_line_def bind_eq_Some_conv)
  show ?thesis
  proof (cases "pconf c ! i = CHR ''#''")
    case True
    then obtain k where k: "scan in_line (pconf c) i = Some k" "c' = c"
      "j = (if pconf c ! k \<noteq> NUL then Suc k else k)"
      using assms i by (auto simp: config_line_def bind_eq_Some_conv)
    have "pconf c ! k \<noteq> CHR ''#''" using scan_bounds [OF k(1)] by (auto simp: in_line_def)
    then have "i \<noteq> k" using True by auto
    then show ?thesis using i k scan_bounds [OF k(1)] by auto
  next
    case False
    then show ?thesis using assms i config_item_line_progress
      by (auto simp: config_line_def Let_def split: if_splits)
  qed
qed

function config_parse_from :: "nat \<Rightarrow> nat \<Rightarrow> config \<Rightarrow> config option" where
  "config_parse_from n i c = do {
     (c', r) \<leftarrow> config_line n i c;
     case r of None \<Rightarrow> Some c' | Some (n', j) \<Rightarrow> config_parse_from n' j c'
   }"
  by pat_completeness auto
termination
  by (relation "measure (\<lambda>(n, i, c). length (pconf c) - i)")
    (auto dest!: config_line_progress split: prod.splits)

declare config_parse_from.simps [simp del]

definition config_parse :: "string \<Rightarrow> (nat \<Rightarrow> config_item) \<Rightarrow> config option" where
  "config_parse text idx = config_parse_from 0 0 \<lparr>pconf = text, config_index = idx\<rparr>"

subsection \<open>Reading\<close>

text \<open>The search from item \<open>n\<close> on; the result is the position of the value.\<close>

function config_read_from :: "nat \<Rightarrow> string \<Rightarrow> string \<Rightarrow> config \<Rightarrow> nat option option" where
  "config_read_from n sname pname c =
     (if n < CONFIG_INDEX_SIZE \<and> item_section (config_index c n) \<noteq> None then do {
        s \<leftarrow> cstring (pconf c) (the (item_section (config_index c n)));
        if strcmp s sname = 0 then do {
          pp \<leftarrow> item_property (config_index c n);
          p \<leftarrow> cstring (pconf c) pp;
          if strcmp p pname = 0 then Some (item_value (config_index c n))
          else config_read_from (Suc n) sname pname c
        } else config_read_from (Suc n) sname pname c
      } else Some None)"
  by pat_completeness auto
termination
  by (relation "measure (\<lambda>(n, s, p, c). CONFIG_INDEX_SIZE - n)") auto

declare config_read_from.simps [simp del]

definition config_read :: "string \<Rightarrow> string \<Rightarrow> config \<Rightarrow> nat option option" where
  "config_read sname pname c = config_read_from 0 sname pname c"

text \<open>The value of a hexadecimal digit.\<close>

definition hex_digit :: "char \<Rightarrow> u64 option" where
  "hex_digit c =
     (if CHR ''0'' \<le> c \<and> c \<le> CHR ''9'' then Some (of_nat (of_char c) - of_nat (of_char (CHR ''0'')))
      else if CHR ''a'' \<le> c \<and> c \<le> CHR ''f'' then Some (of_nat (of_char c) - of_nat (of_char (CHR ''a'')) + 10)
      else if CHR ''A'' \<le> c \<and> c \<le> CHR ''F'' then Some (of_nat (of_char c) - of_nat (of_char (CHR ''A'')) + 10)
      else None)"

fun config_hex :: "u64 \<Rightarrow> string \<Rightarrow> u64 option" where
  "config_hex ptrvalue [] = Some ptrvalue"
| "config_hex ptrvalue (c # cs) =
     (case hex_digit c of None \<Rightarrow> None | Some d \<Rightarrow> config_hex (push_bit 4 ptrvalue OR d) cs)"

definition config_read_as_ptr :: "string \<Rightarrow> string \<Rightarrow> u64 \<Rightarrow> config \<Rightarrow> u64 option" where
  "config_read_as_ptr sname pname sentinel c = do {
     v \<leftarrow> config_read sname pname c;
     case v of None \<Rightarrow> Some sentinel
     | Some p \<Rightarrow> do {
         value \<leftarrow> cstring (pconf c) p;
         Some (case config_hex 0 value of None \<Rightarrow> sentinel | Some w \<Rightarrow> w)
       }
   }"

end
