(* ===== verification/Config_Specs.thy ===== *)
theory Config_Specs
  imports Config
begin

text \<open>
  What the configuration parser makes of a well-formed text: a grammar of lines, how they
  are written, and that reading a property returns the value of the first entry that
  matches.
\<close>

subsection \<open>Lines\<close>

datatype conf_line =
  Empty_line
| Comment string
| Entry string string string string string string
  \<comment> \<open>blanks, section, blanks, property, blanks, value\<close>

fun render :: "conf_line \<Rightarrow> string" where
  "render Empty_line = [NL]"
| "render (Comment s) = CHR ''#'' # s @ [NL]"
| "render (Entry b1 s b2 p b3 v) = b1 @ s @ b2 @ p @ b3 @ v @ [NL]"

definition word :: "string \<Rightarrow> bool" where
  "word w \<longleftrightarrow> w \<noteq> [] \<and> (\<forall>c \<in> set w. in_word c)"

definition blanks :: "string \<Rightarrow> bool" where
  "blanks b \<longleftrightarrow> (\<forall>c \<in> set b. blank c)"

fun wf_line :: "conf_line \<Rightarrow> bool" where
  "wf_line Empty_line \<longleftrightarrow> True"
| "wf_line (Comment s) \<longleftrightarrow> (\<forall>c \<in> set s. in_line c)"
| "wf_line (Entry b1 s b2 p b3 v) \<longleftrightarrow> blanks b1 \<and> word s \<and> (b1 = [] \<longrightarrow> hd s \<noteq> CHR ''#'') \<and>
     blanks b2 \<and> b2 \<noteq> [] \<and> word p \<and> blanks b3 \<and> b3 \<noteq> [] \<and>
     (\<forall>c \<in> set v. in_line c) \<and> (v \<noteq> [] \<longrightarrow> \<not> blank (hd v))"

fun line_entries :: "conf_line \<Rightarrow> (string \<times> string \<times> string) list" where
  "line_entries (Entry b1 s b2 p b3 v) = [(s, p, v)]"
| "line_entries _ = []"

definition entries :: "conf_line list \<Rightarrow> (string \<times> string \<times> string) list" where
  "entries ls = concat (map line_entries ls)"

definition render_all :: "conf_line list \<Rightarrow> string" where
  "render_all ls = concat (map render ls) @ [NUL]"

lemma entries_simps [simp]:
  "entries [] = []" "entries (l # ls) = line_entries l @ entries ls"
  by (simp_all add: entries_def)

lemma render_all_simps [simp]:
  "render_all [] = [NUL]" "render_all (l # ls) = render l @ render_all ls"
  by (simp_all add: render_all_def)

subsection \<open>One part\<close>

lemma scan_run:
  assumes "\<forall>c \<in> set w. P c" "\<not> P t"
  shows "scan P (pre @ w @ t # rest) (length pre) = Some (length pre + length w)"
  using assms(1)
proof (induction w arbitrary: pre)
  case Nil
  then show ?case using assms(2) by (subst scan.simps) (simp add: nth_append)
next
  case (Cons a w)
  have "scan P (pre @ (a # w) @ t # rest) (length pre) = scan P (pre @ (a # w) @ t # rest) (Suc (length pre))"
    using Cons.prems by (subst scan.simps) (simp add: nth_append)
  also have "\<dots> = scan P ((pre @ [a]) @ w @ t # rest) (length (pre @ [a]))" by simp
  also have "\<dots> = Some (length (pre @ [a]) + length w)" by (rule Cons.IH) (use Cons.prems in simp)
  finally show ?case by simp
qed

text \<open>A part of a line, from the blanks before it to its terminator.\<close>

lemma config_part_run:
  assumes "pconf c = pre @ b @ w @ t # rest" "blanks b" "\<forall>x \<in> set w. P x" "\<not> P NUL" "\<not> P t" "t \<noteq> NUL"
    and "w \<noteq> [] \<longrightarrow> \<not> blank (hd w)" "w = [] \<longrightarrow> \<not> blank t"
  shows "config_part upd P n (length pre) c =
    Some (set_item n (upd (length (pre @ b))) c\<lparr>pconf := pre @ b @ w @ NUL # rest\<rparr>,
      Some (length (pre @ b @ w @ [NUL])))"
proof -
  have "scan blank (pconf c) (length pre) = Some (length pre + length b)"
  proof (cases w)
    case Nil
    then show ?thesis unfolding assms(1) using scan_run [of b blank t pre rest] assms(2,8) by (simp add: blanks_def)
  next
    case (Cons a w')
    then show ?thesis unfolding assms(1) using scan_run [of b blank a pre "w' @ t # rest"] assms(2,7)
      by (simp add: blanks_def)
  qed
  moreover have "pconf c ! (length pre + length b) \<noteq> NUL"
    unfolding assms(1) using assms(3,4,6) by (cases w) (auto simp: nth_append)
  moreover have "scan P (pconf c) (length pre + length b) = Some (length pre + length b + length w)"
    unfolding assms(1) using scan_run [of w P t "pre @ b" rest] assms(3,5) by simp
  moreover have "pconf c ! (length pre + length b + length w) = t"
    unfolding assms(1) using nth_append_length [of "pre @ b @ w" t rest] by (simp add: add.assoc)
  moreover have "(pconf c)[length pre + length b + length w := NUL] = pre @ b @ w @ NUL # rest"
    unfolding assms(1) using list_update_length [of "pre @ b @ w" t rest NUL] by (simp add: add.assoc)
  ultimately show ?thesis using assms(6) by (simp add: config_part_def)
qed

subsection \<open>One line\<close>

definition item_holds :: "string \<Rightarrow> config_item \<Rightarrow> string \<times> string \<times> string \<Rightarrow> bool" where
  "item_holds b e x \<longleftrightarrow> (case x of (s, p, v) \<Rightarrow> \<exists>i j k.
     e = \<lparr>item_section = Some i, item_property = Some j, item_value = Some k\<rparr> \<and>
     holds_at b i s \<and> holds_at b j p \<and> holds_at b k v)"

lemma item_holds_append: "item_holds b e x \<Longrightarrow> item_holds (b @ y) e x"
  by (auto simp: item_holds_def intro!: holds_at_append)

lemma word_facts:
  assumes "word w"
  shows "\<not> blank (hd w)" "NUL \<notin> set w" "hd w \<noteq> NL" "hd w \<noteq> NUL"
proof -
  have "in_word (hd w)" using assms by (simp add: word_def)
  then show "\<not> blank (hd w)" "hd w \<noteq> NL" "hd w \<noteq> NUL" by (simp_all add: in_word_def blank_def)
  show "NUL \<notin> set w" using assms by (auto simp: word_def in_word_def)
qed

lemma part_classes:
  "\<not> in_word NUL" "\<not> in_line NUL" "\<not> in_line NL" "blank t \<Longrightarrow> \<not> in_word t" "blank t \<Longrightarrow> t \<noteq> NUL" "\<not> blank NL"
  by (auto simp: in_word_def in_line_def blank_def)

lemma config_entry_run:
  assumes "pconf c = pre @ render (Entry b1 s b2 p b3 v) @ rest" "wf_line (Entry b1 s b2 p b3 v)"
  shows "\<exists>cooked e. config_item_line n (length pre) c =
    Some (c\<lparr>pconf := pre @ cooked @ rest, config_index := (config_index c)(n := e)\<rparr>,
      if Suc n = CONFIG_INDEX_SIZE then None else Some (Suc n, length (pre @ cooked))) \<and>
    item_holds (pre @ cooked) e (s, p, v)"
proof -
  from assms(2) obtain t2 b2' t3 b3' where b: "b2 = t2 # b2'" "b3 = t3 # b3'" by (auto simp: neq_Nil_conv)
  have w: "blanks b1" "word s" "blanks b2'" "blank t2" "word p" "blanks b3'" "blank t3"
    "\<forall>c \<in> set v. in_line c" "v \<noteq> [] \<longrightarrow> \<not> blank (hd v)" using assms(2) b by (simp_all add: blanks_def)
  have ws: "\<forall>c \<in> set s. in_word c" "s \<noteq> []" "\<forall>c \<in> set p. in_word c" "p \<noteq> []" using w(2,5) by (simp_all add: word_def)
  let ?p1 = "pre @ b1 @ s @ [NUL]"
  let ?p2 = "?p1 @ b2' @ p @ [NUL]"
  let ?p3 = "?p2 @ b3' @ v @ [NUL]"
  let ?c1 = "set_item n (\<lambda>e. e\<lparr>item_section := Some (length (pre @ b1))\<rparr>) c
    \<lparr>pconf := pre @ b1 @ s @ NUL # b2' @ p @ t3 # b3' @ v @ NL # rest\<rparr>"
  let ?c2 = "set_item n (\<lambda>e. e\<lparr>item_property := Some (length (?p1 @ b2'))\<rparr>) ?c1
    \<lparr>pconf := ?p1 @ b2' @ p @ NUL # b3' @ v @ NL # rest\<rparr>"
  let ?c3 = "set_item n (\<lambda>e. e\<lparr>item_value := Some (length (?p2 @ b3'))\<rparr>) ?c2
    \<lparr>pconf := ?p2 @ b3' @ v @ NUL # rest\<rparr>"
  have 1: "config_section n (length pre) c = Some (?c1, Some (length ?p1))"
    unfolding config_section_def
    using config_part_run [of c pre b1 s t2 "b2' @ p @ t3 # b3' @ v @ NL # rest" in_word
        "\<lambda>i e. e\<lparr>item_section := Some i\<rparr>" n]
      assms(1) b w ws word_facts [OF w(2)] by (simp add: part_classes)
  have 2: "config_property n (length ?p1) ?c1 = Some (?c2, Some (length ?p2))"
    unfolding config_property_def
    using config_part_run [of ?c1 ?p1 b2' p t3 "b3' @ v @ NL # rest" in_word "\<lambda>i e. e\<lparr>item_property := Some i\<rparr>" n]
      w ws word_facts [OF w(5)] by (simp add: part_classes)
  have 3: "config_value n (length ?p2) ?c2 = Some (?c3, Some (length ?p3))"
    unfolding config_value_def
    using config_part_run [of ?c2 ?p2 b3' v NL rest in_line "\<lambda>i e. e\<lparr>item_value := Some i\<rparr>" n] w
    by (simp add: part_classes)
  let ?e = "\<lparr>item_section = Some (length (pre @ b1)), item_property = Some (length (?p1 @ b2')),
    item_value = Some (length (?p2 @ b3'))\<rparr>"
  let ?k = "b1 @ s @ NUL # b2' @ p @ NUL # b3' @ v @ [NUL]"
  have e: "?c3 = c\<lparr>pconf := pre @ ?k @ rest, config_index := (config_index c)(n := ?e)\<rparr>"
    by (cases "config_index c n") (simp add: set_item_def)
  have "NUL \<notin> set v" using w(8) by (auto simp: in_line_def)
  moreover have "NUL \<notin> set s" "NUL \<notin> set p" using word_facts(2) w(2,5) by blast+
  ultimately have h: "holds_at (pre @ ?k) (length (pre @ b1)) s" "holds_at (pre @ ?k) (length (?p1 @ b2')) p"
    "holds_at (pre @ ?k) (length (?p2 @ b3')) v"
    by (intro holds_atI [of s _ "pre @ b1"] holds_atI [of p _ "?p1 @ b2'"] holds_atI [of v _ "?p2 @ b3'"]; simp)+
  have "item_holds (pre @ ?k) ?e (s, p, v)" unfolding item_holds_def using h by blast
  moreover have "config_item_line n (length pre) c =
      Some (?c3, if Suc n = CONFIG_INDEX_SIZE then None else Some (Suc n, length ?p3))"
    unfolding config_item_line_def by (simp only: 1 2 3 option.simps bind.bind_lunit prod.case)
  moreover have "length ?p3 = length (pre @ ?k)" by simp
  ultimately show ?thesis unfolding e by (intro exI [of _ ?k] exI [of _ ?e] conjI) simp_all
qed

text \<open>Comments and empty lines are skipped.\<close>

lemma config_skip_run:
  assumes "pconf c = pre @ render l @ rest" "wf_line l" "line_entries l = []"
  shows "config_line n (length pre) c = Some (c, Some (n, length (pre @ render l)))"
proof (cases l)
  case Empty_line
  then show ?thesis using assms(1) by (simp add: config_line_def)
next
  case (Comment s)
  have "\<forall>x \<in> set (CHR ''#'' # s). in_line x" using assms(2) Comment by (simp add: in_line_def)
  from scan_run [OF this part_classes(3), of pre rest] assms(1) Comment
  have "scan in_line (pconf c) (length pre) = Some (length pre + length (CHR ''#'' # s))" by simp
  moreover have "pconf c ! (length pre + length (CHR ''#'' # s)) = NL"
    using assms(1) Comment nth_append_length [of "pre @ CHR ''#'' # s" NL rest] by simp
  moreover have "pconf c ! length pre = CHR ''#''" "length pre < length (pconf c)"
    using assms(1) Comment by (simp_all add: nth_append)
  ultimately show ?thesis using Comment by (simp add: config_line_def)
next
  case (Entry b1 s b2 p b3 v)
  then show ?thesis using assms(3) by simp
qed

lemma config_line_entry:
  assumes "pconf c = pre @ render (Entry b1 s b2 p b3 v) @ rest" "wf_line (Entry b1 s b2 p b3 v)"
  shows "config_line n (length pre) c = config_item_line n (length pre) c"
proof -
  let ?h = "hd (b1 @ s)"
  have ne: "b1 @ s \<noteq> []" using assms(2) by (simp add: word_def)
  then have at: "pconf c ! length pre = ?h" "length pre < length (pconf c)"
    using assms(1) by (cases "b1 @ s"; cases b1; simp add: nth_append)+
  have "?h \<noteq> CHR ''#'' \<and> ?h \<noteq> NL \<and> ?h \<noteq> NUL"
  proof (cases b1)
    case Nil
    then show ?thesis using assms(2) word_facts [of s] by simp
  next
    case (Cons a b)
    then have "blank a" using assms(2) by (simp add: blanks_def)
    then show ?thesis using Cons by (auto simp: blank_def)
  qed
  then show ?thesis using at by (simp add: config_line_def Let_def)
qed

subsection \<open>The whole text\<close>

lemma config_parse_run:
  assumes "pconf c = pre @ render_all ls" "\<forall>l \<in> set ls. wf_line l" "n + length (entries ls) \<le> CONFIG_INDEX_SIZE"
    and "n < CONFIG_INDEX_SIZE"
  shows "\<exists>c' x. config_parse_from n (length pre) c = Some c' \<and> pconf c' = pre @ x \<and>
    (\<forall>j. j < n \<or> n + length (entries ls) \<le> j \<longrightarrow> config_index c' j = config_index c j) \<and>
    (\<forall>k < length (entries ls). item_holds (pconf c') (config_index c' (n + k)) (entries ls ! k))"
  using assms
proof (induction ls arbitrary: n pre c)
  case Nil
  then have "config_line n (length pre) c = Some (c, None)" by (simp add: config_line_def Let_def)
  then have "config_parse_from n (length pre) c = Some c" by (subst config_parse_from.simps) simp
  then show ?case using Nil by auto
next
  case (Cons l ls)
  have wf: "wf_line l" "\<forall>l \<in> set ls. wf_line l" using Cons.prems(2) by simp_all
  show ?case
  proof (cases "line_entries l = []")
    case True
    then have ne: "entries (l # ls) = entries ls" by simp
    have c: "pconf c = (pre @ render l) @ render_all ls" using Cons.prems(1) by simp
    have "config_line n (length pre) c = Some (c, Some (n, length (pre @ render l)))"
      using config_skip_run [OF _ wf(1) True] c by simp
    then have "config_parse_from n (length pre) c = config_parse_from n (length (pre @ render l)) c"
      by (subst config_parse_from.simps) simp
    then show ?thesis
      using Cons.IH [OF c wf(2) Cons.prems(3) [unfolded ne] Cons.prems(4)] unfolding ne by auto
  next
    case False
    then obtain b1 s b2 p b3 v where l: "l = Entry b1 s b2 p b3 v" by (cases l) auto
    have ne: "entries (l # ls) = (s, p, v) # entries ls" by (simp add: l)
    have c: "pconf c = pre @ render (Entry b1 s b2 p b3 v) @ render_all ls" using Cons.prems(1) l by simp
    obtain k e where run: "config_item_line n (length pre) c =
      Some (c\<lparr>pconf := pre @ k @ render_all ls, config_index := (config_index c)(n := e)\<rparr>,
        if Suc n = CONFIG_INDEX_SIZE then None else Some (Suc n, length (pre @ k)))"
      and e: "item_holds (pre @ k) e (s, p, v)"
      using config_entry_run [OF c wf(1) [unfolded l]] by blast
    let ?c = "c\<lparr>pconf := pre @ k @ render_all ls, config_index := (config_index c)(n := e)\<rparr>"
    note line = config_line_entry [OF c wf(1) [unfolded l], of n, unfolded run]
    show ?thesis
    proof (cases "Suc n = CONFIG_INDEX_SIZE")
      case True
      then have "config_parse_from n (length pre) c = Some ?c"
        using line by (subst config_parse_from.simps) simp
      moreover have "entries ls = []" using Cons.prems(3) unfolding ne True [symmetric] by simp
      moreover have "item_holds (pre @ k @ render_all ls) e (s, p, v)" using item_holds_append [OF e] by simp
      ultimately show ?thesis unfolding ne by auto
    next
      case False
      then have step: "config_parse_from n (length pre) c = config_parse_from (Suc n) (length (pre @ k)) ?c"
        using line by (subst config_parse_from.simps) simp
      have c': "pconf ?c = (pre @ k) @ render_all ls" by simp
      have n: "Suc n + length (entries ls) \<le> CONFIG_INDEX_SIZE" "Suc n < CONFIG_INDEX_SIZE"
        using Cons.prems(3) [unfolded ne] Cons.prems(4) False by simp_all
      from Cons.IH [OF c' wf(2) n] obtain d x where
        d: "config_parse_from (Suc n) (length (pre @ k)) ?c = Some d" "pconf d = (pre @ k) @ x"
        "\<forall>j. j < Suc n \<or> Suc n + length (entries ls) \<le> j \<longrightarrow> config_index d j = config_index ?c j"
        "\<forall>i < length (entries ls). item_holds (pconf d) (config_index d (Suc n + i)) (entries ls ! i)" by blast
      have "item_holds (pconf d) (config_index d n) (s, p, v)"
        using d(2,3) item_holds_append [OF e, of x] by simp
      then have "item_holds (pconf d) (config_index d (n + i)) (entries (l # ls) ! i)"
        if "i < length (entries (l # ls))" for i
        using d(4) that unfolding ne by (cases i) auto
      moreover have "config_index d j = config_index c j" if "j < n \<or> n + length (entries (l # ls)) \<le> j" for j
        using d(3) that unfolding ne by auto
      ultimately show ?thesis using step d(1,2) by auto
    qed
  qed
qed

subsection \<open>Reading\<close>

definition matches :: "string \<Rightarrow> string \<Rightarrow> string \<times> string \<times> string \<Rightarrow> bool" where
  "matches sname pname x \<longleftrightarrow> (case x of (s, p, v) \<Rightarrow> strcmp s sname = 0 \<and> strcmp p pname = 0)"

lemma config_read_run:
  assumes "\<forall>k < length es. item_holds (pconf c) (config_index c (n + k)) (es ! k)"
    and "n + length es \<le> CONFIG_INDEX_SIZE" "n + length es < CONFIG_INDEX_SIZE \<longrightarrow> item_section (config_index c (n + length es)) = None"
  shows "case List.find (matches sname pname) es of
      None \<Rightarrow> config_read_from n sname pname c = Some None
    | Some (s, p, v) \<Rightarrow> \<exists>k. config_read_from n sname pname c = Some (Some k) \<and> holds_at (pconf c) k v"
  using assms
proof (induction es arbitrary: n)
  case Nil
  then have "config_read_from n sname pname c = Some None" by (subst config_read_from.simps) auto
  then show ?case by simp
next
  case (Cons x es)
  obtain s p v where x: "x = (s, p, v)" by (cases x)
  from Cons.prems(1) have "item_holds (pconf c) (config_index c n) (s, p, v)" using x by force
  then obtain i j k where e: "config_index c n = \<lparr>item_section = Some i, item_property = Some j, item_value = Some k\<rparr>"
    "holds_at (pconf c) i s" "holds_at (pconf c) j p" "holds_at (pconf c) k v" by (auto simp: item_holds_def)
  have n: "n < CONFIG_INDEX_SIZE" using Cons.prems(2) by simp
  have rd: "config_read_from n sname pname c =
      (if matches sname pname x then Some (Some k) else config_read_from (Suc n) sname pname c)"
    using n e holds_at_cstring by (subst config_read_from.simps) (simp add: x matches_def)
  have "\<forall>k < length es. item_holds (pconf c) (config_index c (Suc n + k)) (es ! k)"
    using Cons.prems(1) by (metis Suc_less_eq add_Suc_right add_Suc_shift length_Cons nth_Cons_Suc)
  then have ih: "case List.find (matches sname pname) es of
      None \<Rightarrow> config_read_from (Suc n) sname pname c = Some None
    | Some (s, p, v) \<Rightarrow> \<exists>k. config_read_from (Suc n) sname pname c = Some (Some k) \<and> holds_at (pconf c) k v"
    by (rule Cons.IH) (use Cons.prems(2,3) in \<open>simp_all\<close>)
  show ?case
  proof (cases "matches sname pname x")
    case True
    then show ?thesis using rd e(4) by (auto simp: x)
  next
    case False
    then show ?thesis using rd ih by (simp cong: option.case_cong)
  qed
qed

text \<open>The contents of the value that is found.\<close>

definition config_value_of :: "string \<Rightarrow> string \<Rightarrow> config \<Rightarrow> string option option" where
  "config_value_of sname pname c = do {
     v \<leftarrow> config_read sname pname c;
     case v of None \<Rightarrow> Some None | Some p \<Rightarrow> do { s \<leftarrow> cstring (pconf c) p; Some (Some s) }
   }"

lemma config_parse_read:
  assumes "\<forall>l \<in> set ls. wf_line l" "length (entries ls) \<le> CONFIG_INDEX_SIZE"
  shows "\<exists>c. config_parse (render_all ls) (\<lambda>n. no_item) = Some c \<and> (\<forall>sname pname.
    config_value_of sname pname c = Some (map_option (\<lambda>(s, p, v). v) (List.find (matches sname pname) (entries ls))))"
proof -
  let ?c = "\<lparr>pconf = render_all ls, config_index = \<lambda>n. no_item\<rparr>"
  have n: "0 + length (entries ls) \<le> CONFIG_INDEX_SIZE" "0 < CONFIG_INDEX_SIZE" using assms(2)
    by (simp_all add: CONFIG_INDEX_SIZE_def)
  from config_parse_run [of ?c "[]" ls 0, OF _ assms(1) n] obtain c where
    c: "config_parse (render_all ls) (\<lambda>n. no_item) = Some c"
    "\<forall>j. length (entries ls) \<le> j \<longrightarrow> config_index c j = no_item"
    "\<forall>k < length (entries ls). item_holds (pconf c) (config_index c (0 + k)) (entries ls ! k)"
    by (auto simp: config_parse_def)
  have last: "0 + length (entries ls) < CONFIG_INDEX_SIZE \<longrightarrow> item_section (config_index c (0 + length (entries ls))) = None"
    using c(2) by (simp add: no_item_def)
  have "config_value_of sname pname c = Some (map_option (\<lambda>(s, p, v). v) (List.find (matches sname pname) (entries ls)))"
    for sname pname
    using config_read_run [OF c(3) n(1) last, of sname pname]
    by (auto simp: config_value_of_def config_read_def holds_at_cstring split: option.splits)
  then show ?thesis using c(1) by blast
qed

subsection \<open>Addresses\<close>

text \<open>The number a string of digits stands for, without the bound of 64 bits.\<close>

definition hex_step :: "nat \<Rightarrow> char \<Rightarrow> nat" where
  "hex_step n c = 16 * n + unat (the (hex_digit c))"

definition hex_value :: "string \<Rightarrow> nat" where
  "hex_value s = foldl hex_step 0 s"

definition is_hex :: "string \<Rightarrow> bool" where
  "is_hex s \<longleftrightarrow> (\<forall>c \<in> set s. hex_digit c \<noteq> None)"

lemma unat_of_char: "unat (of_nat (of_char c) :: u64) = of_char c"
proof -
  have "of_char c < (2 :: nat) ^ 64" by (rule less_trans [OF nat_of_char_less_256]) simp
  then have "take_bit 64 (of_char c :: nat) = of_char c" by (rule take_bit_nat_eq_self)
  then show ?thesis unfolding unsigned_of_nat by simp
qed

lemma unat_char_diff:
  assumes "unat k \<le> of_char c"
  shows "unat (of_nat (of_char c) - k :: u64) = of_char c - unat k"
  using assms unat_of_char [of c] by (simp add: unat_sub word_le_nat_alt)

lemma hex_digit_less:
  assumes "hex_digit c = Some d"
  shows "d < 16"
  using assms unat_char_diff [of 48 c] unat_char_diff [of 87 c] unat_char_diff [of 55 c]
  by (auto simp: hex_digit_def word_less_nat_alt less_eq_char_def split: if_splits)

lemma shift_or:
  fixes w d :: u64
  assumes "d < 16"
  shows "push_bit 4 w OR d = 16 * w + d"
proof -
  have "unat (take_bit 4 d) = unat d" using assms
    by (simp add: unsigned_take_bit_eq take_bit_nat_eq_self word_less_nat_alt)
  then have "take_bit 4 d = d" by (simp add: word_unat_eq_iff)
  then have "\<not> bit d n" if "4 \<le> n" for n using that by (metis bit_take_bit_iff not_le)
  then have "push_bit 4 w + d = push_bit 4 w OR d"
    by (intro disjunctive_add) (auto simp: bit_simps not_le)
  then show ?thesis by (simp add: push_bit_eq_mult mult.commute)
qed

lemma config_hex_value:
  assumes "is_hex s"
  shows "config_hex (of_nat n) s = Some (of_nat (foldl hex_step n s))"
  using assms
proof (induction s arbitrary: n)
  case Nil
  then show ?case by simp
next
  case (Cons c s)
  then obtain d where d: "hex_digit c = Some d" "is_hex s" by (auto simp: is_hex_def)
  have "push_bit 4 (of_nat n) OR d = of_nat (hex_step n c)"
    using shift_or [OF hex_digit_less [OF d(1)], of "of_nat n"] d(1) by (simp add: hex_step_def)
  then show ?case using d(1) Cons.IH [OF d(2)] by simp
qed

lemma config_hex_reject: "\<not> is_hex s \<Longrightarrow> config_hex w s = None"
  by (induction s arbitrary: w) (auto simp: is_hex_def split: option.splits)

lemma config_hex_spec: "config_hex 0 s = (if is_hex s then Some (of_nat (hex_value s)) else None)"
  using config_hex_value [of s 0] config_hex_reject [of s 0] by (simp add: hex_value_def)

lemma read_as_ptr_value:
  assumes "config_value_of sname pname c = Some r"
  shows "config_read_as_ptr sname pname sentinel c =
    Some (case r of None \<Rightarrow> sentinel
      | Some v \<Rightarrow> if is_hex v then of_nat (hex_value v) else sentinel)"
  using assms by (auto simp: config_value_of_def config_read_as_ptr_def config_hex_spec
      bind_eq_Some_conv split: option.splits)

end
