(* ===== verification/Bytes.thy ===== *)
theory Bytes
  imports Config
begin

text \<open>
  Memory as bytes, for the code that works on images and strings (\<open>load.c\<close>,
  \<open>api_resolve.c\<close>, \<open>acpi.c\<close> and the boot loader): little-endian reads and writes, copying and
  clearing, and the comparison with a string constant.
\<close>

type_synonym bytes = "u64 \<Rightarrow> u8"

subsection \<open>Integers in memory\<close>

fun rd_bytes :: "nat \<Rightarrow> bytes \<Rightarrow> u64 \<Rightarrow> u64" where
  "rd_bytes 0 m a = 0"
| "rd_bytes (Suc n) m a = ucast (m a) OR push_bit 8 (rd_bytes n m (a + 1))"

definition rd16 :: "bytes \<Rightarrow> u64 \<Rightarrow> u16" where "rd16 m a = ucast (rd_bytes 2 m a)"
definition rd32 :: "bytes \<Rightarrow> u64 \<Rightarrow> u32" where "rd32 m a = ucast (rd_bytes 4 m a)"
definition rd64 :: "bytes \<Rightarrow> u64 \<Rightarrow> u64" where "rd64 m a = rd_bytes 8 m a"

fun wr_bytes :: "nat \<Rightarrow> u64 \<Rightarrow> u64 \<Rightarrow> bytes \<Rightarrow> bytes" where
  "wr_bytes 0 a w m = m"
| "wr_bytes (Suc n) a w m = wr_bytes n (a + 1) (drop_bit 8 w) (m(a := ucast w))"

definition wr64 :: "u64 \<Rightarrow> u64 \<Rightarrow> bytes \<Rightarrow> bytes" where "wr64 a w m = wr_bytes 8 a w m"

lemma offset_eq: "a + of_nat i = (a :: u64) + of_nat j \<longleftrightarrow> i = j" if "i < 2 ^ 64" "j < 2 ^ 64"
proof -
  have "(of_nat i :: u64) = of_nat j \<longleftrightarrow> i = j"
  proof
    assume "(of_nat i :: u64) = of_nat j"
    then have "unat (of_nat i :: u64) = unat (of_nat j :: u64)" by simp
    then show "i = j" using that by (simp add: unsigned_of_nat take_bit_nat_eq_self)
  qed simp
  then show ?thesis by simp
qed

lemma wr_bytes_other:
  assumes "\<And>i. i < n \<Longrightarrow> b \<noteq> a + of_nat i"
  shows "wr_bytes n a w m b = m b"
  using assms
proof (induction n arbitrary: a w m)
  case 0
  then show ?case by simp
next
  case (Suc n)
  have "b \<noteq> a" using Suc.prems [of 0] by simp
  moreover have "b \<noteq> a + 1 + of_nat i" if "i < n" for i
    using Suc.prems [of "Suc i"] that by (simp add: add.assoc)
  ultimately show ?case using Suc.IH by simp
qed

lemma wr_bytes_at:
  assumes "i < n" "n < 2 ^ 64"
  shows "wr_bytes n a w m (a + of_nat i) = ucast (drop_bit (8 * i) w)"
  using assms
proof (induction n arbitrary: i a w m)
  case 0
  then show ?case by simp
next
  case (Suc n)
  show ?case
  proof (cases i)
    case 0
    have "a \<noteq> a + 1 + of_nat k" if "k < n" for k
      using offset_eq [of 0 "Suc k" a] that Suc.prems(2) by (simp add: add.assoc)
    then show ?thesis using 0 wr_bytes_other [of n a "a + 1"] by simp
  next
    case (Suc k)
    have a: "a + of_nat i = a + 1 + of_nat k" using Suc by (simp add: add.assoc)
    have "drop_bit (8 * k) (drop_bit 8 w) = drop_bit (8 * i) w" using Suc by (simp add: add.commute)
    then show ?thesis using Suc.IH [of k "a + 1" "drop_bit 8 w" "m(a := ucast w)"] Suc Suc.prems
      unfolding a by (simp del: fun_upd_apply)
  qed
qed

lemma rd_bytes_bit:
  assumes "n \<le> 8"
  shows "bit (rd_bytes n m a) k \<longleftrightarrow> k < 8 * n \<and> bit (m (a + of_nat (k div 8))) (k mod 8)"
  using assms
proof (induction n arbitrary: a k)
  case 0
  then show ?case by simp
next
  case (Suc n)
  show ?case
  proof (cases "k < 8")
    case True
    then show ?thesis by (auto simp: bit_simps)
  next
    case False
    then have "bit (rd_bytes (Suc n) m a) k \<longleftrightarrow> bit (rd_bytes n m (a + 1)) (k - 8) \<and> k < 64"
      using bit_imp_le_length [of "m a" k] bit_imp_le_length [of "rd_bytes (Suc n) m a" k]
      by (auto simp: bit_simps)
    also have "\<dots> \<longleftrightarrow> k - 8 < 8 * n \<and> bit (m (a + 1 + of_nat ((k - 8) div 8))) ((k - 8) mod 8)"
      using Suc.IH [of "a + 1" "k - 8"] Suc.prems False by auto
    also have "a + 1 + of_nat ((k - 8) div 8) = a + of_nat (k div 8)"
    proof -
      have "k div 8 = Suc ((k - 8) div 8)" using False le_div_geq [of 8 k] by simp
      then show ?thesis by (simp add: add.assoc)
    qed
    also have "(k - 8) mod 8 = k mod 8" using False by (simp add: le_mod_geq)
    finally show ?thesis using False by (auto simp: less_diff_conv)
  qed
qed

text \<open>A 64-bit write reads back, and leaves all other bytes alone.\<close>

lemma rd64_wr64: "rd64 (wr64 a w m) a = w"
proof (rule bit_word_eqI)
  fix k assume "k < LENGTH(64)"
  then have k: "k < 64" by simp
  then have "wr_bytes 8 a w m (a + of_nat (k div 8)) = ucast (drop_bit (8 * (k div 8)) w)"
    by (intro wr_bytes_at) simp_all
  then show "bit (rd64 (wr64 a w m) a) k = bit w k"
    using k rd_bytes_bit [of 8 "wr_bytes 8 a w m" a k] by (simp add: rd64_def wr64_def bit_simps)
qed

lemma wr64_other: "(\<And>i. i < 8 \<Longrightarrow> b \<noteq> a + of_nat i) \<Longrightarrow> wr64 a w m b = m b"
  unfolding wr64_def by (rule wr_bytes_other)

subsection \<open>Copying and clearing\<close>

text \<open>\<open>memcpy\<close> and \<open>memclr\<close> of \<open>load.c\<close>: \<open>n\<close> bytes are left, the next one has index \<open>i\<close>.\<close>

fun memcpy_from :: "nat \<Rightarrow> nat \<Rightarrow> u64 \<Rightarrow> u64 \<Rightarrow> bytes \<Rightarrow> bytes" where
  "memcpy_from 0 i d s m = m"
| "memcpy_from (Suc n) i d s m = memcpy_from n (Suc i) d s (m(d + of_nat i := m (s + of_nat i)))"

definition memcpy :: "u64 \<Rightarrow> u64 \<Rightarrow> u64 \<Rightarrow> bytes \<Rightarrow> bytes" where
  "memcpy d s sz m = memcpy_from (unat sz) 0 d s m"

fun memclr_from :: "nat \<Rightarrow> nat \<Rightarrow> u64 \<Rightarrow> bytes \<Rightarrow> bytes" where
  "memclr_from 0 i d m = m"
| "memclr_from (Suc n) i d m = memclr_from n (Suc i) d (m(d + of_nat i := 0))"

definition memclr :: "u64 \<Rightarrow> u64 \<Rightarrow> bytes \<Rightarrow> bytes" where
  "memclr d sz m = memclr_from (unat sz) 0 d m"

text \<open>The addresses of a range of \<open>n\<close> bytes.\<close>

definition range_of :: "u64 \<Rightarrow> nat \<Rightarrow> u64 set" where
  "range_of a n = {a + of_nat i |i. i < n}"

lemma range_ofI: "i < n \<Longrightarrow> a + of_nat i \<in> range_of a n"
  by (auto simp: range_of_def)

lemma memcpy_from_spec:
  assumes "i + n < 2 ^ 64" "range_of d (i + n) \<inter> range_of s (i + n) = {}"
  shows "(\<forall>j. i \<le> j \<longrightarrow> j < i + n \<longrightarrow> memcpy_from n i d s m (d + of_nat j) = m (s + of_nat j)) \<and>
    (\<forall>b. (\<forall>j. i \<le> j \<longrightarrow> j < i + n \<longrightarrow> b \<noteq> d + of_nat j) \<longrightarrow> memcpy_from n i d s m b = m b)"
  using assms
proof (induction n arbitrary: i m)
  case 0
  then show ?case by simp
next
  case (Suc n)
  let ?m = "m(d + of_nat i := m (s + of_nat i))"
  have ih: "(\<forall>j. Suc i \<le> j \<longrightarrow> j < Suc i + n \<longrightarrow> memcpy_from n (Suc i) d s ?m (d + of_nat j) = ?m (s + of_nat j)) \<and>
    (\<forall>b. (\<forall>j. Suc i \<le> j \<longrightarrow> j < Suc i + n \<longrightarrow> b \<noteq> d + of_nat j) \<longrightarrow> memcpy_from n (Suc i) d s ?m b = ?m b)"
    by (rule Suc.IH) (use Suc.prems in \<open>simp_all\<close>)
  have src: "s + of_nat j \<noteq> d + of_nat i" if "j < i + Suc n" for j
    using Suc.prems(2) range_ofI [of j "i + Suc n" s] range_ofI [of i "i + Suc n" d] that by auto
  have first: "d + of_nat i \<noteq> d + of_nat j" if "Suc i \<le> j" "j < Suc i + n" for j
    using offset_eq [of i j d] Suc.prems(1) that by simp
  show ?case
  proof (rule conjI; intro allI impI)
    fix j assume j: "i \<le> j" "j < i + Suc n"
    show "memcpy_from (Suc n) i d s m (d + of_nat j) = m (s + of_nat j)"
    proof (cases "j = i")
      case True
      then show ?thesis using ih first by simp
    next
      case False
      then show ?thesis using ih j src [of j] by simp
    qed
  next
    fix b assume "\<forall>j. i \<le> j \<longrightarrow> j < i + Suc n \<longrightarrow> b \<noteq> d + of_nat j"
    then show "memcpy_from (Suc n) i d s m b = m b" using ih by simp
  qed
qed

lemma memcpy_spec:
  assumes "range_of d (unat sz) \<inter> range_of s (unat sz) = {}"
  shows "i < unat sz \<Longrightarrow> memcpy d s sz m (d + of_nat i) = m (s + of_nat i)"
    and "b \<notin> range_of d (unat sz) \<Longrightarrow> memcpy d s sz m b = m b"
  using memcpy_from_spec [of 0 "unat sz" d s m] assms unsigned_less [of sz]
  by (auto simp: memcpy_def range_of_def)

lemma memclr_from_spec:
  assumes "i + n < 2 ^ 64"
  shows "(\<forall>j. i \<le> j \<longrightarrow> j < i + n \<longrightarrow> memclr_from n i d m (d + of_nat j) = 0) \<and>
    (\<forall>b. (\<forall>j. i \<le> j \<longrightarrow> j < i + n \<longrightarrow> b \<noteq> d + of_nat j) \<longrightarrow> memclr_from n i d m b = m b)"
  using assms
proof (induction n arbitrary: i m)
  case 0
  then show ?case by simp
next
  case (Suc n)
  have ih: "(\<forall>j. Suc i \<le> j \<longrightarrow> j < Suc i + n \<longrightarrow> memclr_from n (Suc i) d (m(d + of_nat i := 0)) (d + of_nat j) = 0) \<and>
    (\<forall>b. (\<forall>j. Suc i \<le> j \<longrightarrow> j < Suc i + n \<longrightarrow> b \<noteq> d + of_nat j) \<longrightarrow>
       memclr_from n (Suc i) d (m(d + of_nat i := 0)) b = (m(d + of_nat i := 0)) b)"
    by (rule Suc.IH) (use Suc.prems in simp)
  have first: "d + of_nat i \<noteq> d + of_nat j" if "Suc i \<le> j" "j < Suc i + n" for j
    using offset_eq [of i j d] Suc.prems(1) that by simp
  show ?case
  proof (rule conjI; intro allI impI)
    fix j assume j: "i \<le> j" "j < i + Suc n"
    show "memclr_from (Suc n) i d m (d + of_nat j) = 0"
    proof (cases "j = i")
      case True
      then show ?thesis using ih first by simp
    next
      case False
      then show ?thesis using ih j by simp
    qed
  next
    fix b assume "\<forall>j. i \<le> j \<longrightarrow> j < i + Suc n \<longrightarrow> b \<noteq> d + of_nat j"
    then show "memclr_from (Suc n) i d m b = m b" using ih by simp
  qed
qed

lemma memclr_spec:
  shows "i < unat sz \<Longrightarrow> memclr d sz m (d + of_nat i) = 0"
    and "b \<notin> range_of d (unat sz) \<Longrightarrow> memclr d sz m b = m b"
  using memclr_from_spec [of 0 "unat sz" d m] unsigned_less [of sz]
  by (auto simp: memclr_def range_of_def)

subsection \<open>Strings\<close>

definition byte_of :: "char \<Rightarrow> u8" where "byte_of c = of_nat (of_char c)"

text \<open>\<open>strcmp\<close> of a string in memory with a constant.\<close>

fun strcmp_at :: "bytes \<Rightarrow> u64 \<Rightarrow> string \<Rightarrow> nat" where
  "strcmp_at m p [] = 0"
| "strcmp_at m p (c # cs) =
     (if m p = 0 then 0 else if m p \<noteq> byte_of c then 1 else strcmp_at m (p + 1) cs)"

fun string_at :: "bytes \<Rightarrow> u64 \<Rightarrow> string \<Rightarrow> bool" where
  "string_at m p [] \<longleftrightarrow> m p = 0"
| "string_at m p (c # cs) \<longleftrightarrow> c \<noteq> NUL \<and> m p = byte_of c \<and> string_at m (p + 1) cs"

lemma unat_byte_of: "unat (byte_of c) = of_char c"
proof -
  have "take_bit 8 (of_char c :: nat) = of_char c" by (rule take_bit_nat_eq_self) simp
  then show ?thesis unfolding byte_of_def unsigned_of_nat by simp
qed

lemma byte_of_eq [simp]: "byte_of c = byte_of d \<longleftrightarrow> c = d"
  by (metis unat_byte_of of_char_eq_iff)

lemma byte_of_0 [simp]: "byte_of c = 0 \<longleftrightarrow> c = NUL"
  using byte_of_eq [of c NUL] by (simp add: byte_of_def del: byte_of_eq)

lemma strcmp_at_string: "string_at m p s \<Longrightarrow> strcmp_at m p t = strcmp s t"
proof (induction t arbitrary: p s)
  case Nil
  then show ?case by (cases s) simp_all
next
  case (Cons c t)
  then show ?case by (cases s) simp_all
qed

end
