(* ===== verification/Loader.thy ===== *)
theory Loader
  imports Bytes Paging Tcb
begin

text \<open>
  Loading the kernel image (\<open>load.c\<close>): the ELF structures as they lie in memory, the
  segments, the relocations and the resolution of API symbols (\<open>api_resolve.c\<close>). Page tables
  and pages are those of the kernel record; the contents of virtual memory, through which
  the loader reads the image and writes the loaded kernel, are bytes.
\<close>

subsection \<open>Structures\<close>

record elf64_ehdr =
  e_ident :: "u8 list"
  e_type :: u16
  e_machine :: u16
  e_version :: u32
  e_entry :: u64
  e_phoff :: u64
  e_shoff :: u64
  e_flags :: u32
  e_ehsize :: u16
  e_phentsize :: u16
  e_phnum :: u16
  e_shentsize :: u16
  e_shnum :: u16
  e_shstrndx :: u16

definition read_ehdr :: "bytes \<Rightarrow> u64 \<Rightarrow> elf64_ehdr" where
  "read_ehdr m a = \<lparr>e_ident = map (\<lambda>i. m (a + of_nat i)) [0..<16], e_type = rd16 m (a + 16), e_machine = rd16 m (a + 18),
     e_version = rd32 m (a + 20), e_entry = rd64 m (a + 24), e_phoff = rd64 m (a + 32),
     e_shoff = rd64 m (a + 40), e_flags = rd32 m (a + 48), e_ehsize = rd16 m (a + 52),
     e_phentsize = rd16 m (a + 54), e_phnum = rd16 m (a + 56), e_shentsize = rd16 m (a + 58),
     e_shnum = rd16 m (a + 60), e_shstrndx = rd16 m (a + 62)\<rparr>"

record elf64_phdr =
  p_type :: u32
  p_flags :: u32
  p_offset :: u64
  p_vaddr :: u64
  p_paddr :: u64
  p_filesz :: u64
  p_memsz :: u64
  p_align :: u64

definition read_phdr :: "bytes \<Rightarrow> u64 \<Rightarrow> elf64_phdr" where
  "read_phdr m a = \<lparr>p_type = rd32 m a, p_flags = rd32 m (a + 4), p_offset = rd64 m (a + 8),
     p_vaddr = rd64 m (a + 16), p_paddr = rd64 m (a + 24), p_filesz = rd64 m (a + 32),
     p_memsz = rd64 m (a + 40), p_align = rd64 m (a + 48)\<rparr>"

definition PT_LOAD :: u32 where "PT_LOAD = 1"
definition PT_DYNAMIC :: u32 where "PT_DYNAMIC = 2"

record elf64_dyn =
  d_tag :: u64
  d_val :: u64

definition read_dyn :: "bytes \<Rightarrow> u64 \<Rightarrow> elf64_dyn" where
  "read_dyn m a = \<lparr>d_tag = rd64 m a, d_val = rd64 m (a + 8)\<rparr>"

record elf64_sym =
  st_name :: u32
  st_info :: u8
  st_other :: u8
  st_shndx :: u16
  st_value :: u64
  st_size :: u64

definition read_sym :: "bytes \<Rightarrow> u64 \<Rightarrow> elf64_sym" where
  "read_sym m a = \<lparr>st_name = rd32 m a, st_info = m (a + 4), st_other = m (a + 5),
     st_shndx = rd16 m (a + 6), st_value = rd64 m (a + 8), st_size = rd64 m (a + 16)\<rparr>"

record elf64_rela =
  r_offset :: u64
  r_type :: u32
  r_sym :: u32
  r_addend :: u64

definition read_rela :: "bytes \<Rightarrow> u64 \<Rightarrow> elf64_rela" where
  "read_rela m a = \<lparr>r_offset = rd64 m a, r_type = rd32 m (a + 8), r_sym = rd32 m (a + 12),
     r_addend = rd64 m (a + 16)\<rparr>"

definition R_X86_64_JUMP_SLOT :: u32 where "R_X86_64_JUMP_SLOT = 7"
definition R_X86_64_RELATIVE :: u32 where "R_X86_64_RELATIVE = 8"

text \<open>What the dynamic section says; pointers are addresses.\<close>

record dynamic =
  dyn_str :: u64
  dyn_sym :: u64
  dyn_syment :: u64
  dyn_apirev :: u8
  dyn_rel :: u64
  dyn_jmprel :: u64
  dyn_relsz :: u64
  dyn_jmprelsz :: u64
  dyn_relent :: u64
  dyn_pltgot :: u64

subsection \<open>API symbols\<close>

definition api_symbols :: "string list" where
  "api_symbols = [''thread_yield'', ''thread_create'', ''thread_pause'', ''thread_resume'',
     ''thread_pull_state'', ''thread_push_state'', ''thread_exit'', ''thread_reap'',
     ''interrupt_set_tap'', ''interrupt_get_tap'', ''interrupt_reset'', ''interrupt_wait'',
     ''fault_get_pagefault'', ''fault_get_miscfault'', ''fault_get_zombie'',
     ''page_set'', ''page_get'', ''memory_map_read'']"

text \<open>
  The chain of comparisons. \<open>entry\<close> gives the addresses of the entry points, which are
  linker symbols.
\<close>

fun apicatch :: "(string \<Rightarrow> u64) \<Rightarrow> bytes \<Rightarrow> u64 \<Rightarrow> u64 \<Rightarrow> string list \<Rightarrow> u64" where
  "apicatch entry m symbol addr [] = 0"
| "apicatch entry m symbol addr (n # ns) =
     (if strcmp_at m symbol (''__PINION_'' @ n) = 0 then addr + entry n
      else apicatch entry m symbol addr ns)"

record loader =
  lkern :: kernel
  lmem :: bytes
  pinion_load_addr :: u64  \<comment> \<open>static variable of \<open>api_resolve\<close>\<close>

definition api_resolve :: "(string \<Rightarrow> u64) \<Rightarrow> u64 \<Rightarrow> loader \<Rightarrow> u64 \<times> loader" where
  "api_resolve entry symbol l =
     (let l = (if pinion_load_addr l = 0
               then l\<lparr>pinion_load_addr := pmm_get_pinion_load_addr (lkern l)\<rparr> else l)
      in (apicatch entry (lmem l) symbol (pinion_load_addr l) api_symbols, l))"

subsection \<open>Relocations\<close>

text \<open>Each relocation is carried out on the spot; one of an unknown type is skipped.\<close>

definition relocate :: "(string \<Rightarrow> u64) \<Rightarrow> u64 \<Rightarrow> dynamic \<Rightarrow> u64 \<Rightarrow> loader \<Rightarrow> loader option" where
  "relocate entry kernel_base d r l =
     (let rel = read_rela (lmem l) r; sym = dyn_sym d + dyn_syment d * ucast (r_sym rel) in
      if r_type rel = R_X86_64_JUMP_SLOT then do {
        _ \<leftarrow> deref sym;
        let name = dyn_str d + ucast (st_name (read_sym (lmem l) sym));
        _ \<leftarrow> deref name;
        let (a, l) = api_resolve entry name l;
        let p = kernel_base + r_offset rel;
        _ \<leftarrow> deref p;
        Some (l\<lparr>lmem := wr64 p (a + r_addend rel) (lmem l)\<rparr>)
      }
      else if r_type rel = R_X86_64_RELATIVE then do {
        let p = kernel_base + r_offset rel;
        _ \<leftarrow> deref p;
        Some (l\<lparr>lmem := wr64 p (kernel_base + r_addend rel) (lmem l)\<rparr>)
      }
      else Some l)"

definition dyn_init :: dynamic where
  "dyn_init = \<lparr>dyn_str = 0, dyn_sym = 0, dyn_syment = 0, dyn_apirev = 0, dyn_rel = 0, dyn_jmprel = 0,
     dyn_relsz = 0, dyn_jmprelsz = 0, dyn_relent = 24, dyn_pltgot = 0\<rparr>"

text \<open>One entry of the dynamic section; \<open>n\<close> is the offset of the needed library's name.\<close>

definition dyn_entry :: "u64 \<Rightarrow> elf64_dyn \<Rightarrow> dynamic \<times> u64 \<Rightarrow> dynamic \<times> u64" where
  "dyn_entry kernel_base e x =
     (let (d, n) = x; v = d_val e; t = d_tag e in
      if t = 5 then (d\<lparr>dyn_str := kernel_base + v\<rparr>, n)
      else if t = 7 then (d\<lparr>dyn_rel := kernel_base + v\<rparr>, n)
      else if t = 8 then (d\<lparr>dyn_relsz := v\<rparr>, n)
      else if t = 9 then (d\<lparr>dyn_relent := v\<rparr>, n)
      else if t = 2 then (d\<lparr>dyn_jmprelsz := v\<rparr>, n)
      else if t = 23 then (d\<lparr>dyn_jmprel := kernel_base + v\<rparr>, n)
      else if t = 1 then (d, v)
      else if t = 6 then (d\<lparr>dyn_sym := kernel_base + v\<rparr>, n)
      else if t = 11 then (d\<lparr>dyn_syment := v\<rparr>, n)
      else if t = 3 then (d\<lparr>dyn_pltgot := kernel_base + v\<rparr>, n)
      else (d, n))"

text \<open>The section ends at a null tag; without one the loop runs on.\<close>

partial_function (option) dyn_collect ::
  "u64 \<Rightarrow> bytes \<Rightarrow> u64 \<Rightarrow> dynamic \<times> u64 \<Rightarrow> (dynamic \<times> u64) option" where
  "dyn_collect kernel_base m p x =
     (let e = read_dyn m p in
      if d_tag e = 0 then Some x else dyn_collect kernel_base m (p + 16) (dyn_entry kernel_base e x))"

text \<open>The loop over the relocations; with an entry size of 0 it does not end.\<close>

partial_function (option) relocate_all ::
  "(string \<Rightarrow> u64) \<Rightarrow> u64 \<Rightarrow> dynamic \<Rightarrow> u64 \<Rightarrow> loader \<Rightarrow> loader option" where
  "relocate_all entry kernel_base d i l =
     (if i < dyn_jmprelsz d then do {
        l \<leftarrow> relocate entry kernel_base d (dyn_jmprel d + i) l;
        relocate_all entry kernel_base d (i + dyn_relent d) l
      } else Some l)"

text \<open>The revision: digits of the name of the needed library, read without a check.\<close>

definition api_revision :: "bytes \<Rightarrow> u64 \<Rightarrow> u8" where
  "api_revision m needed = push_bit 4 (m (needed + 13) - byte_of (CHR ''0'')) + m (needed + 15) - byte_of (CHR ''0'')"

definition fixup_kernel :: "(string \<Rightarrow> u64) \<Rightarrow> u64 \<Rightarrow> u64 \<Rightarrow> loader \<Rightarrow> loader option" where
  "fixup_kernel entry kernel_base dyn l = do {
     _ \<leftarrow> deref dyn;
     (d, needed_off) \<leftarrow> dyn_collect kernel_base (lmem l) dyn (dyn_init, 0);
     _ \<leftarrow> deref (dyn_str d);
     let needed = dyn_str d + needed_off;
     let d = d\<lparr>dyn_apirev := api_revision (lmem l) needed\<rparr>;
     if dyn_jmprel d \<noteq> 0 then do {
       _ \<leftarrow> (if dyn_relent d = 0 then None else Some ());
       relocate_all entry kernel_base d 0 l
     } else Some l
   }"

subsection \<open>Segments\<close>

definition page_flags_rwg :: u64 where "page_flags_rwg = PF_PRES OR PF_WRITE OR PF_GLOBL"

text \<open>A fresh page behind one virtual page; what \<open>pcx_set_frame\<close> returns is ignored.\<close>

definition load_page :: "u64 \<Rightarrow> kernel \<Rightarrow> kernel option" where
  "load_page vaddr k = do {
     (page, k) \<leftarrow> pge_alloc k;
     (frame, k) \<leftarrow> pcx_get_trans 0 page k;
     (err, k) \<leftarrow> pcx_set_frame 0 vaddr 0x1000 frame page_flags_rwg k;
     Some k
   }"

partial_function (option) load_pages :: "u64 \<Rightarrow> u64 \<Rightarrow> u64 \<Rightarrow> kernel \<Rightarrow> kernel option" where
  "load_pages vaddr offset memsz k =
     (if offset < memsz then do {
        k \<leftarrow> load_page (vaddr + offset) k;
        load_pages vaddr (offset + 0x1000) memsz k
      } else Some k)"

definition load_segment :: "u64 \<Rightarrow> u64 \<Rightarrow> u64 \<Rightarrow> loader \<Rightarrow> loader option" where
  "load_segment kernel_base img h l =
     (let ph = read_phdr (lmem l) h in
      if p_type ph = PT_LOAD \<or> p_type ph = PT_DYNAMIC then do {
        k \<leftarrow> load_pages (kernel_base + p_vaddr ph) 0 (p_memsz ph) (lkern l);
        let m = memcpy (kernel_base + p_vaddr ph) (img + p_offset ph) (p_filesz ph) (lmem l);
        let ph = read_phdr m h;
        let m = memclr (kernel_base + p_vaddr ph + p_filesz ph) (p_memsz ph - p_filesz ph) m;
        Some (l\<lparr>lkern := k, lmem := m\<rparr>)
      } else Some l)"

text \<open>The loop over the program headers; \<open>dyn\<close> is the dynamic section seen so far.\<close>

function load_segments :: "u64 \<Rightarrow> u64 \<Rightarrow> nat \<Rightarrow> u64 \<Rightarrow> loader \<Rightarrow> (u64 \<times> loader) option" where
  "load_segments kernel_base img i dyn l =
     (let eh = read_ehdr (lmem l) img in
      if i < unat (e_phnum eh) then do {
        let h = img + e_phoff eh + of_nat i * ucast (e_phentsize eh);
        l \<leftarrow> load_segment kernel_base img h l;
        let ph = read_phdr (lmem l) h;
        load_segments kernel_base img (Suc i)
          (if p_type ph = PT_DYNAMIC then img + p_offset ph else dyn) l
      } else Some (dyn, l))"
  by pat_completeness auto
termination
proof (relation "measure (\<lambda>(b, img, i, d, l). 65536 - i)")
  fix i img and l :: loader
  have "unat (e_phnum (read_ehdr (lmem l) img)) < 65536"
    using unsigned_less [of "e_phnum (read_ehdr (lmem l) img)"] by simp
  then show "i < unat (e_phnum x) \<Longrightarrow> x = read_ehdr (lmem l) img \<Longrightarrow>
     ((kernel_base, img, Suc i, dd, l'), (kernel_base, img, i, dyn, l))
       \<in> measure (\<lambda>(b, img, i, d, l). 65536 - i)" for x kernel_base dd l' dyn
    by simp
qed auto

declare load_segments.simps [simp del]

subsection \<open>The kernel image\<close>

definition obj_count :: "bytes \<Rightarrow> u64 \<Rightarrow> u32" where "obj_count m objl = rd32 m objl"
definition obj_entry :: "u64 \<Rightarrow> nat \<Rightarrow> u64" where "obj_entry objl i = objl + 8 + 64 * of_nat i"
definition obj_base :: "bytes \<Rightarrow> u64 \<Rightarrow> u64" where "obj_base m e = rd64 m e"
definition obj_name :: "u64 \<Rightarrow> u64" where "obj_name e = e + 16"

text \<open>The first object of that name; the count when there is none.\<close>

function obj_find :: "bytes \<Rightarrow> u64 \<Rightarrow> string \<Rightarrow> nat \<Rightarrow> nat" where
  "obj_find m objl name i =
     (if i < unat (obj_count m objl)
      then if strcmp_at m (obj_name (obj_entry objl i)) name = 0 then i else obj_find m objl name (Suc i)
      else i)"
  by pat_completeness auto
termination
  by (relation "measure (\<lambda>(m, objl, name, i). unat (obj_count m objl) - i)") auto

declare obj_find.simps [simp del]

definition elf_magic :: "elf64_ehdr \<Rightarrow> bool" where
  "elf_magic eh \<longleftrightarrow> e_ident eh ! 0 = 0x7F \<and> e_ident eh ! 1 = byte_of (CHR ''E'') \<and>
     e_ident eh ! 2 = byte_of (CHR ''L'') \<and> e_ident eh ! 3 = byte_of (CHR ''F'')"

text \<open>The whole function; where the source spins after an error the result is \<open>None\<close>.\<close>

definition load_kernel :: "(string \<Rightarrow> u64) \<Rightarrow> config \<Rightarrow> u64 \<Rightarrow> loader \<Rightarrow> loader option" where
  "load_kernel entry cfg objl l = do {
     v \<leftarrow> config_read ''loader'' ''image'' cfg;
     name_pos \<leftarrow> v;
     kernel_name \<leftarrow> cstring (pconf cfg) name_pos;
     let img = obj_base (lmem l) (obj_entry objl (obj_find (lmem l) objl kernel_name 0));
     _ \<leftarrow> deref img;
     if \<not> elf_magic (read_ehdr (lmem l) img) then None
     else do {
       kernel_base \<leftarrow> config_read_as_ptr ''loader'' ''base'' 0xFFFFFFFF00000000 cfg;
       (dyn, l) \<leftarrow> load_segments kernel_base img 0 0 l;
       l \<leftarrow> fixup_kernel entry kernel_base dyn l;
       kernel_stack \<leftarrow> config_read_as_ptr ''loader'' ''stack'' 0xFFFFFFFF80000000 cfg;
       k \<leftarrow> load_page (kernel_stack - 0x1000) (lkern l);
       let tcb = active k;
       _ \<leftarrow> deref tcb;
       Some (l\<lparr>lkern := upd_tcb tcb (\<lambda>t. t\<lparr>tcb_rip := kernel_base + e_entry (read_ehdr (lmem l) img),
         tcb_rsp := kernel_stack\<rparr>) k\<rparr>)
     }
   }"

end
