(* ===== verification/Loader_Specs.thy ===== *)
theory Loader_Specs
  imports Loader Page_Calls Config_Specs
begin

text \<open>
  What the loader achieves: API names resolve to their entry points, a relocation stores the
  right word, and every segment of the image arrives at its address with the rest cleared.
\<close>

subsection \<open>Reading through a change of memory\<close>

lemma rd_bytes_cong: "(\<And>i. i < n \<Longrightarrow> m (a + of_nat i) = m' (a + of_nat i)) \<Longrightarrow> rd_bytes n m a = rd_bytes n m' a"
proof (induction n arbitrary: a)
  case 0
  then show ?case by simp
next
  case (Suc n)
  have "m a = m' a" using Suc.prems [of 0] by simp
  moreover have "m (a + 1 + of_nat i) = m' (a + 1 + of_nat i)" if "i < n" for i
    using Suc.prems [of "Suc i"] that by (simp add: add.assoc)
  ultimately show ?case using Suc.IH [of "a + 1"] by simp
qed

definition agree :: "u64 set \<Rightarrow> bytes \<Rightarrow> bytes \<Rightarrow> bool" where
  "agree A m m' \<longleftrightarrow> (\<forall>a \<in> A. m a = m' a)"

lemma agree_rd:
  assumes "agree A m m'" "range_of a n \<subseteq> A"
  shows "rd_bytes n m a = rd_bytes n m' a"
proof (rule rd_bytes_cong)
  fix i assume "i < n"
  then show "m (a + of_nat i) = m' (a + of_nat i)" using assms range_ofI [of i n a] by (auto simp: agree_def)
qed

lemma range_of_sub:
  assumes "k + n \<le> N"
  shows "range_of (a + of_nat k) n \<subseteq> range_of a N"
proof
  fix x assume "x \<in> range_of (a + of_nat k) n"
  then obtain i where "i < n" "x = a + of_nat k + of_nat i" by (auto simp: range_of_def)
  then have "x = a + of_nat (k + i)" "k + i < N" using assms by (simp_all add: add.assoc)
  then show "x \<in> range_of a N" using range_ofI [of "k + i" N a] by simp
qed

lemma agree_field:
  assumes "agree (range_of a N) m m'" "k + n \<le> N"
  shows "rd_bytes n m (a + of_nat k) = rd_bytes n m' (a + of_nat k)"
  using agree_rd [OF assms(1) range_of_sub [OF assms(2)]] .

lemma read_phdr_cong:
  assumes "agree (range_of a 56) m m'"
  shows "read_phdr m a = read_phdr m' a"
  using agree_field [OF assms, of 0 4] agree_field [OF assms, of 4 4] agree_field [OF assms, of 8 8]
    agree_field [OF assms, of 16 8] agree_field [OF assms, of 24 8] agree_field [OF assms, of 32 8]
    agree_field [OF assms, of 40 8] agree_field [OF assms, of 48 8]
  by (simp add: read_phdr_def rd32_def rd64_def)

lemma read_ehdr_cong:
  assumes "agree (range_of a 64) m m'"
  shows "read_ehdr m a = read_ehdr m' a"
proof -
  have "m (a + of_nat i) = m' (a + of_nat i)" if "i < 64" for i
    using assms range_ofI [OF that, of a] by (simp add: agree_def)
  then have "map (\<lambda>i. m (a + of_nat i)) [0..<16] = map (\<lambda>i. m' (a + of_nat i)) [0..<16]" by simp
  then show ?thesis
    using agree_field [OF assms, of 16 2] agree_field [OF assms, of 18 2] agree_field [OF assms, of 20 4]
      agree_field [OF assms, of 24 8] agree_field [OF assms, of 32 8] agree_field [OF assms, of 40 8]
      agree_field [OF assms, of 48 4] agree_field [OF assms, of 52 2] agree_field [OF assms, of 54 2]
      agree_field [OF assms, of 56 2] agree_field [OF assms, of 58 2] agree_field [OF assms, of 60 2]
      agree_field [OF assms, of 62 2]
    by (simp add: read_ehdr_def rd16_def rd32_def rd64_def del: upt_rec_numeral)
qed

lemma agree_mono: "agree B m m' \<Longrightarrow> A \<subseteq> B \<Longrightarrow> agree A m m'"
  by (auto simp: agree_def)

lemma in_range_of: "n \<le> 2 ^ 64 \<Longrightarrow> b \<in> range_of d n \<longleftrightarrow> unat (b - d) < n"
proof
  assume n: "n \<le> 2 ^ 64" "b \<in> range_of d n"
  then obtain i where i: "i < n" "b = d + of_nat i" by (auto simp: range_of_def)
  then have "i < 2 ^ 64" using n(1) by simp
  then have "unat (of_nat i :: u64) = i" by (simp add: unsigned_of_nat take_bit_nat_eq_self)
  then show "unat (b - d) < n" using i by simp
next
  assume "unat (b - d) < n"
  moreover have "b = d + of_nat (unat (b - d))" by simp
  ultimately show "b \<in> range_of d n" unfolding range_of_def by blast
qed

subsection \<open>One segment\<close>

definition loads :: "elf64_phdr \<Rightarrow> bool" where
  "loads ph \<longleftrightarrow> p_type ph = PT_LOAD \<or> p_type ph = PT_DYNAMIC"

definition seg_dest :: "u64 \<Rightarrow> elf64_phdr \<Rightarrow> u64 set" where
  "seg_dest base ph = range_of (base + p_vaddr ph) (unat (p_memsz ph))"

definition seg_source :: "u64 \<Rightarrow> elf64_phdr \<Rightarrow> u64 set" where
  "seg_source img ph = range_of (img + p_offset ph) (unat (p_filesz ph))"

text \<open>The byte a segment puts at an address: from the file, or 0 behind the file part.\<close>

definition seg_byte :: "bytes \<Rightarrow> u64 \<Rightarrow> u64 \<Rightarrow> elf64_phdr \<Rightarrow> u64 \<Rightarrow> u8" where
  "seg_byte m base img ph b =
     (let o' = b - (base + p_vaddr ph) in
      if o' < p_filesz ph then m (img + p_offset ph + o') else 0)"

lemma segment_bytes:
  assumes "load_segment base img h l = Some l'" "loads ph" "ph = read_phdr (lmem l) h"
    and "p_filesz ph \<le> p_memsz ph" "seg_dest base ph \<inter> seg_source img ph = {}"
    "seg_dest base ph \<inter> range_of h 56 = {}"
  shows "lmem l' b = (if b \<in> seg_dest base ph then seg_byte (lmem l) base img ph b else lmem l b)"
proof -
  let ?d = "base + p_vaddr ph" and ?f = "p_filesz ph" and ?z = "p_memsz ph"
  let ?m1 = "memcpy ?d (img + p_offset ph) ?f (lmem l)"
  have len: "unat ?f \<le> unat ?z" using assms(4) by (simp add: word_le_nat_alt)
  have sub: "range_of ?d (unat ?f) \<subseteq> seg_dest base ph" using len unfolding seg_dest_def by (auto simp: range_of_def)
  then have dis: "range_of ?d (unat ?f) \<inter> range_of (img + p_offset ph) (unat ?f) = {}"
    using assms(5) unfolding seg_source_def by blast
  have keep: "?m1 x = lmem l x" if "x \<notin> seg_dest base ph" for x
    using memcpy_spec(2) [OF dis] that sub by blast
  have "agree (range_of h 56) ?m1 (lmem l)" using keep assms(6) by (auto simp: agree_def)
  then have ph: "read_phdr ?m1 h = ph" using read_phdr_cong assms(3) by simp
  obtain k where "load_pages ?d 0 ?z (lkern l) = Some k"
    and "l' = l\<lparr>lkern := k, lmem := memclr (?d + ?f) (?z - ?f) ?m1\<rparr>"
    using assms(1,2) ph unfolding load_segment_def loads_def assms(3) [symmetric]
    by (auto simp: Let_def bind_eq_Some_conv)
  then have l': "lmem l' = memclr (?d + ?f) (?z - ?f) ?m1" by simp
  have bnd: "unat x < 2 ^ 64" for x :: u64 using unsigned_less [of x] by simp
  note bound = less_imp_le [OF bnd [of ?f]] less_imp_le [OF bnd [of ?z]] less_imp_le [OF bnd [of "?z - ?f"]]
  let ?o = "b - ?d"
  have zf: "unat (?z - ?f) = unat ?z - unat ?f" using assms(4) by (rule unat_sub)
  show ?thesis
  proof (cases "b \<in> seg_dest base ph")
    case True
    then have o: "unat ?o < unat ?z" using in_range_of [OF bound(2)] by (simp add: seg_dest_def)
    show ?thesis
    proof (cases "?o < ?f")
      case True
      then have lt: "unat ?o < unat ?f" by (simp add: word_less_nat_alt)
      have "b \<notin> range_of (?d + ?f) (unat (?z - ?f))"
      proof
        assume "b \<in> range_of (?d + ?f) (unat (?z - ?f))"
        then have "unat (b - (?d + ?f)) < unat ?z - unat ?f" using in_range_of [OF bound(3)] zf by simp
        moreover have "b - (?d + ?f) = ?o - ?f" by simp
        moreover have "unat (?o - ?f) = unat ?o + 2 ^ 64 - unat ?f"
          using lt by (simp add: unat_sub_if')
        ultimately show False using o len bnd [of ?z] by simp
      qed
      then have "lmem l' b = ?m1 b" unfolding l' by (rule memclr_spec(2))
      also have "\<dots> = lmem l (img + p_offset ph + ?o)"
        using memcpy_spec(1) [OF dis lt] by simp
      finally show ?thesis using \<open>b \<in> seg_dest base ph\<close> True by (simp add: seg_byte_def Let_def)
    next
      case False
      then have le: "?f \<le> ?o" by simp
      have "unat (?o - ?f) < unat (?z - ?f)"
        using o le zf by (simp add: unat_sub word_le_nat_alt)
      from memclr_spec(1) [OF this, of "?d + ?f" ?m1] have "lmem l' b = 0" unfolding l' by simp
      then show ?thesis using \<open>b \<in> seg_dest base ph\<close> False by (simp add: seg_byte_def Let_def)
    qed
  next
    case False
    then have o: "\<not> unat ?o < unat ?z" using in_range_of [OF bound(2)] by (simp add: seg_dest_def)
    have "b \<notin> range_of (?d + ?f) (unat (?z - ?f))"
    proof
      assume "b \<in> range_of (?d + ?f) (unat (?z - ?f))"
      then have "unat (b - (?d + ?f)) < unat ?z - unat ?f" using in_range_of [OF bound(3)] zf by simp
      moreover have "unat (x + ?f) \<le> unat x + unat ?f" for x
        by (simp only: unat_plus_if' split: if_splits) simp
      moreover have "b - (?d + ?f) + ?f = ?o" by (simp only: diff_diff_eq [symmetric] diff_add_cancel)
      ultimately have "unat ?o < unat ?z" using len by (metis le_less_trans less_diff_conv)
      then show False using o by simp
    qed
    then show ?thesis unfolding l' using False keep memclr_spec(2) by metis
  qed
qed

subsection \<open>Pages for a segment\<close>

text \<open>Table walks depend on the cells of tables only.\<close>

lemma walk_cells:
  assumes "pt_tree lv m" "\<And>q k. lv q \<noteq> 0 \<Longrightarrow> k < 512 \<Longrightarrow> m' (q + 8 * k) = m (q + 8 * k)" "lv q = i" "i \<noteq> 0"
  shows "trans_loop m' a i q = trans_loop m a i q \<and> flags_loop m' a i q = flags_loop m a i q"
  using assms(3,4)
proof (induction i arbitrary: q)
  case 0
  then show ?case by simp
next
  case (Suc i)
  have c: "m' (pte_addr (Suc i) a q) = m (pte_addr (Suc i) a q)"
    using assms(2) [of q] Suc.prems pt_index_less by (simp add: pte_addr_def)
  show ?case
  proof (cases "descends (m (pte_addr (Suc i) a q)) \<and> i \<noteq> 0")
    case True
    then have "lv (next_table (m (pte_addr (Suc i) a q))) = i"
      using pt_treeD(2) [OF assms(1), of q "pt_index (Suc i) a"] pt_index_less Suc.prems
      by (simp add: pte_addr_def)
    then show ?thesis using c Suc.IH True by (simp add: Let_def)
  next
    case False
    then show ?thesis using c by (auto simp: Let_def descends_def)
  qed
qed

definition translates :: "kernel \<Rightarrow> bool" where
  "translates s \<longleftrightarrow> (\<forall>a. fst (walk s a) \<noteq> None)"

lemma rooted_pge_alloc:
  assumes "rooted lv s" "0 < pages_left s"
  obtains t where "pge_alloc s = Some (brk s, t)" "rooted lv t" "pages_left t = pages_left s - 1"
    "walk t = walk s" "the_ccb t = the_ccb s" "tcbs t = tcbs s"
proof -
  from assms(1) have r: "pt_tree lv (mem s)" "pages_ok s" "\<And>p. lv p \<noteq> 0 \<Longrightarrow> unat p < unat (brk s)"
    "lv (pcx_root s) = 4" by (simp_all add: rooted_def tables_def)
  obtain t where t: "pge_alloc s = Some (brk s, t)" "pages_ok t" "unat (brk t) = unat (brk s) + 0x1000"
    "mem t = (mem s)(brk s := 0)" "pages_left t = pages_left s - 1" "pcx_root t = pcx_root s"
    using pge_alloc_table [OF r(2) assms(2)] by metis
  have same: "mem t (q + 8 * k) = mem s (q + 8 * k)" if "lv q \<noteq> 0" "k < 512" for q k
  proof -
    have al: "take_bit 12 q = 0" "take_bit 12 (brk s) = 0" using pt_treeD(1) [OF r(1) that(1)] brk_page [OF r(2)] by simp_all
    have "q \<noteq> brk s" using r(3) [OF that(1)] by auto
    then have "q + 8 * k \<noteq> brk s + 8 * 0" using cell_eq [OF al that(2), of 0] by simp
    then show ?thesis unfolding t(4) by simp
  qed
  have "pt_tree lv (mem t)" by (rule pt_treeI) (use same pt_treeD [OF r(1)] in \<open>simp_all\<close>)
  then have "rooted lv t" using t r by (simp add: rooted_def tables_def less_Suc_eq_le trans_less_add1)
  moreover have "walk t = walk s"
    using walk_cells [OF r(1) same r(4)] by (simp add: walk_def fun_eq_iff t(6))
  moreover have "the_ccb t = the_ccb s" "tcbs t = tcbs s"
    using t(1) pge_alloc_fresh [of s] r(2) pages_left_room [OF assms(2)] by (auto simp: pages_ok_def)
  ultimately show ?thesis using that [OF t(1) _ t(5)] by blast
qed

lemma rooted_unlock: "rooted lv s \<Longrightarrow> rooted lv (pcx_unlock s)"
  using tables_unlock by (simp add: rooted_def pcx_unlock_def)

definition core where "core s = (the_ccb s, tcbs s, pcx_root s)"

lemma core_pmm_alloc: "pmm_alloc s = Some (p, t) \<Longrightarrow> core t = core s"
  by (auto simp: core_def pmm_alloc_def Let_def bind_eq_Some_conv split: if_splits)

lemma core_pge:
  "core (set_list pge_allocator p s) = core s" "core (set_lock pge_allocator l s) = core s"
  "core (wr_link pge_allocator p w s) = core s"
  by (simp_all add: pge_allocator_def core_def)

lemma core_pge_alloc:
  assumes "pge_alloc s = Some (p, t)"
  shows "core t = core s"
proof -
  let ?A = pge_allocator
  have pop: "core (snd (allocator_pop ?A u)) = core u" for u
    by (simp add: allocator_pop_def allocator_release_def Let_def core_pge)
  obtain m where m: "mutex_acquire (get_lock ?A s) = Some m" using assms
    by (auto simp: pge_alloc_def allocator_alloc_def bind_eq_Some_conv)
  let ?s = "set_lock ?A m s"
  show ?thesis
  proof (cases "get_list ?A ?s = 0")
    case False
    then have "allocator_pop ?A ?s = (p, t)" using assms m by (simp add: pge_alloc_def allocator_alloc_def)
    then show ?thesis using pop [of ?s] by (simp add: core_pge)
  next
    case True
    then obtain page u where u: "pmm_alloc ?s = Some (page, u)" using assms m
      by (auto simp: pge_alloc_def allocator_alloc_def bind_eq_Some_conv)
    have c: "core u = core s" using core_pmm_alloc [OF u] by (simp add: core_pge)
    show ?thesis
    proof (cases "page = 0")
      case True
      then have "t = allocator_release ?A u"
        using assms m u \<open>get_list ?A ?s = 0\<close> by (simp add: pge_alloc_def allocator_alloc_def)
      then show ?thesis using c by (simp add: allocator_release_def core_pge)
    next
      case False
      then have "allocator_pop ?A (set_list ?A page (wr_link ?A page (get_list ?A u) u)) = (p, t)"
        using assms m u \<open>get_list ?A ?s = 0\<close> by (simp add: pge_alloc_def allocator_alloc_def)
      then show ?thesis using pop [of "set_list ?A page (wr_link ?A page (get_list ?A u) u)"] c
        by (simp add: core_pge)
    qed
  qed
qed

lemma core_set_frame_loop: "set_frame_loop addr i pt s = Some (r, t) \<Longrightarrow> core t = core s"
proof (induction addr i pt s rule: set_frame_loop.induct)
  case (1 addr i pt s)
  show ?case
  proof (cases "i \<le> 1")
    case True
    then show ?thesis using 1(2) by (subst (asm) set_frame_loop.simps) simp
  next
    case False
    let ?a = "pte_addr i addr pt"
    obtain u where u: "(if mem s ?a AND PF_PRES = 0 then do {
        (newpt, s) \<leftarrow> pge_alloc s;
        let s = s\<lparr>mem := (mem s)(?a := (newpt - page_base) OR PF_VALID OR PF_PRES OR PF_WRITE OR PF_USER)\<rparr>;
        _ \<leftarrow> deref newpt;
        Some (s\<lparr>mem := clear_page newpt (mem s)\<rparr>) } else Some s) = Some u"
      "(if mem u ?a AND PF_LARGE \<noteq> 0 then Some (None, pcx_unlock u)
        else set_frame_loop addr (i - 1) (next_table (mem u ?a)) u) = Some (r, t)"
      using 1(2) False by (subst (asm) set_frame_loop.simps) (auto simp: Let_def bind_eq_Some_conv)
    have "core u = core s" using u(1)
      by (auto simp: Let_def bind_eq_Some_conv core_def dest!: core_pge_alloc split: if_splits)
    moreover have "core t = core u"
    proof (cases "mem u ?a AND PF_LARGE = 0")
      case True
      then have "set_frame_loop addr (i - 1) (next_table (mem u ?a)) u = Some (r, t)" using u(2) by simp
      then show ?thesis using 1(1) [OF False refl] u(1) True by (simp add: Let_def)
    next
      case False
      then show ?thesis using u(2) by (auto simp: pcx_unlock_def core_def)
    qed
    ultimately show ?thesis by simp
  qed
qed

lemma core_set_frame: "pcx_set_frame pcx addr sz frame flags s = Some (e, t) \<Longrightarrow> core t = core s"
  by (auto simp: pcx_set_frame_def bind_eq_Some_conv core_def dest!: core_set_frame_loop
      split: if_splits option.splits)

lemma load_page_total:
  assumes "rooted lv k" "translates k" "4 \<le> pages_left k"
  obtains k' lv' where "load_page vaddr k = Some k'" "rooted lv' k'" "translates k'"
    "pages_left k - 4 \<le> pages_left k'" "core k' = core k"
proof -
  have one: "0 < pages_left k" using assms(3) by simp
  obtain t where t: "pge_alloc k = Some (brk k, t)" "rooted lv t" "pages_left t = pages_left k - 1"
    "walk t = walk k" by (rule rooted_pge_alloc [OF assms(1) one])
  have tt: "translates t" using assms(2) by (simp add: translates_def t(4))
  then obtain f where f: "pcx_get_trans 0 (brk k) t = Some (f, pcx_unlock t)"
    using spec [OF tt [unfolded translates_def], of "brk k"]
    by (auto simp: walk_def pcx_get_trans_def pcx_arg_def)
  let ?u = "pcx_unlock t"
  have w: "walk ?u = walk t" "pages_left ?u = pages_left t" "core ?u = core t"
    by (simp_all add: walk_def fun_eq_iff pcx_unlock_def pages_left_def core_def)
  have u: "rooted lv ?u" "translates ?u" "3 \<le> pages_left ?u"
    using rooted_unlock [OF t(2)] tt t(3) assms(3) by (simp_all add: translates_def w)
  show ?thesis
  proof (cases "take_bit 12 vaddr = 0")
    case True
    obtain e v lv' where v: "pcx_set_frame 0 vaddr 0x1000 f page_flags_rwg ?u = Some (e, v)" "rooted lv' v"
      "pages_left ?u - 3 \<le> pages_left v" "e = 0 \<Longrightarrow> region_mapped 1 vaddr f page_flags_rwg ?u v"
      "e \<noteq> 0 \<Longrightarrow> walk v = walk ?u" using set_frame_walk [OF u(1,3) True, where frame = f and flags = page_flags_rwg] by metis
    have "translates v"
    proof (cases "e = 0")
      case True
      then have m: "region_mapped 1 vaddr f page_flags_rwg ?u v" by (rule v(4))
      have "fst (walk v a) \<noteq> None" for a
        using m u(2) by (cases "same_page a vaddr") (simp_all add: region_mapped_def leaf_def translates_def)
      then show ?thesis by (simp add: translates_def)
    next
      case False
      then show ?thesis using v(5) u(2) by (simp add: translates_def)
    qed
    moreover have "load_page vaddr k = Some v" using t(1) f v(1) by (simp add: load_page_def)
    moreover have "pages_left k - 4 \<le> pages_left v" using v(3) w(2) t(3) by simp
    moreover have "core v = core k" using core_set_frame [OF v(1)] core_pge_alloc [OF t(1)] w(3) by simp
    ultimately show ?thesis using that v(2) by blast
  next
    case False
    then have "vaddr AND 0xFFF \<noteq> 0"
      using take_bit_eq_mask [of 12 vaddr] by (simp add: mask_eq_exp_minus_1)
    then have "load_page vaddr k = Some ?u" using t(1) f by (simp add: load_page_def pcx_set_frame_def)
    moreover have "core ?u = core k" using w(3) core_pge_alloc [OF t(1)] by simp
    moreover have "pages_left k - 4 \<le> pages_left ?u" using w(2) t(3) by simp
    ultimately show ?thesis using that u(1,2) by blast
  qed
qed

text \<open>The number of pages of a segment.\<close>

definition page_count :: "u64 \<Rightarrow> nat" where
  "page_count sz = (unat sz + 0xFFF) div 0x1000"

lemma load_pages_total:
  assumes "rooted lv k" "translates k" "4 * n \<le> pages_left k" "unat offset + n * 0x1000 < 2 ^ 64"
    and "unat memsz \<le> unat offset + n * 0x1000" "n = 0 \<or> unat offset + (n - 1) * 0x1000 < unat memsz"
  shows "\<exists>k' lv'. load_pages vaddr offset memsz k = Some k' \<and> rooted lv' k' \<and> translates k' \<and>
    pages_left k - 4 * n \<le> pages_left k' \<and> core k' = core k"
  using assms
proof (induction n arbitrary: lv k offset)
  case 0
  then have "\<not> offset < memsz" by (simp add: word_less_nat_alt)
  then have "load_pages vaddr offset memsz k = Some k" by (subst load_pages.simps) simp
  then show ?case using 0 by auto
next
  case (Suc n)
  then have lt: "offset < memsz" by (simp add: word_less_nat_alt)
  have four: "4 \<le> pages_left k" using Suc.prems(3) by simp
  obtain u lvu where u: "load_page (vaddr + offset) k = Some u" "rooted lvu u" "translates u"
    "pages_left k - 4 \<le> pages_left u" "core u = core k"
    by (rule load_page_total [OF Suc.prems(1,2) four])
  have off: "unat (offset + 0x1000) = unat offset + 0x1000"
    using Suc.prems(4) by (simp add: unat_word_ariths)
  have "\<exists>k' lv'. load_pages vaddr (offset + 0x1000) memsz u = Some k' \<and> rooted lv' k' \<and> translates k' \<and>
    pages_left u - 4 * n \<le> pages_left k' \<and> core k' = core u"
    by (rule Suc.IH [OF u(2,3)])
      (use Suc.prems(3-6) u(4) in \<open>auto simp: off algebra_simps gr0_conv_Suc\<close>)
  then obtain k' lv' where k': "load_pages vaddr (offset + 0x1000) memsz u = Some k'" "rooted lv' k'"
    "translates k'" "pages_left u - 4 * n \<le> pages_left k'" "core k' = core u" by blast
  have "load_pages vaddr offset memsz k = Some k'" using lt u(1) k'(1) by (subst load_pages.simps) simp
  then show ?case using k' u(4,5) by (intro exI [of _ k'] exI [of _ lv']) simp
qed

lemma load_pages_count:
  assumes "rooted lv k" "translates k" "4 * page_count memsz \<le> pages_left k" "unat memsz < 2 ^ 63"
  shows "\<exists>k' lv'. load_pages vaddr 0 memsz k = Some k' \<and> rooted lv' k' \<and> translates k' \<and>
    pages_left k - 4 * page_count memsz \<le> pages_left k' \<and> core k' = core k"
  by (rule load_pages_total [OF assms(1-3)]) (use assms(4) in \<open>auto simp: page_count_def\<close>)

subsection \<open>All segments\<close>

definition phnum :: "bytes \<Rightarrow> u64 \<Rightarrow> nat" where
  "phnum m img = unat (e_phnum (read_ehdr m img))"

definition hdr_at :: "bytes \<Rightarrow> u64 \<Rightarrow> nat \<Rightarrow> u64" where
  "hdr_at m img i = img + e_phoff (read_ehdr m img) + of_nat i * ucast (e_phentsize (read_ehdr m img))"

definition seg :: "bytes \<Rightarrow> u64 \<Rightarrow> nat \<Rightarrow> elf64_phdr" where
  "seg m img i = read_phdr m (hdr_at m img i)"

definition segs :: "bytes \<Rightarrow> u64 \<Rightarrow> nat \<Rightarrow> nat set" where
  "segs m img n = {i. i < n \<and> loads (seg m img i)}"

text \<open>What the loader reads of the image: the header, the program headers, the file parts.\<close>

definition image_part :: "bytes \<Rightarrow> u64 \<Rightarrow> u64 set" where
  "image_part m img = range_of img 64 \<union> (\<Union>i < phnum m img. range_of (hdr_at m img i) 56) \<union>
     (\<Union>i \<in> segs m img (phnum m img). seg_source img (seg m img i))"

text \<open>
  A loadable image: the file part of a segment fits, no segment is loaded over the image,
  and where two segments share an address they put the same byte there (the dynamic section
  usually lies inside a loaded segment).
\<close>

definition image_ok :: "u64 \<Rightarrow> u64 \<Rightarrow> bytes \<Rightarrow> bool" where
  "image_ok base img m \<longleftrightarrow> (\<forall>i \<in> segs m img (phnum m img).
     p_filesz (seg m img i) \<le> p_memsz (seg m img i) \<and> unat (p_memsz (seg m img i)) < 2 ^ 63 \<and>
     seg_dest base (seg m img i) \<inter> image_part m img = {} \<and>
     (\<forall>j \<in> segs m img (phnum m img). \<forall>b \<in> seg_dest base (seg m img i) \<inter> seg_dest base (seg m img j).
        seg_byte m base img (seg m img i) b = seg_byte m base img (seg m img j) b))"

definition pages_from :: "bytes \<Rightarrow> u64 \<Rightarrow> nat \<Rightarrow> nat" where
  "pages_from m img k =
     sum_list (map (\<lambda>i. if loads (seg m img i) then 4 * page_count (p_memsz (seg m img i)) else 0) [k..<phnum m img])"

text \<open>Memory with the first \<open>k\<close> segments in place.\<close>

definition loaded :: "u64 \<Rightarrow> u64 \<Rightarrow> bytes \<Rightarrow> nat \<Rightarrow> bytes \<Rightarrow> bool" where
  "loaded base img m k m' \<longleftrightarrow>
     (\<forall>i \<in> segs m img k. \<forall>b \<in> seg_dest base (seg m img i). m' b = seg_byte m base img (seg m img i) b) \<and>
     (\<forall>b. b \<notin> (\<Union>i \<in> segs m img k. seg_dest base (seg m img i)) \<longrightarrow> m' b = m b)"

definition last_dynamic :: "bytes \<Rightarrow> u64 \<Rightarrow> u64 \<Rightarrow> nat \<Rightarrow> u64" where
  "last_dynamic m img dyn k = foldl (\<lambda>d i. if p_type (seg m img i) = PT_DYNAMIC then img + p_offset (seg m img i) else d)
     dyn [k..<phnum m img]"

lemma segs_Suc: "segs m img (Suc k) = (if loads (seg m img k) then insert k (segs m img k) else segs m img k)"
  by (auto simp: segs_def less_Suc_eq)

lemma segs_mono: "k \<le> n \<Longrightarrow> segs m img k \<subseteq> segs m img n"
  by (auto simp: segs_def)

lemma loaded_image_part:
  assumes "image_ok base img m" "loaded base img m k m'" "k \<le> phnum m img"
  shows "agree (image_part m img) m' m"
  unfolding agree_def
proof
  fix a assume a: "a \<in> image_part m img"
  have "a \<notin> (\<Union>i \<in> segs m img k. seg_dest base (seg m img i))"
    using assms(1) a segs_mono [OF assms(3)] unfolding image_ok_def by blast
  then show "m' a = m a" using assms(2) by (simp add: loaded_def)
qed

lemma loaded_same:
  assumes "image_ok base img m" "loaded base img m k m'" "k \<le> phnum m img"
  shows "read_ehdr m' img = read_ehdr m img"
    and "i < phnum m img \<Longrightarrow> read_phdr m' (hdr_at m img i) = seg m img i"
    and "i \<in> segs m img (phnum m img) \<Longrightarrow> seg_byte m' base img (seg m img i) = seg_byte m base img (seg m img i)"
proof -
  note ag = loaded_image_part [OF assms]
  show "read_ehdr m' img = read_ehdr m img"
    by (rule read_ehdr_cong, rule agree_mono [OF ag]) (auto simp: image_part_def)
  show "read_phdr m' (hdr_at m img i) = seg m img i" if "i < phnum m img"
    unfolding seg_def by (rule read_phdr_cong, rule agree_mono [OF ag]) (use that in \<open>auto simp: image_part_def\<close>)
  show "seg_byte m' base img (seg m img i) = seg_byte m base img (seg m img i)"
    if "i \<in> segs m img (phnum m img)"
  proof
    fix b
    let ?ph = "seg m img i" and ?o = "b - (base + p_vaddr (seg m img i))"
    have "m' (img + p_offset ?ph + ?o) = m (img + p_offset ?ph + ?o)" if "?o < p_filesz ?ph"
    proof -
      have "img + p_offset ?ph + of_nat (unat ?o) \<in> seg_source img ?ph"
        unfolding seg_source_def by (rule range_ofI) (use that in \<open>simp add: word_less_nat_alt\<close>)
      then have "img + p_offset ?ph + ?o \<in> seg_source img ?ph" by simp
      then have "img + p_offset ?ph + ?o \<in> image_part m img"
        using \<open>i \<in> segs m img (phnum m img)\<close> unfolding image_part_def by blast
      then show ?thesis using ag by (simp add: agree_def)
    qed
    then show "seg_byte m' base img ?ph b = seg_byte m base img ?ph b" by (simp add: seg_byte_def Let_def)
  qed
qed

lemma loaded_step:
  assumes ok: "image_ok base img m" and l: "loaded base img m k (lmem l)" and k: "k < phnum m img"
    and run: "load_segment base img (hdr_at m img k) l = Some l'"
  shows "loaded base img m (Suc k) (lmem l')"
proof (cases "loads (seg m img k)")
  case False
  have "read_phdr (lmem l) (hdr_at m img k) = seg m img k" using loaded_same(2) [OF ok l] k by simp
  then have "l' = l" using run False by (auto simp: load_segment_def loads_def Let_def)
  then show ?thesis using l False by (simp add: loaded_def segs_Suc)
next
  case True
  let ?ph = "seg m img k"
  have ks: "k \<in> segs m img (phnum m img)" using True k by (simp add: segs_def)
  have kn: "k \<le> phnum m img" using k by simp
  note same = loaded_same [OF ok l kn]
  from ok ks have o: "p_filesz ?ph \<le> p_memsz ?ph" "seg_dest base ?ph \<inter> image_part m img = {}"
    "\<And>j b. j \<in> segs m img (phnum m img) \<Longrightarrow> b \<in> seg_dest base ?ph \<inter> seg_dest base (seg m img j) \<Longrightarrow>
      seg_byte m base img ?ph b = seg_byte m base img (seg m img j) b"
    unfolding image_ok_def by blast+
  have "seg_source img ?ph \<subseteq> image_part m img" using ks unfolding image_part_def by blast
  then have d1: "seg_dest base ?ph \<inter> seg_source img ?ph = {}" using o(2) by blast
  have "range_of (hdr_at m img k) 56 \<subseteq> image_part m img" using k unfolding image_part_def by blast
  then have d2: "seg_dest base ?ph \<inter> range_of (hdr_at m img k) 56 = {}" using o(2) by blast
  have b: "lmem l' b = (if b \<in> seg_dest base ?ph then seg_byte m base img ?ph b else lmem l b)" for b
    using segment_bytes [OF run True same(2) [OF k, symmetric] o(1) d1 d2, of b] same(3) [OF ks] by simp
  show ?thesis
    unfolding loaded_def segs_Suc using True
  proof (simp, intro conjI ballI allI impI)
    fix b assume "b \<in> seg_dest base ?ph"
    then show "lmem l' b = seg_byte m base img ?ph b" using b by simp
  next
    fix i b assume i: "i \<in> segs m img k" "b \<in> seg_dest base (seg m img i)"
    have ii: "i \<in> segs m img (phnum m img)" using i(1) segs_mono [OF kn] by blast
    show "lmem l' b = seg_byte m base img (seg m img i) b"
    proof (cases "b \<in> seg_dest base ?ph")
      case True
      then show ?thesis using b [of b] o(3) [OF ii] i(2) by simp
    next
      case False
      then show ?thesis using b [of b] l i by (simp add: loaded_def)
    qed
  next
    fix b assume "b \<notin> seg_dest base ?ph \<and> (\<forall>i \<in> segs m img k. b \<notin> seg_dest base (seg m img i))"
    then show "lmem l' b = m b" using b [of b] l by (simp add: loaded_def)
  qed
qed

lemma load_segment_total:
  assumes ph: "read_phdr (lmem l) h = ph" and r: "rooted lv (lkern l)" "translates (lkern l)"
    and room: "loads ph \<Longrightarrow> 4 * page_count (p_memsz ph) \<le> pages_left (lkern l) \<and> unat (p_memsz ph) < 2 ^ 63"
  obtains l' lv' where "load_segment base img h l = Some l'" "rooted lv' (lkern l')" "translates (lkern l')"
    "pages_left (lkern l) - (if loads ph then 4 * page_count (p_memsz ph) else 0) \<le> pages_left (lkern l')"
    "core (lkern l') = core (lkern l)" "pinion_load_addr l' = pinion_load_addr l"
proof (cases "loads ph")
  case False
  then have "load_segment base img h l = Some l" using ph by (auto simp: load_segment_def loads_def Let_def)
  then show ?thesis using that [of l lv] r by simp
next
  case True
  then obtain k' lv' where k: "load_pages (base + p_vaddr ph) 0 (p_memsz ph) (lkern l) = Some k'" "rooted lv' k'"
    "translates k'" "pages_left (lkern l) - 4 * page_count (p_memsz ph) \<le> pages_left k'" "core k' = core (lkern l)"
    using load_pages_count [OF r] room by metis
  have "\<exists>m. load_segment base img h l = Some (l\<lparr>lkern := k', lmem := m\<rparr>)"
    using True k(1) ph by (simp add: load_segment_def loads_def Let_def) (rule exI, rule refl)
  then show ?thesis using that k True by fastforce
qed

lemma load_segments_run:
  assumes ok: "image_ok base img m" and l: "loaded base img m k (lmem l)" and k: "k \<le> phnum m img"
    and r: "rooted lv (lkern l)" "translates (lkern l)" "pages_from m img k \<le> pages_left (lkern l)"
  shows "\<exists>l' lv'. load_segments base img k dyn l = Some (last_dynamic m img dyn k, l') \<and>
    loaded base img m (phnum m img) (lmem l') \<and> rooted lv' (lkern l') \<and> translates (lkern l') \<and>
    pages_left (lkern l) - pages_from m img k \<le> pages_left (lkern l') \<and>
    core (lkern l') = core (lkern l) \<and> pinion_load_addr l' = pinion_load_addr l"
  using l k r
proof (induction "phnum m img - k" arbitrary: k l lv dyn)
  case 0
  then have kn: "k = phnum m img" by simp
  then have "\<not> k < unat (e_phnum (read_ehdr (lmem l) img))"
    using loaded_same(1) [OF ok 0(2,3)] by (simp add: phnum_def)
  then have "load_segments base img k dyn l = Some (dyn, l)" by (subst load_segments.simps) (simp add: Let_def)
  then show ?case using 0 kn by (intro exI [of _ l] exI [of _ lv]) (simp add: last_dynamic_def)
next
  case (Suc d)
  note same = loaded_same [OF ok Suc.prems(1,2)]
  have lt: "k < phnum m img" using Suc.hyps(2) by simp
  let ?h = "hdr_at m img k" and ?ph = "seg m img k"
  let ?w = "if loads ?ph then 4 * page_count (p_memsz ?ph) else 0"
  have pf: "pages_from m img k = ?w + pages_from m img (Suc k)"
    using lt by (simp add: pages_from_def upt_conv_Cons)
  have ph: "read_phdr (lmem l) ?h = ?ph" by (rule same(2) [OF lt])
  have room: "4 * page_count (p_memsz ?ph) \<le> pages_left (lkern l) \<and> unat (p_memsz ?ph) < 2 ^ 63" if "loads ?ph"
    using ok lt that Suc.prems(5) pf by (auto simp: image_ok_def segs_def)
  obtain l1 lv1 where l1: "load_segment base img ?h l = Some l1" "rooted lv1 (lkern l1)" "translates (lkern l1)"
    "pages_left (lkern l) - ?w \<le> pages_left (lkern l1)" "core (lkern l1) = core (lkern l)"
    "pinion_load_addr l1 = pinion_load_addr l"
    by (rule load_segment_total [OF ph Suc.prems(3,4) room])
  have ld: "loaded base img m (Suc k) (lmem l1)" by (rule loaded_step [OF ok Suc.prems(1) lt l1(1)])
  have sk: "Suc k \<le> phnum m img" using lt by simp
  have ph1: "read_phdr (lmem l1) ?h = ?ph" by (rule loaded_same(2) [OF ok ld sk lt])
  have hd: "img + e_phoff (read_ehdr (lmem l) img) + of_nat k * ucast (e_phentsize (read_ehdr (lmem l) img)) = ?h"
    by (simp add: same(1) hdr_at_def)
  have n: "k < unat (e_phnum (read_ehdr (lmem l) img))" using lt by (simp add: same(1) phnum_def)
  let ?dyn = "if p_type ?ph = PT_DYNAMIC then img + p_offset ?ph else dyn"
  have step: "load_segments base img k dyn l = load_segments base img (Suc k) ?dyn l1"
    using n l1(1) ph1 by (subst load_segments.simps) (simp add: Let_def hd)
  have pl: "pages_from m img (Suc k) \<le> pages_left (lkern l1)" using Suc.prems(5) l1(4) pf by simp
  have dy: "last_dynamic m img ?dyn (Suc k) = last_dynamic m img dyn k"
    using lt by (simp add: last_dynamic_def upt_conv_Cons)
  have "d = phnum m img - Suc k" using Suc.hyps(2) by simp
  from Suc.hyps(1) [OF this ld sk l1(2,3) pl, of ?dyn] obtain l' lv' where
    "load_segments base img (Suc k) ?dyn l1 = Some (last_dynamic m img dyn k, l')"
    "loaded base img m (phnum m img) (lmem l')" "rooted lv' (lkern l')" "translates (lkern l')"
    "pages_left (lkern l1) - pages_from m img (Suc k) \<le> pages_left (lkern l')"
    "core (lkern l') = core (lkern l1)" "pinion_load_addr l' = pinion_load_addr l1" unfolding dy by blast
  then show ?case using step l1(4-6) pf by (intro exI [of _ l'] exI [of _ lv']) simp
qed

lemma loaded_0: "loaded base img m 0 m"
  by (simp add: loaded_def segs_def)

end
