(* ===== verification/Relocation_Specs.thy ===== *)
theory Relocation_Specs
  imports Loader_Specs
begin

text \<open>
  Relocations of the loaded image: API names resolve to their entry points, and the loop over
  the table stores every word the table asks for.
\<close>

subsection \<open>API names\<close>

abbreviation pinion_name :: "string \<Rightarrow> string" where
  "pinion_name n \<equiv> ''__PINION_'' @ n"

lemma strcmp_append: "strcmp (p @ a) (p @ b) = strcmp a b"
  by (induction p) simp_all

text \<open>No API name is the beginning of another, so the comparison of prefixes does no harm.\<close>

lemma api_symbols_apart_from: "n \<in> set api_symbols \<Longrightarrow> \<forall>k \<in> set api_symbols. strcmp n k = 0 \<longleftrightarrow> n = k"
  apply (subst (asm) api_symbols_def)
  apply (simp only: list.set insert_iff empty_iff simp_thms)
  apply (elim disjE; simp add: api_symbols_def)
  done

lemma api_symbols_apart:
  "n \<in> set api_symbols \<Longrightarrow> k \<in> set api_symbols \<Longrightarrow> strcmp n k = 0 \<longleftrightarrow> n = k"
  by (rule bspec [OF api_symbols_apart_from])

lemma apicatch_name:
  assumes "string_at m p (pinion_name n)" "n \<in> set api_symbols" "set ns \<subseteq> set api_symbols" "n \<in> set ns"
  shows "apicatch entry m p a ns = a + entry n"
  using assms(3,4)
proof (induction ns)
  case Nil
  then show ?case by simp
next
  case (Cons k ns)
  have "strcmp_at m p (pinion_name k) = 0 \<longleftrightarrow> n = k"
    using strcmp_at_string [OF assms(1), of "pinion_name k"] strcmp_append [of "''__PINION_''" n k]
      api_symbols_apart [OF assms(2)] Cons.prems(1) by simp
  then show ?case using Cons by auto
qed

lemma apicatch_unknown:
  assumes "string_at m p s" "\<forall>k \<in> set ns. \<not> prefix s (pinion_name k) \<and> \<not> prefix (pinion_name k) s"
  shows "apicatch entry m p a ns = 0"
  using assms(2)
proof (induction ns)
  case Nil
  then show ?case by simp
next
  case (Cons k ns)
  then have "strcmp s (pinion_name k) \<noteq> 0" unfolding strcmp_prefix by simp
  then show ?case using Cons strcmp_at_string [OF assms(1), of "pinion_name k"] by simp
qed

definition load_addr :: "loader \<Rightarrow> u64" where
  "load_addr l = (if pinion_load_addr l = 0 then pmm_get_pinion_load_addr (lkern l) else pinion_load_addr l)"

lemma api_resolve_simp:
  "api_resolve entry p l = (apicatch entry (lmem l) p (load_addr l) api_symbols, l\<lparr>pinion_load_addr := load_addr l\<rparr>)"
  by (simp add: api_resolve_def load_addr_def Let_def)

lemma api_resolve_name:
  assumes "string_at (lmem l) p (pinion_name n)" "n \<in> set api_symbols"
  shows "fst (api_resolve entry p l) = load_addr l + entry n"
  using apicatch_name [OF assms subset_refl assms(2)] by (simp add: api_resolve_simp)

lemma string_at_cong:
  assumes "agree A m m'" "string_at m p s" "range_of p (Suc (length s)) \<subseteq> A"
  shows "string_at m' p s"
  using assms(2,3)
proof (induction s arbitrary: p)
  case Nil
  then show ?case using range_ofI [of 0 1 p] assms(1) by (auto simp: agree_def)
next
  case (Cons c s)
  have "p \<in> A" using Cons.prems(2) range_ofI [of 0 "Suc (length (c # s))" p] by auto
  moreover have "range_of (p + 1) (Suc (length s)) \<subseteq> A"
    using range_of_sub [of 1 "Suc (length s)" "Suc (length (c # s))" p] Cons.prems(2) by simp
  ultimately show ?case using Cons assms(1) by (simp add: agree_def)
qed

subsection \<open>The table of relocations\<close>

definition rel_at :: "bytes \<Rightarrow> dynamic \<Rightarrow> nat \<Rightarrow> elf64_rela" where
  "rel_at m d i = read_rela m (dyn_jmprel d + 24 * of_nat i)"

definition rel_target :: "u64 \<Rightarrow> bytes \<Rightarrow> dynamic \<Rightarrow> nat \<Rightarrow> u64" where
  "rel_target base m d i = base + r_offset (rel_at m d i)"

definition rel_symbol :: "bytes \<Rightarrow> dynamic \<Rightarrow> nat \<Rightarrow> u64" where
  "rel_symbol m d i = dyn_sym d + dyn_syment d * ucast (r_sym (rel_at m d i))"

definition rel_name :: "bytes \<Rightarrow> dynamic \<Rightarrow> nat \<Rightarrow> u64" where
  "rel_name m d i = dyn_str d + ucast (st_name (read_sym m (rel_symbol m d i)))"

text \<open>
  Entry \<open>i\<close> asks for the word \<open>v\<close>: the base and the addend, or the entry point of an API
  name and the addend. \<open>P\<close> are the bytes that are read for it.
\<close>

definition rel_word :: "(string \<Rightarrow> u64) \<Rightarrow> u64 \<Rightarrow> u64 \<Rightarrow> bytes \<Rightarrow> dynamic \<Rightarrow> u64 set \<Rightarrow> nat \<Rightarrow> u64 \<Rightarrow> bool" where
  "rel_word entry a base m d P i v \<longleftrightarrow>
     (let r = rel_at m d i in
      range_of (dyn_jmprel d + 24 * of_nat i) 24 \<subseteq> P \<and>
      (r_type r = R_X86_64_RELATIVE \<and> v = base + r_addend r \<or>
       r_type r = R_X86_64_JUMP_SLOT \<and> rel_symbol m d i \<noteq> 0 \<and> rel_name m d i \<noteq> 0 \<and>
         range_of (rel_symbol m d i) 24 \<subseteq> P \<and>
         (\<exists>n \<in> set api_symbols. string_at m (rel_name m d i) (pinion_name n) \<and>
            range_of (rel_name m d i) (Suc (length (pinion_name n))) \<subseteq> P \<and>
            v = a + entry n + r_addend r)))"

lemma read_rela_cong: "agree (range_of a 24) m m' \<Longrightarrow> read_rela m a = read_rela m' a"
  using agree_field [of a 24 m m' 0 8] agree_field [of a 24 m m' 8 4] agree_field [of a 24 m m' 12 4]
    agree_field [of a 24 m m' 16 8]
  by (simp add: read_rela_def rd32_def rd64_def)

lemma read_sym_name_cong: "agree (range_of a 24) m m' \<Longrightarrow> st_name (read_sym m a) = st_name (read_sym m' a)"
  using agree_field [of a 24 m m' 0 4] by (simp add: read_sym_def rd32_def)

lemma relocate_word:
  assumes w: "rel_word entry (load_addr l) base m d P i v" and ag: "agree P m (lmem l)"
    and nz: "rel_target base m d i \<noteq> 0"
  shows "\<exists>a. relocate entry base d (dyn_jmprel d + 24 * of_nat i) l =
    Some (l\<lparr>pinion_load_addr := a, lmem := wr64 (rel_target base m d i) v (lmem l)\<rparr>) \<and>
    (a = load_addr l \<or> a = pinion_load_addr l)"
proof -
  let ?r = "rel_at m d i"
  have "range_of (dyn_jmprel d + 24 * of_nat i) 24 \<subseteq> P" using w by (simp add: rel_word_def Let_def)
  from read_rela_cong [OF agree_mono [OF ag this]]
  have r: "read_rela (lmem l) (dyn_jmprel d + 24 * of_nat i) = ?r" by (simp add: rel_at_def)
  consider (rel) "r_type ?r = R_X86_64_RELATIVE" "v = base + r_addend ?r"
    | (slot) n where "r_type ?r = R_X86_64_JUMP_SLOT" "rel_symbol m d i \<noteq> 0" "rel_name m d i \<noteq> 0"
      "range_of (rel_symbol m d i) 24 \<subseteq> P" "n \<in> set api_symbols" "string_at m (rel_name m d i) (pinion_name n)"
      "range_of (rel_name m d i) (Suc (length (pinion_name n))) \<subseteq> P" "v = load_addr l + entry n + r_addend ?r"
    using w unfolding rel_word_def Let_def by blast
  then show ?thesis
  proof cases
    case rel
    then have "relocate entry base d (dyn_jmprel d + 24 * of_nat i) l =
      Some (l\<lparr>lmem := wr64 (rel_target base m d i) v (lmem l)\<rparr>)"
      using nz by (simp add: relocate_def Let_def r rel_target_def R_X86_64_RELATIVE_def R_X86_64_JUMP_SLOT_def)
    then show ?thesis by (intro exI [of _ "pinion_load_addr l"]) simp
  next
    case slot
    have name: "dyn_str d + ucast (st_name (read_sym (lmem l) (rel_symbol m d i))) = rel_name m d i"
      using read_sym_name_cong [OF agree_mono [OF ag slot(4)]] by (simp add: rel_name_def)
    have "string_at (lmem l) (rel_name m d i) (pinion_name n)"
      by (rule string_at_cong [OF ag slot(6,7)])
    from api_resolve_name [OF this slot(5), of entry]
    have res: "api_resolve entry (rel_name m d i) l =
      (load_addr l + entry n, l\<lparr>pinion_load_addr := load_addr l\<rparr>)" by (simp add: api_resolve_simp)
    have "relocate entry base d (dyn_jmprel d + 24 * of_nat i) l =
      Some (l\<lparr>pinion_load_addr := load_addr l, lmem := wr64 (rel_target base m d i) v (lmem l)\<rparr>)"
      using slot(1,2,3,8) nz name res unfolding relocate_def Let_def r rel_symbol_def [of m d i, symmetric]
      by (simp add: rel_target_def)
    then show ?thesis by (intro exI [of _ "load_addr l"]) simp
  qed
qed

text \<open>A table of \<open>n\<close> entries whose targets are apart from each other and from what is read.\<close>

definition rel_table_ok :: "(string \<Rightarrow> u64) \<Rightarrow> u64 \<Rightarrow> u64 \<Rightarrow> bytes \<Rightarrow> dynamic \<Rightarrow> u64 set \<Rightarrow> nat \<Rightarrow> (nat \<Rightarrow> u64) \<Rightarrow> bool" where
  "rel_table_ok entry a base m d P n w \<longleftrightarrow>
     dyn_relent d = 24 \<and> dyn_jmprelsz d = 24 * of_nat n \<and> 24 * n + 24 < 2 ^ 64 \<and>
     (\<forall>i < n. rel_word entry a base m d P i (w i) \<and> rel_target base m d i \<noteq> 0 \<and>
        range_of (rel_target base m d i) 8 \<inter> P = {}) \<and>
     (\<forall>i < n. \<forall>j < n. i \<noteq> j \<longrightarrow> range_of (rel_target base m d i) 8 \<inter> range_of (rel_target base m d j) 8 = {})"

lemma rd64_agree: "agree (range_of a 8) m m' \<Longrightarrow> rd64 m a = rd64 m' a"
  using agree_field [of a 8 m m' 0 8] by (simp add: rd64_def)

lemma wr64_agree:
  assumes "A \<inter> range_of a 8 = {}"
  shows "agree A (wr64 a v m) m"
  unfolding agree_def
proof (intro ballI wr64_other)
  fix b i assume "b \<in> A" "i < (8 :: nat)"
  then show "b \<noteq> a + of_nat i" using assms range_ofI [of i 8 a] by auto
qed

lemma relocate_all_run:
  assumes ok: "rel_table_ok entry (load_addr l) base m d P n w" and k: "k \<le> n" and ag: "agree P m (lmem l)"
    and nz: "load_addr l \<noteq> 0"
  shows "\<exists>l'. relocate_all entry base d (24 * of_nat k) l = Some l' \<and> lkern l' = lkern l \<and>
    (\<forall>i. k \<le> i \<longrightarrow> i < n \<longrightarrow> rd64 (lmem l') (rel_target base m d i) = w i) \<and>
    (\<forall>b. (\<forall>i. k \<le> i \<longrightarrow> i < n \<longrightarrow> b \<notin> range_of (rel_target base m d i) 8) \<longrightarrow> lmem l' b = lmem l b)"
  using k ag ok nz
proof (induction "n - k" arbitrary: k l)
  case 0
  then have "relocate_all entry base d (24 * of_nat k) l = Some l"
    by (subst relocate_all.simps) (simp add: rel_table_ok_def)
  then show ?case using 0 by auto
next
  case (Suc c)
  note ok = Suc.prems(3) [unfolded rel_table_ok_def]
  let ?t = "rel_target base m d k"
  have k: "k < n" using Suc.hyps(2) by simp
  have small: "unat (24 * of_nat x :: u64) = 24 * x" if "x \<le> n" for x
  proof -
    have "24 * x < 2 ^ 64" using ok that by linarith
    then have "unat (of_nat (24 * x) :: u64) = 24 * x" unfolding unsigned_of_nat by (simp add: take_bit_nat_eq_self)
    then show ?thesis by simp
  qed
  have "(24 * of_nat k :: u64) < 24 * of_nat n" using small [of k] small [of n] k by (simp add: word_less_nat_alt)
  then have lt: "24 * of_nat k < dyn_jmprelsz d" using ok by simp
  from ok k have w: "rel_word entry (load_addr l) base m d P k (w k)" "?t \<noteq> 0" "range_of ?t 8 \<inter> P = {}" by blast+
  obtain a where r: "relocate entry base d (dyn_jmprel d + 24 * of_nat k) l =
      Some (l\<lparr>pinion_load_addr := a, lmem := wr64 ?t (w k) (lmem l)\<rparr>)"
    "a = load_addr l \<or> a = pinion_load_addr l" using relocate_word [OF w(1) Suc.prems(2) w(2)] by blast
  let ?l = "l\<lparr>pinion_load_addr := a, lmem := wr64 ?t (w k) (lmem l)\<rparr>"
  have la: "load_addr ?l = load_addr l" using r(2) Suc.prems(4) by (auto simp: load_addr_def)
  have off: "(24 * of_nat k :: u64) + 24 = 24 * of_nat (Suc k)" by simp
  have step: "relocate_all entry base d (24 * of_nat k) l = relocate_all entry base d (24 * of_nat (Suc k)) ?l"
    using lt r(1) ok off by (subst relocate_all.simps) (simp only: if_True bind.bind_lunit)
  have "agree P (wr64 ?t (w k) (lmem l)) (lmem l)" using w(3) by (intro wr64_agree) blast
  then have ag: "agree P m (lmem ?l)" using Suc.prems(2) by (simp add: agree_def)
  have "c = n - Suc k" "Suc k \<le> n" using Suc.hyps(2) by simp_all
  from Suc.hyps(1) [OF this(1,2) ag] Suc.prems(3,4) obtain l' where
    l': "relocate_all entry base d (24 * of_nat (Suc k)) ?l = Some l'" "lkern l' = lkern l"
    "\<And>i. Suc k \<le> i \<Longrightarrow> i < n \<Longrightarrow> rd64 (lmem l') (rel_target base m d i) = w i"
    "\<And>b. (\<forall>i. Suc k \<le> i \<longrightarrow> i < n \<longrightarrow> b \<notin> range_of (rel_target base m d i) 8) \<Longrightarrow> lmem l' b = lmem ?l b"
    unfolding la by auto
  have own: "b \<notin> range_of (rel_target base m d i) 8" if "b \<in> range_of ?t 8" "Suc k \<le> i" "i < n" for b i
  proof -
    have "k \<noteq> i" using that(2) by simp
    then have "range_of ?t 8 \<inter> range_of (rel_target base m d i) 8 = {}" using ok k that(3) by blast
    then show ?thesis using that(1) by blast
  qed
  have "agree (range_of ?t 8) (lmem l') (wr64 ?t (w k) (lmem l))"
    unfolding agree_def using l'(4) own by auto
  then have "rd64 (lmem l') ?t = w k" using rd64_agree rd64_wr64 by metis
  then have "rd64 (lmem l') (rel_target base m d i) = w i" if "k \<le> i" "i < n" for i
    using l'(3) that by (cases "i = k") simp_all
  moreover have "lmem l' b = lmem l b" if "\<forall>i. k \<le> i \<longrightarrow> i < n \<longrightarrow> b \<notin> range_of (rel_target base m d i) 8" for b
  proof -
    have "b \<notin> range_of ?t 8" using that k by simp
    then have "wr64 ?t (w k) (lmem l) b = lmem l b" using range_ofI [of _ 8 ?t] by (intro wr64_other) blast
    then show ?thesis using l'(4) [of b] that by simp
  qed
  ultimately show ?case using step l'(1,2) by auto
qed

end
