(* ===== verification/Mutex.thy ===== *)
theory Mutex
  imports Pmm
begin

text \<open>
  The mutexes of \<open>mutex.s\<close>, instruction by instruction, for any number of processors that
  run at the same time. Loads and stores of the byte happen one at a time; the locked
  compare-and-exchange is a single step. The rest of the development uses the sequential
  reading of \<open>Pmm\<close>, which the last lemmas justify.
\<close>

subsection \<open>Instructions\<close>

text \<open>
  Where a processor is: outside, before one of the instructions that touch the byte or the
  flags, or inside, past a successful acquire and before the release.
\<close>

datatype mutex_pc =
  Outside
| Acquire_load | Acquire_test | Acquire_cmpxchg | Acquire_check
| Try_load | Try_test | Try_cmpxchg | Try_check
| Inside | Release_store

record core =
  pc :: mutex_pc
  al :: u8
  cl :: u8
  rax :: u64

text \<open>\<open>lock cmpxchg [m], src\<close>: the byte and the accumulator afterwards.\<close>

definition cmpxchg :: "u8 \<Rightarrow> u8 \<Rightarrow> u8 \<Rightarrow> u8 \<times> u8" where
  "cmpxchg m src acc = (if m = acc then (src, acc) else (m, m))"

fun mutex_instr :: "u8 \<times> core \<Rightarrow> u8 \<times> core" where
  "mutex_instr (m, c) =
     (case pc c of
        Acquire_load \<Rightarrow> (m, c\<lparr>al := m, pc := Acquire_test\<rparr>)
      | Acquire_test \<Rightarrow> (m, c\<lparr>pc := if al c \<noteq> 0 then Acquire_load else Acquire_cmpxchg\<rparr>)
      | Acquire_cmpxchg \<Rightarrow>
          let (m', a) = cmpxchg m (cl c) (al c) in (m', c\<lparr>al := a, pc := Acquire_check\<rparr>)
      | Acquire_check \<Rightarrow> (m, c\<lparr>pc := if al c \<noteq> 0 then Acquire_load else Inside\<rparr>)
      | Try_load \<Rightarrow> (m, c\<lparr>al := m, pc := Try_test\<rparr>)
      | Try_test \<Rightarrow>
          (m, if al c \<noteq> 0 then c\<lparr>rax := 0, pc := Outside\<rparr> else c\<lparr>pc := Try_cmpxchg\<rparr>)
      | Try_cmpxchg \<Rightarrow>
          let (m', a) = cmpxchg m (cl c) (al c) in (m', c\<lparr>al := a, pc := Try_check\<rparr>)
      | Try_check \<Rightarrow>
          (m, if al c \<noteq> 0 then c\<lparr>rax := 0, pc := Outside\<rparr> else c\<lparr>rax := 1, pc := Inside\<rparr>)
      | Release_store \<Rightarrow> (al c, c\<lparr>pc := Outside\<rparr>)
      | _ \<Rightarrow> (m, c))"

declare mutex_instr.simps [simp del]

text \<open>The first instruction of each routine; \<open>cl\<close> is 1 from then on.\<close>

definition mutex_trylock_call :: "core \<Rightarrow> core" where
  "mutex_trylock_call c = c\<lparr>cl := 1, pc := Try_load\<rparr>"

definition mutex_acquire_call :: "core \<Rightarrow> core" where
  "mutex_acquire_call c = c\<lparr>cl := 1, pc := Acquire_load\<rparr>"

definition mutex_release_call :: "core \<Rightarrow> core" where
  "mutex_release_call c = c\<lparr>al := 0, pc := Release_store\<rparr>"

subsection \<open>Processors in parallel\<close>

record smp =
  lock_byte :: u8
  cores :: "nat \<Rightarrow> core"

text \<open>
  One processor makes a move: it enters one of the routines, leaves its critical section, or
  executes the next instruction. A release is only called by who is inside.
\<close>

inductive mutex_step :: "nat \<Rightarrow> smp \<Rightarrow> smp \<Rightarrow> bool" where
  Call_acquire: "pc (cores s i) = Outside \<Longrightarrow>
    mutex_step i s (s\<lparr>cores := (cores s)(i := mutex_acquire_call (cores s i))\<rparr>)"
| Call_trylock: "pc (cores s i) = Outside \<Longrightarrow>
    mutex_step i s (s\<lparr>cores := (cores s)(i := mutex_trylock_call (cores s i))\<rparr>)"
| Call_release: "pc (cores s i) = Inside \<Longrightarrow>
    mutex_step i s (s\<lparr>cores := (cores s)(i := mutex_release_call (cores s i))\<rparr>)"
| Instruction: "mutex_instr (lock_byte s, cores s i) = (m, c) \<Longrightarrow>
    mutex_step i s (s\<lparr>lock_byte := m, cores := (cores s)(i := c)\<rparr>)"

inductive_cases mutex_stepE: "mutex_step i s s'"

inductive mutex_run :: "smp \<Rightarrow> smp \<Rightarrow> bool" where
  Run_nil: "mutex_run s s"
| Run_step: "mutex_run s s' \<Longrightarrow> mutex_step i s' s'' \<Longrightarrow> mutex_run s s''"

definition all_outside :: "smp \<Rightarrow> bool" where
  "all_outside s \<longleftrightarrow> lock_byte s = 0 \<and> (\<forall>i. pc (cores s i) = Outside)"

subsection \<open>The invariant\<close>

text \<open>
  A processor holds the mutex from its successful exchange to its store of 0. Per processor
  the registers are what the code relies on; the byte says whether somebody holds it.
\<close>

definition holds :: "core \<Rightarrow> bool" where
  "holds c \<longleftrightarrow> pc c \<in> {Inside, Release_store} \<or> pc c \<in> {Acquire_check, Try_check} \<and> al c = 0"

definition core_ok :: "core \<Rightarrow> bool" where
  "core_ok c \<longleftrightarrow>
     (pc c \<notin> {Outside, Inside, Release_store} \<longrightarrow> cl c = 1) \<and>
     (pc c \<in> {Acquire_cmpxchg, Try_cmpxchg, Release_store} \<longrightarrow> al c = 0)"

definition mutex_inv :: "smp \<Rightarrow> bool" where
  "mutex_inv s \<longleftrightarrow> (\<forall>i. core_ok (cores s i)) \<and>
     (lock_byte s = 0 \<longleftrightarrow> (\<forall>i. \<not> holds (cores s i))) \<and>
     (\<forall>i j. holds (cores s i) \<longrightarrow> holds (cores s j) \<longrightarrow> i = j)"

lemma mutex_invI:
  assumes "mutex_inv s" "core_ok c"
    and "holds c \<longleftrightarrow> holds (cores s i)" "m = lock_byte s"
  shows "mutex_inv (s\<lparr>lock_byte := m, cores := (cores s)(i := c)\<rparr>)"
  using assms by (auto simp: mutex_inv_def)

lemma mutex_inv_enter:
  assumes "mutex_inv s" "core_ok c" "lock_byte s = 0" "holds c" "m \<noteq> 0"
  shows "mutex_inv (s\<lparr>lock_byte := m, cores := (cores s)(i := c)\<rparr>)"
  using assms by (auto simp: mutex_inv_def)

lemma mutex_inv_leave:
  assumes "mutex_inv s" "core_ok c" "holds (cores s i)" "\<not> holds c"
  shows "mutex_inv (s\<lparr>lock_byte := 0, cores := (cores s)(i := c)\<rparr>)"
  using assms by (auto simp: mutex_inv_def)

lemma mutex_instr_inv:
  assumes inv: "mutex_inv s" and run: "mutex_instr (lock_byte s, cores s i) = (m, c)"
  shows "mutex_inv (s\<lparr>lock_byte := m, cores := (cores s)(i := c)\<rparr>)"
proof -
  have ok: "core_ok (cores s i)" using inv by (simp add: mutex_inv_def)
  consider (enter) "pc (cores s i) \<in> {Acquire_cmpxchg, Try_cmpxchg}" "lock_byte s = 0"
    | (leave) "pc (cores s i) = Release_store"
    | (same) "m = lock_byte s" "holds c \<longleftrightarrow> holds (cores s i)" "core_ok c"
    using run ok
    by (cases "pc (cores s i)")
       (auto simp: mutex_instr.simps holds_def core_ok_def cmpxchg_def split: if_splits prod.splits)
  then show ?thesis
  proof cases
    case enter
    then have "core_ok c" "holds c" "m \<noteq> 0"
      using run ok by (auto simp: mutex_instr.simps holds_def core_ok_def cmpxchg_def split: if_splits)
    then show ?thesis using mutex_inv_enter [OF inv] enter(2) by blast
  next
    case leave
    then have "core_ok c" "\<not> holds c" "m = 0" "holds (cores s i)"
      using run ok by (auto simp: mutex_instr.simps holds_def core_ok_def)
    then show ?thesis using mutex_inv_leave [OF inv] by blast
  next
    case same
    then show ?thesis using mutex_invI [OF inv] by blast
  qed
qed

lemma mutex_step_inv:
  assumes "mutex_step i s s'" "mutex_inv s"
  shows "mutex_inv s'"
proof -
  have call: "mutex_inv (s\<lparr>cores := (cores s)(i := c)\<rparr>)"
    if "core_ok c" "holds c \<longleftrightarrow> holds (cores s i)" for c
    using mutex_invI [OF assms(2) that, of "lock_byte s"] by simp
  show ?thesis
    using assms
    by (elim mutex_stepE)
       (auto intro!: call
          simp: mutex_instr_inv mutex_acquire_call_def mutex_trylock_call_def
            mutex_release_call_def core_ok_def holds_def)
qed

lemma mutex_run_inv: "mutex_run s s' \<Longrightarrow> mutex_inv s \<Longrightarrow> mutex_inv s'"
  by (induction rule: mutex_run.induct) (auto intro: mutex_step_inv)

lemma all_outside_inv: "all_outside s \<Longrightarrow> mutex_inv s"
  by (simp add: all_outside_def mutex_inv_def core_ok_def holds_def)

subsection \<open>One processor at a time\<close>

text \<open>
  When nobody interferes, the two routines compute what the sequential definitions say: an
  acquire of a free byte is through after four instructions and sets it; of a held byte it is
  back where it was after two; a trylock reports which of the two it was.
\<close>

lemma acquire_alone:
  "(mutex_instr ^^ 4) (0, mutex_acquire_call c) =
     (1, c\<lparr>cl := 1, al := 0, pc := Inside\<rparr>)"
  "m \<noteq> 0 \<Longrightarrow> (mutex_instr ^^ 2) (m, mutex_acquire_call c) =
     (m, (mutex_acquire_call c)\<lparr>al := m\<rparr>)"
  by (simp_all add: mutex_instr.simps mutex_acquire_call_def cmpxchg_def eval_nat_numeral)

lemma trylock_alone:
  "(mutex_instr ^^ 4) (0, mutex_trylock_call c) =
     (1, c\<lparr>cl := 1, al := 0, rax := 1, pc := Inside\<rparr>)"
  "m \<noteq> 0 \<Longrightarrow> (mutex_instr ^^ 2) (m, mutex_trylock_call c) =
     (m, c\<lparr>cl := 1, al := m, rax := 0, pc := Outside\<rparr>)"
  by (simp_all add: mutex_instr.simps mutex_trylock_call_def cmpxchg_def eval_nat_numeral)

lemma release_alone:
  "mutex_instr (m, mutex_release_call c) = (0, c\<lparr>al := 0, pc := Outside\<rparr>)"
  by (simp add: mutex_instr.simps mutex_release_call_def)

text \<open>A processor that executes several instructions in a row.\<close>

lemma mutex_run_instrs:
  assumes "mutex_run s s'" "(mutex_instr ^^ n) (lock_byte s', cores s' i) = (m, c)"
  shows "mutex_run s (s'\<lparr>lock_byte := m, cores := (cores s')(i := c)\<rparr>)"
  using assms
proof (induction n arbitrary: m c)
  case 0
  then show ?case by (cases s') (auto simp: fun_upd_idem)
next
  case (Suc n)
  obtain m1 c1 where p: "(mutex_instr ^^ n) (lock_byte s', cores s' i) = (m1, c1)" by fastforce
  let ?s1 = "s'\<lparr>lock_byte := m1, cores := (cores s')(i := c1)\<rparr>"
  have "mutex_step i ?s1 (?s1\<lparr>lock_byte := m, cores := (cores ?s1)(i := c)\<rparr>)"
    by (rule Instruction) (use Suc.prems(2) p in simp)
  then have "mutex_step i ?s1 (s'\<lparr>lock_byte := m, cores := (cores s')(i := c)\<rparr>)" by simp
  then show ?case using Run_step Suc.IH [OF Suc.prems(1) p] by blast
qed

text \<open>A processor that spins on a held mutex stays in its loop.\<close>

lemma acquire_spins:
  assumes "m \<noteq> 0"
  shows "pc (snd ((mutex_instr ^^ n) (m, mutex_acquire_call c))) \<in> {Acquire_load, Acquire_test}"
proof -
  have "\<exists>d. (mutex_instr ^^ n) (m, mutex_acquire_call c) = (m, d) \<and>
      (pc d = Acquire_load \<or> pc d = Acquire_test \<and> al d = m)"
  proof (induction n)
    case 0
    show ?case by (simp add: mutex_acquire_call_def)
  next
    case (Suc n)
    then show ?case using assms by (auto simp: mutex_instr.simps)
  qed
  then show ?thesis by auto
qed

text \<open>
  A free mutex is had for the taking: wherever in the loop a processor is when nobody holds
  the mutex, five of its own instructions without interference take it inside.
\<close>

lemma mutex_progress:
  assumes "mutex_inv s" "\<forall>j. \<not> holds (cores s j)"
    and "pc (cores s i) \<in> {Acquire_load, Acquire_test, Acquire_cmpxchg, Acquire_check}"
  shows "pc (snd ((mutex_instr ^^ 5) (lock_byte s, cores s i))) = Inside"
proof -
  have "lock_byte s = 0" "core_ok (cores s i)" "\<not> holds (cores s i)"
    using assms by (simp_all add: mutex_inv_def)
  then show ?thesis
    using assms(3)
    by (cases "pc (cores s i)")
       (auto simp: mutex_instr.simps eval_nat_numeral cmpxchg_def core_ok_def holds_def)
qed

end
