(* ===== verification/Layout.thy ===== *)
theory Layout
  imports Prelude
begin

text \<open>
  How the compiler lays out the structures that the assembler code and the boot protocol
  reach by fixed offsets. A C type is a scalar of some size, an array or a structure, packed
  or aligned; the largest alignment is 8 bytes for the kernel and 4 bytes for the boot
  loader, which is compiled for i386.
\<close>

subsection \<open>C types\<close>

datatype ctype = Scalar nat | Array nat ctype | Struct bool "(string \<times> ctype) list"

abbreviation U8 :: ctype where "U8 \<equiv> Scalar 1"
abbreviation U16 :: ctype where "U16 \<equiv> Scalar 2"
abbreviation U32 :: ctype where "U32 \<equiv> Scalar 4"
abbreviation U64 :: ctype where "U64 \<equiv> Scalar 8"
abbreviation Pointer :: ctype where "Pointer \<equiv> Scalar 8"
abbreviation Pointer32 :: ctype where "Pointer32 \<equiv> Scalar 4"
abbreviation packed :: "(string \<times> ctype) list \<Rightarrow> ctype" where "packed \<equiv> Struct True"
abbreviation aligned :: "(string \<times> ctype) list \<Rightarrow> ctype" where "aligned \<equiv> Struct False"

fun alignof :: "nat \<Rightarrow> ctype \<Rightarrow> nat" and
  alignof_fields :: "nat \<Rightarrow> (string \<times> ctype) list \<Rightarrow> nat" where
  "alignof w (Scalar n) = min n w"
| "alignof w (Array n t) = alignof w t"
| "alignof w (Struct p fs) = (if p then 1 else alignof_fields w fs)"
| "alignof_fields w [] = 1"
| "alignof_fields w ((x, t) # fs) = max (alignof w t) (alignof_fields w fs)"

definition align_up :: "nat \<Rightarrow> nat \<Rightarrow> nat" where
  "align_up a o1 = (o1 + a - 1) div a * a"

definition place :: "nat \<Rightarrow> bool \<Rightarrow> nat \<Rightarrow> ctype \<Rightarrow> nat" where
  "place w p o1 t = (if p then o1 else align_up (alignof w t) o1)"

fun sizeof :: "nat \<Rightarrow> ctype \<Rightarrow> nat" and
  fields_end :: "nat \<Rightarrow> bool \<Rightarrow> nat \<Rightarrow> (string \<times> ctype) list \<Rightarrow> nat" where
  "sizeof w (Scalar n) = n"
| "sizeof w (Array n t) = n * sizeof w t"
| "sizeof w (Struct p fs) =
     (if p then fields_end w p 0 fs else align_up (alignof_fields w fs) (fields_end w p 0 fs))"
| "fields_end w p o1 [] = o1"
| "fields_end w p o1 ((x, t) # fs) = fields_end w p (place w p o1 t + sizeof w t) fs"

fun field_offset :: "nat \<Rightarrow> bool \<Rightarrow> nat \<Rightarrow> (string \<times> ctype) list \<Rightarrow> string \<Rightarrow> nat option" where
  "field_offset w p o1 [] y = None"
| "field_offset w p o1 ((x, t) # fs) y =
     (if x = y then Some (place w p o1 t) else field_offset w p (place w p o1 t + sizeof w t) fs y)"

fun offsetof :: "nat \<Rightarrow> ctype \<Rightarrow> string \<Rightarrow> nat option" where
  "offsetof w (Struct p fs) y = field_offset w p 0 fs y"
| "offsetof w t y = None"

text \<open>The offsets of a list of fields.\<close>

definition offsets :: "nat \<Rightarrow> ctype \<Rightarrow> (string \<times> nat) list \<Rightarrow> (string \<times> nat option) list" where
  "offsets w t xs = map (\<lambda>(x, _). (x, offsetof w t x)) xs"

definition expected :: "(string \<times> nat) list \<Rightarrow> (string \<times> nat option) list" where
  "expected xs = map (\<lambda>(x, n). (x, Some n)) xs"

subsection \<open>Structures of the kernel\<close>

definition tss_struct :: ctype where
  "tss_struct = packed
    [(''reserved0'', U32), (''rsp0'', U64), (''rsp1'', U64), (''rsp2'', U64), (''reserved1'', U32),
     (''reserved2'', U32), (''ist1'', U64), (''ist2'', U64), (''ist3'', U64), (''ist4'', U64),
     (''ist5'', U64), (''ist6'', U64), (''ist7'', U64), (''reserved3'', U32), (''reserved4'', U32),
     (''reserved5'', U16), (''iopb_base'', U16)]"

definition lapic_reg_struct :: ctype where
  "lapic_reg_struct = packed [(''value'', U32), (''___'', Array 3 U32)]"

definition lapic_regs_struct :: ctype where
  "lapic_regs_struct = packed
    [(''reserved00'', Array 8 U32), (''id'', U32), (''reserved01'', Array 3 U32),
     (''version'', U32), (''reserved02'', Array 3 U32), (''reserved03'', Array 16 U32),
     (''task_priority'', U32), (''reserved04'', Array 3 U32), (''arbitration_priority'', U32),
     (''reserved05'', Array 3 U32), (''processor_priority'', U32), (''reserved06'', Array 3 U32),
     (''eoi'', U32), (''reserved07'', Array 3 U32), (''remote_read'', U32),
     (''reserved08'', Array 3 U32), (''logical_destination'', U32), (''reserved09'', Array 3 U32),
     (''destination_format'', U32), (''reserved10'', Array 3 U32),
     (''spurious_interrupt_vector'', U32), (''reserved11'', Array 3 U32),
     (''in_service'', Array 8 lapic_reg_struct), (''trigger_mode'', Array 8 lapic_reg_struct),
     (''interrupt_request'', Array 8 lapic_reg_struct), (''error_status'', U32),
     (''reserved12'', Array 3 U32), (''reserved13'', Array 24 U32), (''lvt_cmci'', U32),
     (''reserved14'', Array 3 U32), (''interrupt_command_0'', U32), (''reserved15'', Array 3 U32),
     (''interrupt_command_1'', U32), (''reserved16'', Array 3 U32), (''lvt_timer'', U32),
     (''reserved17'', Array 3 U32), (''lvt_thermal_sensor'', U32), (''reserved18'', Array 3 U32),
     (''lvt_performance_monitoring_counters'', U32), (''reserved19'', Array 3 U32),
     (''lvt_lint0'', U32), (''reserved20'', Array 3 U32), (''lvt_lint1'', U32),
     (''reserved21'', Array 3 U32), (''lvt_error'', U32), (''reserved22'', Array 3 U32),
     (''timer_initial_count'', U32), (''reserved23'', Array 3 U32), (''timer_current_count'', U32),
     (''reserved24'', Array 3 U32), (''reserved25'', Array 16 U32),
     (''timer_divide_configuration'', U32), (''reserved26'', Array 3 U32),
     (''reserved27'', Array 4 U32)]"

definition ccb_struct :: ctype where
  "ccb_struct = packed
    [(''id'', U32), (''reserved0'', U32), (''cstack'', Pointer), (''istack'', Pointer),
     (''active_tcb'', Pointer), (''active_pcx'', Pointer), (''active_pcx_id'', U32),
     (''active_root_pcx_id'', U32), (''self'', Pointer), (''padding0'', Array 944 U8),
     (''apic_id'', U32), (''reserved1'', U32), (''ioapic_ptr'', Pointer), (''lapic'', Pointer),
     (''cstack_space'', Array 1024 U8), (''istack_space'', Array 1024 U8), (''tss'', tss_struct),
     (''padding1'', Array 920 U8)]"

definition tcb_struct :: ctype where
  "tcb_struct = packed
    [(''reserved0'', U16), (''state'', U16), (''id'', U32), (''running_cpu'', U32),
     (''reserved2'', U32), (''tap'', Array 4 U16), (''reserved1'', Array 2 U64),
     (''next'', Pointer), (''pcx_id'', U32), (''fault_type'', U32), (''fault_addr'', U64),
     (''gs'', U64), (''rax'', U64), (''rcx'', U64), (''rbx'', U64), (''rdx'', U64), (''rdi'', U64),
     (''rsi'', U64), (''rbp'', U64), (''r8'', U64), (''r9'', U64), (''r10'', U64), (''r11'', U64),
     (''r12'', U64), (''r13'', U64), (''r14'', U64), (''r15'', U64), (''xstate'', Pointer),
     (''ivect'', U32), (''saved'', U32), (''error'', U64), (''rip'', U64), (''cs'', U64),
     (''rflags'', U64), (''rsp'', U64), (''ss'', U64)]"

subsection \<open>Structures of the boot protocol\<close>

text \<open>These are not packed: the layout rests on the alignment of 4 bytes on i386.\<close>

definition multiboot_mmap_struct :: ctype where
  "multiboot_mmap_struct = aligned
    [(''size'', U32), (''base_addr'', U64), (''length'', U64), (''type'', U32)]"

definition multiboot_module_struct :: ctype where
  "multiboot_module_struct = aligned
    [(''mod_start'', U32), (''mod_end'', U32), (''string'', Pointer32), (''reserved'', U32)]"

definition multiboot_header_struct :: ctype where
  "multiboot_header_struct = aligned
    [(''flags'', U32), (''mem_lower'', U32), (''mem_upper'', U32), (''boot_device'', U32),
     (''cmdline'', Pointer32), (''mods_count'', U32), (''mods_addr'', Pointer32), (''syms0'', U32),
     (''syms1'', U32), (''syms2'', U32), (''syms3'', U32), (''mmap_count'', U32), (''mmap_addr'', U32)]"

definition elf64_phdr_struct :: ctype where
  "elf64_phdr_struct = aligned
    [(''p_type'', U32), (''p_flags'', U32), (''p_offset'', U64), (''p_vaddr'', U64),
     (''p_paddr'', U64), (''p_filesz'', U64), (''p_memsz'', U64), (''p_align'', U64)]"

text \<open>The offsets of the multiboot specification and of the ELF format.\<close>

definition multiboot_mmap_spec :: "(string \<times> nat) list" where
  "multiboot_mmap_spec = [(''size'', 0), (''base_addr'', 4), (''length'', 12), (''type'', 20)]"

definition multiboot_module_spec :: "(string \<times> nat) list" where
  "multiboot_module_spec = [(''mod_start'', 0), (''mod_end'', 4), (''string'', 8), (''reserved'', 12)]"

definition multiboot_header_spec :: "(string \<times> nat) list" where
  "multiboot_header_spec = [(''flags'', 0), (''mem_lower'', 4), (''mem_upper'', 8),
     (''boot_device'', 12), (''cmdline'', 16), (''mods_count'', 20), (''mods_addr'', 24),
     (''syms0'', 28), (''mmap_count'', 44), (''mmap_addr'', 48)]"

definition elf64_phdr_spec :: "(string \<times> nat) list" where
  "elf64_phdr_spec = [(''p_type'', 0), (''p_flags'', 4), (''p_offset'', 8), (''p_vaddr'', 16),
     (''p_paddr'', 24), (''p_filesz'', 32), (''p_memsz'', 40), (''p_align'', 48)]"

subsection \<open>Offsets in the assembler code\<close>

text \<open>
  \<open>ccb.s\<close>, \<open>api.s\<close> and \<open>interrupt.s\<close> reach the processor block through \<open>gs\<close>: the offsets they
  use, with the field they mean. \<open>0xC04\<close> and \<open>0xC24\<close> are the two stacks of the TSS inside it.
\<close>

definition ccb_asm :: "(string \<times> nat) list" where
  "ccb_asm = [(''id'', 0x00), (''cstack'', 0x08), (''istack'', 0x10), (''active_tcb'', 0x18),
     (''active_pcx'', 0x20), (''active_pcx_id'', 0x28), (''self'', 0x30), (''apic_id'', 0x3E8),
     (''ioapic_ptr'', 0x3F0), (''lapic'', 0x3F8), (''istack_space'', 0x800), (''tss'', 0xC00)]"

definition tss_asm :: "(string \<times> nat) list" where
  "tss_asm = [(''rsp0'', 0xC04 - 0xC00), (''ist1'', 0xC24 - 0xC00)]"

text \<open>
  \<open>save_state_full\<close> and \<open>resume_state_full\<close> address the registers from a pointer that is
  \<open>0x40\<close> bytes into the block. The processor pushes its frame below the end of the block,
  the stub one word that holds the vector.
\<close>

definition tcb_saved_regs :: "(string \<times> nat) list" where
  "tcb_saved_regs = map (\<lambda>(x, n). (x, 0x40 + n))
    [(''rax'', 0x08), (''rcx'', 0x10), (''rbx'', 0x18), (''rdx'', 0x20), (''rdi'', 0x28),
     (''rsi'', 0x30), (''rbp'', 0x38), (''r8'', 0x40), (''r9'', 0x48), (''r10'', 0x50),
     (''r11'', 0x58), (''r12'', 0x60), (''r13'', 0x68), (''r14'', 0x70), (''r15'', 0x78)]"

definition interrupt_frame :: "(string \<times> nat) list" where
  "interrupt_frame = map (\<lambda>(x, n). (x, 0x100 - n))
    [(''ss'', 8), (''rsp'', 16), (''rflags'', 24), (''cs'', 32), (''rip'', 40), (''error'', 48),
     (''ivect'', 56)]"

text \<open>Where \<open>iretq\<close> takes its frame from: \<open>resume_state_full\<close> adds \<open>0x40\<close> and \<open>0x98\<close>.\<close>

definition resume_frame :: "(string \<times> nat) list" where
  "resume_frame = [(''rip'', 0x40 + 0x98)]"

text \<open>The registers of the local APIC, at the offsets the processor has them.\<close>

definition lapic_hardware :: "(string \<times> nat) list" where
  "lapic_hardware =
    [(''id'', 0x20), (''version'', 0x30), (''task_priority'', 0x80),
     (''arbitration_priority'', 0x90), (''processor_priority'', 0xA0), (''eoi'', 0xB0),
     (''remote_read'', 0xC0), (''logical_destination'', 0xD0), (''destination_format'', 0xE0),
     (''spurious_interrupt_vector'', 0xF0), (''in_service'', 0x100), (''trigger_mode'', 0x180),
     (''interrupt_request'', 0x200), (''error_status'', 0x280), (''lvt_cmci'', 0x2F0),
     (''interrupt_command_0'', 0x300), (''interrupt_command_1'', 0x310), (''lvt_timer'', 0x320),
     (''lvt_thermal_sensor'', 0x330), (''lvt_performance_monitoring_counters'', 0x340),
     (''lvt_lint0'', 0x350), (''lvt_lint1'', 0x360), (''lvt_error'', 0x370),
     (''timer_initial_count'', 0x380), (''timer_current_count'', 0x390),
     (''timer_divide_configuration'', 0x3E0)]"

lemma kernel_sizes:
  "sizeof 8 tss_struct = 104" "sizeof 8 ccb_struct = 4096" "sizeof 8 tcb_struct = 256"
  "sizeof 8 lapic_regs_struct = 1024"
  by code_simp+

lemma ccb_offsets: "offsets 8 ccb_struct ccb_asm = expected ccb_asm" by code_simp
lemma tss_offsets: "offsets 8 tss_struct tss_asm = expected tss_asm" by code_simp
lemma tcb_offsets: "offsets 8 tcb_struct tcb_saved_regs = expected tcb_saved_regs" by code_simp
lemma frame_offsets:
  "offsets 8 tcb_struct interrupt_frame = expected interrupt_frame"
  "offsets 8 tcb_struct resume_frame = expected resume_frame"
  by code_simp+
lemma boot_offsets:
  "offsets 4 multiboot_mmap_struct multiboot_mmap_spec = expected multiboot_mmap_spec"
  "offsets 4 multiboot_module_struct multiboot_module_spec = expected multiboot_module_spec"
  "offsets 4 multiboot_header_struct multiboot_header_spec = expected multiboot_header_spec"
  "offsets 4 elf64_phdr_struct elf64_phdr_spec = expected elf64_phdr_spec"
  "offsets 8 elf64_phdr_struct elf64_phdr_spec = expected elf64_phdr_spec"
  by code_simp+

lemma lapic_offsets: "offsets 8 lapic_regs_struct lapic_hardware = expected lapic_hardware"
  by code_simp

end
