(* ===== verification/Log.thy ===== *)
theory Log
  imports Config_Specs
begin

text \<open>
  The log (\<open>log.c\<close>, once in the kernel and once in the boot loader): formatting, and the
  serial port that the text goes to. The screen device is compiled out. Arguments are passed
  with their C types; reading an argument of another type or one that is not there is
  undefined, and \<open>None\<close> here.
\<close>

subsection \<open>Numbers and strings\<close>

definition digit :: string where "digit = ''0123456789ABCDEF''"

definition logputs :: "string option \<Rightarrow> string" where
  "logputs str = (case str of None \<Rightarrow> ''(null)'' | Some s \<Rightarrow> s)"

text \<open>The loop that collects decimal digits, least significant first, in a buffer of 10.\<close>

fun logputd_buffer :: "nat \<Rightarrow> u32 \<Rightarrow> string \<Rightarrow> string" where
  "logputd_buffer 0 n buffer = buffer"
| "logputd_buffer (Suc k) n buffer =
     (if n = 0 then buffer
      else logputd_buffer k (n div 10) (buffer @ [digit ! unat (n mod 10)]))"

text \<open>
  The smallest \<open>int\<close> has no negation: \<open>n = -n\<close> overflows, which is undefined. Past the sign
  the number is positive, so that signed and unsigned division agree.
\<close>

definition logputd :: "u32 \<Rightarrow> string option" where
  "logputd n =
     (if n = 0x80000000 then None
      else
        let sign = (if n <s 0 then ''-'' else ''''); n = (if n <s 0 then - n else n) in
        Some (sign @ (if n = 0 then ''0'' else rev (logputd_buffer 10 n ''''))))"

definition logputx :: "u32 \<Rightarrow> string" where
  "logputx x = map (\<lambda>i. digit ! unat (drop_bit (28 - i * 4) x AND 0xF)) [0..<8]"

definition logputp :: "u64 \<Rightarrow> string" where
  "logputp p = map (\<lambda>i. digit ! unat (drop_bit (60 - i * 4) p AND 0xF)) [0..<16]"

text \<open>The copies of the boot loader (\<open>unfold/log.c\<close>); it has no \<open>logputp\<close>.\<close>

definition unfold_logputs :: "string option \<Rightarrow> string" where
  "unfold_logputs str = (case str of None \<Rightarrow> ''(null)'' | Some s \<Rightarrow> s)"

fun unfold_logputd_buffer :: "nat \<Rightarrow> u32 \<Rightarrow> string \<Rightarrow> string" where
  "unfold_logputd_buffer 0 n buffer = buffer"
| "unfold_logputd_buffer (Suc k) n buffer =
     (if n = 0 then buffer
      else unfold_logputd_buffer k (n div 10) (buffer @ [digit ! unat (n mod 10)]))"

definition unfold_logputd :: "u32 \<Rightarrow> string option" where
  "unfold_logputd n =
     (if n = 0x80000000 then None
      else
        let sign = (if n <s 0 then ''-'' else ''''); n = (if n <s 0 then - n else n) in
        Some (sign @ (if n = 0 then ''0'' else rev (unfold_logputd_buffer 10 n ''''))))"

definition unfold_logputx :: "u32 \<Rightarrow> string" where
  "unfold_logputx x = map (\<lambda>i. digit ! unat (drop_bit (28 - i * 4) x AND 0xF)) [0..<8]"

subsection \<open>Formats\<close>

datatype log_arg = Str_arg "string option" | Int_arg u32 | Long_arg u64

text \<open>
  One conversion: the text and the arguments that are left. An unknown conversion prints
  nothing. The log of the boot loader lacks \<open>%p\<close>.
\<close>

fun log_conv :: "char \<Rightarrow> log_arg list \<Rightarrow> (string \<times> log_arg list) option" where
  "log_conv c ap =
     (if c = CHR ''s'' then (case ap of Str_arg s # ap \<Rightarrow> Some (logputs s, ap) | _ \<Rightarrow> None)
      else if c = CHR ''c'' then
        (case ap of Int_arg n # ap \<Rightarrow> Some ([char_of (unat n)], ap) | _ \<Rightarrow> None)
      else if c = CHR ''d'' then
        (case ap of Int_arg n # ap \<Rightarrow> do { t \<leftarrow> logputd n; Some (t, ap) } | _ \<Rightarrow> None)
      else if c = CHR ''x'' then
        (case ap of Int_arg n # ap \<Rightarrow> Some (logputx n, ap) | _ \<Rightarrow> None)
      else if c = CHR ''p'' then
        (case ap of Long_arg p # ap \<Rightarrow> Some (logputp p, ap) | _ \<Rightarrow> None)
      else if c = CHR ''%'' then Some (''%'', ap)
      else Some ('''', ap))"

fun unfold_log_conv :: "char \<Rightarrow> log_arg list \<Rightarrow> (string \<times> log_arg list) option" where
  "unfold_log_conv c ap =
     (if c = CHR ''s'' then
        (case ap of Str_arg s # ap \<Rightarrow> Some (unfold_logputs s, ap) | _ \<Rightarrow> None)
      else if c = CHR ''c'' then
        (case ap of Int_arg n # ap \<Rightarrow> Some ([char_of (unat n)], ap) | _ \<Rightarrow> None)
      else if c = CHR ''d'' then
        (case ap of Int_arg n # ap \<Rightarrow> do { t \<leftarrow> unfold_logputd n; Some (t, ap) } | _ \<Rightarrow> None)
      else if c = CHR ''x'' then
        (case ap of Int_arg n # ap \<Rightarrow> Some (unfold_logputx n, ap) | _ \<Rightarrow> None)
      else if c = CHR ''%'' then Some (''%'', ap)
      else Some ('''', ap))"

lemma unfold_logputd_buffer_same: "unfold_logputd_buffer k n b = logputd_buffer k n b"
  by (induction k n b rule: logputd_buffer.induct) simp_all

lemma unfold_log_same:
  "unfold_logputs = logputs" "unfold_logputd = logputd" "unfold_logputx = logputx"
  by (simp_all add: fun_eq_iff unfold_logputs_def logputs_def unfold_logputd_def logputd_def
      unfold_logputx_def logputx_def unfold_logputd_buffer_same)

text \<open>The two copies differ in \<open>%p\<close> only, which the boot loader skips.\<close>

lemma unfold_log_conv_same:
  "unfold_log_conv c ap = (if c = CHR ''p'' then Some ('''', ap) else log_conv c ap)"
  unfolding unfold_log_conv.simps log_conv.simps unfold_log_same by simp

text \<open>The loop over the format; a \<open>%\<close> at its very end is printed.\<close>

fun log_format ::
  "(char \<Rightarrow> log_arg list \<Rightarrow> (string \<times> log_arg list) option) \<Rightarrow> string \<Rightarrow> log_arg list \<Rightarrow> string option" where
  "log_format conv [] ap = Some ''''"
| "log_format conv [c] ap = Some [c]"
| "log_format conv (c # d # fmt) ap =
     (if c = CHR ''%'' then do {
        (t, ap) \<leftarrow> conv d ap;
        r \<leftarrow> log_format conv fmt ap;
        Some (t @ r)
      } else do {
        r \<leftarrow> log_format conv (d # fmt) ap;
        Some (c # r)
      })"

definition LOG_INFO :: int where "LOG_INFO = 0"
definition LOG_INIT :: int where "LOG_INIT = 1"
definition LOG_DEBUG :: int where "LOG_DEBUG = 2"
definition LOG_ERROR :: int where "LOG_ERROR = 3"

definition log_prefix :: "int \<Rightarrow> string" where
  "log_prefix level =
     (if level = LOG_INFO then ''[info]  '' else if level = LOG_INIT then ''[init]  ''
      else if level = LOG_DEBUG then ''[debug] '' else if level = LOG_ERROR then ''[error] ''
      else '''')"

text \<open>The text of a log line; levels below \<open>DEBUG\<close> are not printed.\<close>

definition log_text ::
  "(char \<Rightarrow> log_arg list \<Rightarrow> (string \<times> log_arg list) option) \<Rightarrow> int \<Rightarrow> string \<Rightarrow> log_arg list \<Rightarrow> string option" where
  "log_text conv level fmt ap =
     (if level < LOG_DEBUG then Some ''''
      else do {
        t \<leftarrow> log_format conv fmt ap;
        Some (log_prefix level @ t @ [NL])
      })"

subsection \<open>The serial port\<close>

text \<open>
  The device: what the reads of the line status register will return, in order, and what has
  been written to which port. Running out of status reads is waiting for ever.
\<close>

record serial =
  serialinit :: bool
  line_status :: "u8 list"
  port_writes :: "(u16 \<times> u8) list"

definition outb :: "u16 \<Rightarrow> u8 \<Rightarrow> serial \<Rightarrow> serial" where
  "outb port v d = d\<lparr>port_writes := port_writes d @ [(port, v)]\<rparr>"

fun serial_wait :: "u8 list \<Rightarrow> u8 list option" where
  "serial_wait [] = None"
| "serial_wait (x # xs) = (if x AND 0x20 = 0 then serial_wait xs else Some xs)"

definition serial_send :: "char \<Rightarrow> serial \<Rightarrow> serial option" where
  "serial_send c d = do {
     xs \<leftarrow> serial_wait (line_status d);
     let d = d\<lparr>line_status := xs\<rparr>;
     let d = (if c = NL then outb 0x3F8 0x0D d else d);
     Some (outb 0x3F8 (of_char c) d)
   }"

definition serial_setup :: "serial \<Rightarrow> serial" where
  "serial_setup d =
     (outb 0x3FC 0x0B \<circ> outb 0x3FA 0xC7 \<circ> outb 0x3FB 0x03 \<circ> outb 0x3F9 0x00 \<circ>
      outb 0x3F8 0x03 \<circ> outb 0x3FB 0x80 \<circ> outb 0x3F9 0x00) d\<lparr>serialinit := True\<rparr>"

text \<open>The first character is preceded by the set-up of the device and a line feed.\<close>

definition serialputc :: "char \<Rightarrow> serial \<Rightarrow> serial option" where
  "serialputc c d = do {
     d \<leftarrow> (if serialinit d then Some d else serial_send NL (serial_setup d));
     serial_send c d
   }"

fun serialputs :: "string \<Rightarrow> serial \<Rightarrow> serial option" where
  "serialputs [] d = Some d"
| "serialputs (c # cs) d = do { d \<leftarrow> serialputc c d; serialputs cs d }"

definition log :: "int \<Rightarrow> string \<Rightarrow> log_arg list \<Rightarrow> serial \<Rightarrow> serial option" where
  "log level fmt ap d = do { t \<leftarrow> log_text log_conv level fmt ap; serialputs t d }"

definition unfold_log :: "int \<Rightarrow> string \<Rightarrow> log_arg list \<Rightarrow> serial \<Rightarrow> serial option" where
  "unfold_log level fmt ap d = do { t \<leftarrow> log_text unfold_log_conv level fmt ap; serialputs t d }"

end
