(* ===== verification/Log_Specs.thy ===== *)
theory Log_Specs
  imports Log
begin

text \<open>
  The numbers in the log: hexadecimal ones read back by the parser of \<open>config.c\<close>, decimal ones
  by a reference reading; and what the serial line carries.
\<close>

subsection \<open>Hexadecimal\<close>

lemma hex_digit_digit: "k < 16 \<Longrightarrow> hex_digit (digit ! k) = Some (of_nat k)"
proof -
  have "\<forall>k \<in> set [0..<16]. hex_digit (digit ! k) = Some (of_nat k)" by code_simp
  then show "k < 16 \<Longrightarrow> hex_digit (digit ! k) = Some (of_nat k)" by simp
qed

text \<open>The lowest \<open>n\<close> digits of a number, most significant first.\<close>

definition hex_digits :: "nat \<Rightarrow> u64 \<Rightarrow> string" where
  "hex_digits n p = map (\<lambda>i. digit ! unat (drop_bit (4 * (n - Suc i)) p AND 0xF)) [0..<n]"

lemma hex_digits_Suc:
  "hex_digits (Suc n) p = (digit ! unat (drop_bit (4 * n) p AND 0xF)) # hex_digits n p"
proof -
  have "[0..<Suc n] = 0 # map Suc [0..<n]" by (simp add: map_Suc_upt upt_conv_Cons)
  then show ?thesis by (simp add: hex_digits_def comp_def)
qed

lemma hex_digits_read:
  "config_hex w (hex_digits n p) = Some (push_bit (4 * n) w OR take_bit (4 * n) p)"
proof (induction n arbitrary: w)
  case 0
  show ?case by (simp add: hex_digits_def)
next
  case (Suc n)
  let ?d = "drop_bit (4 * n) p AND 0xF"
  have m: "?d = take_bit 4 (drop_bit (4 * n) p)" by (simp add: take_bit_eq_mask mask_eq_exp_minus_1)
  have "unat ?d < 16" unfolding m unsigned_take_bit_eq by (simp add: take_bit_nat_def)
  then have d: "hex_digit (digit ! unat ?d) = Some ?d" by (simp add: hex_digit_digit)
  have "push_bit (4 * n) (push_bit 4 w OR ?d) OR take_bit (4 * n) p =
      push_bit (4 * Suc n) w OR take_bit (4 * Suc n) p"
    unfolding m by (rule bit_word_eqI) (auto simp: bit_simps add.commute)
  then show ?case by (simp add: hex_digits_Suc d Suc.IH)
qed

lemma logputp_digits: "logputp p = hex_digits 16 p"
proof -
  have "60 - i * 4 = 4 * (16 - Suc i)" if "i < 16" for i :: nat using that by simp
  then show ?thesis unfolding logputp_def hex_digits_def by (intro map_cong refl) simp
qed

lemma logputx_digits: "logputx x = hex_digits 8 (ucast x)"
proof -
  have "unat (drop_bit n x AND 0xF) = unat (drop_bit n (ucast x :: u64) AND 0xF)" for n
  proof -
    have "unat x < 2 ^ 64" "unat x < 2 ^ 32" by (rule less_le_trans [OF unsigned_less]; simp)+
    then have "take_bit 64 (unat x) = unat x" "take_bit 32 (unat x) = unat x"
      by (simp_all only: take_bit_nat_eq_self)
    then show ?thesis by (simp add: unsigned_and_eq unsigned_drop_bit_eq unsigned_ucast_eq)
  qed
  moreover have "28 - i * 4 = 4 * (8 - Suc i)" if "i < 8" for i :: nat using that by simp
  ultimately show ?thesis unfolding logputx_def hex_digits_def by (intro map_cong refl) simp
qed

lemma logputp_read: "config_hex 0 (logputp p) = Some p"
  by (simp add: logputp_digits hex_digits_read) (simp add: take_bit_word_eq_self)

lemma logputx_read: "config_hex 0 (logputx x) = Some (ucast x)"
  by (simp add: logputx_digits hex_digits_read) (rule bit_word_eqI, auto simp: bit_simps dest: bit_imp_le_length)

subsection \<open>Decimal\<close>

definition dec_digit :: "char \<Rightarrow> nat" where "dec_digit c = of_char c - 48"

fun dec_value :: "string \<Rightarrow> nat" where
  "dec_value [] = 0"
| "dec_value (c # cs) = dec_digit c * 10 ^ length cs + dec_value cs"

definition decimal :: "string \<Rightarrow> int" where
  "decimal s = (case s of c # cs \<Rightarrow> if c = CHR ''-'' then - int (dec_value cs) else int (dec_value s) | [] \<Rightarrow> 0)"

lemma dec_digit_digit: "k < 10 \<Longrightarrow> dec_digit (digit ! k) = k \<and> digit ! k \<noteq> CHR ''-''"
proof -
  have "\<forall>k \<in> set [0..<10]. dec_digit (digit ! k) = k \<and> digit ! k \<noteq> CHR ''-''" by code_simp
  then show "k < 10 \<Longrightarrow> dec_digit (digit ! k) = k \<and> digit ! k \<noteq> CHR ''-''" by simp
qed

lemma buffer_value:
  "unat n < 10 ^ k \<Longrightarrow>
   dec_value (rev (logputd_buffer k n b)) = unat n * 10 ^ length b + dec_value (rev b)"
proof (induction k arbitrary: n b)
  case 0
  then show ?case by simp
next
  case (Suc k)
  show ?case
  proof (cases "n = 0")
    case False
    have m: "unat (n mod 10) < 10" by (simp add: unat_mod)
    have "unat (n div 10) < 10 ^ k" using Suc.prems by (simp add: unat_div less_mult_imp_div_less)
    moreover have "unat n = unat (n div 10) * 10 + unat (n mod 10)"
      by (simp add: unat_div unat_mod)
    ultimately show ?thesis
      using False Suc.IH [of "n div 10"] dec_digit_digit [OF m] by (simp add: algebra_simps)
  qed simp
qed

lemma buffer_nonempty:
  "n \<noteq> 0 \<Longrightarrow> \<exists>c cs. rev (logputd_buffer (Suc k) n []) = c # cs"
proof -
  have "length b \<le> length (logputd_buffer k n b)" for k n b
    by (induction k n b rule: logputd_buffer.induct) auto
  from this [of "[digit ! unat (n mod 10)]" k "n div 10"]
  show "n \<noteq> 0 \<Longrightarrow> \<exists>c cs. rev (logputd_buffer (Suc k) n []) = c # cs"
    by (cases "rev (logputd_buffer (Suc k) n [])") auto
qed

lemma buffer_digits:
  "CHR ''-'' \<notin> set b \<Longrightarrow> CHR ''-'' \<notin> set (logputd_buffer k n b)"
proof (induction k n b rule: logputd_buffer.induct)
  case (2 k n b)
  have "digit ! unat (n mod 10) \<noteq> CHR ''-''" by (simp add: dec_digit_digit unat_mod)
  with 2 show ?case by (auto simp del: One_nat_def)
qed simp

lemma signed_parts:
  fixes n :: u32
  shows "sint n = (if n <s 0 then - int (unat (- n)) else int (unat n))"
proof -
  have s: "n <s 0 \<longleftrightarrow> sint n < 0" by (simp add: word_sless_alt)
  show ?thesis
  proof (cases "n <s 0")
    case True
    then have neg: "sint n < 0" by (simp add: s)
    have "- (2 ^ 31) \<le> sint n" using sint_ge [of n] by simp
    then have "- sint n mod 2 ^ 32 = - sint n" using neg by (intro mod_pos_pos_trivial) auto
    moreover have "uint (- n) = - sint n mod 2 ^ 32"
    proof -
      have "uint (word_of_int (- sint n) :: u32) = - sint n mod 2 ^ 32"
        by (simp only: uint_word_of_int) simp
      then show ?thesis by simp
    qed
    ultimately show ?thesis using True by simp
  next
    case False
    then have "0 \<le> sint n" by (simp add: s)
    then have "sint n mod 2 ^ 32 = sint n"
      using sint_less [of n] by (intro mod_pos_pos_trivial) auto
    moreover have "uint n = sint n mod 2 ^ 32"
    proof -
      have "uint (word_of_int (sint n) :: u32) = sint n mod 2 ^ 32"
        by (simp only: uint_word_of_int) simp
      then show ?thesis by simp
    qed
    ultimately show ?thesis using False by simp
  qed
qed

lemma logputd_reads:
  assumes "logputd n = Some t"
  shows "decimal t = sint n"
proof -
  define m where "m = (if n <s 0 then - n else n)"
  have t: "t = (if n <s 0 then ''-'' else '''') @ (if m = 0 then ''0'' else rev (logputd_buffer 10 m ''''))"
    using assms by (simp add: logputd_def m_def Let_def split: if_splits)
  let ?b = "rev (logputd_buffer 10 m '''')"
  have "unat m < 10 ^ 10" by (rule less_le_trans [OF unsigned_less]) simp
  then have v: "dec_value ?b = unat m" using buffer_value [of m 10 "''''"] by simp
  have "n <s 0 \<Longrightarrow> m \<noteq> 0" by (auto simp: m_def)
  moreover have "m \<noteq> 0 \<Longrightarrow> \<exists>c cs. ?b = c # cs" using buffer_nonempty [of m 9] by simp
  moreover have "decimal ''0'' = 0" by (simp add: decimal_def dec_digit_def)
  moreover have "CHR ''-'' \<notin> set ?b" using buffer_digits [of "''''" 10 m] by simp
  moreover have "sint n = (if n <s 0 then - int (unat m) else int (unat m))"
    using signed_parts [of n] by (simp add: m_def)
  ultimately show ?thesis
    using v by (cases "m = 0")
      (auto simp: t decimal_def simp del: dec_value.simps(2) split: list.splits)
qed

subsection \<open>The serial line\<close>

definition sends_left :: "serial \<Rightarrow> nat" where
  "sends_left d = length (filter (\<lambda>x. x AND 0x20 \<noteq> 0) (line_status d))"

text \<open>What goes over the wire for a character.\<close>

definition wire :: "char \<Rightarrow> (u16 \<times> u8) list" where
  "wire c = (if c = NL then [(0x3F8, 0x0D)] else []) @ [(0x3F8, of_char c)]"

lemma serial_wait_ready:
  "serial_wait xs = None \<longleftrightarrow> filter (\<lambda>x. x AND 0x20 \<noteq> 0) xs = []"
  "serial_wait xs = Some ys \<Longrightarrow>
     length (filter (\<lambda>x. x AND 0x20 \<noteq> 0) xs) = Suc (length (filter (\<lambda>x. x AND 0x20 \<noteq> 0) ys))"
  by (induction xs rule: serial_wait.induct) (auto split: if_splits)

lemma serial_send_ready:
  "serial_send c d = None \<longleftrightarrow> sends_left d = 0"
  "serial_send c d = Some d' \<Longrightarrow> sends_left d = Suc (sends_left d') \<and> serialinit d' = serialinit d \<and>
     port_writes d' = port_writes d @ wire c"
  using serial_wait_ready [of "line_status d"]
  by (auto simp: serial_send_def sends_left_def outb_def wire_def bind_eq_None_conv bind_eq_Some_conv Let_def)

text \<open>
  With the device set up, a text is sent whole if the line gets ready once for each
  character, and never otherwise.
\<close>

lemma serialputs_sends:
  assumes "serialinit d"
  shows "if length t \<le> sends_left d
    then \<exists>d'. serialputs t d = Some d' \<and> port_writes d' = port_writes d @ concat (map wire t)
    else serialputs t d = None"
  using assms
proof (induction t arbitrary: d)
  case Nil
  then show ?case by simp
next
  case (Cons c t)
  show ?case
  proof (cases "serial_send c d")
    case None
    then show ?thesis using Cons.prems serial_send_ready(1) [of c d] by (simp add: serialputc_def)
  next
    case (Some e)
    note r = serial_send_ready(2) [OF Some]
    then show ?thesis
      using Cons.IH [of e] Cons.prems Some by (auto simp: serialputc_def split: if_splits)
  qed
qed

end
