(* ===== verification/Acpi.thy ===== *)
theory Acpi
  imports Bytes Paging
begin

text \<open>
  The searches for the tables of the firmware: the ACPI root pointer (\<open>acpi.c\<close>), which
  \<open>init\<close> only reports in the log, and the MP table (\<open>mp.s\<close>, \<open>apic.c\<close>), which nobody calls.
  Memory is the bytes behind the window of \<open>page.c\<close>.
\<close>

subsection \<open>The ACPI root pointer\<close>

definition RDSP_SIGNATURE :: u64 where "RDSP_SIGNATURE = 0x2052545020445352"

record rdsp_descriptor =
  rdsp_signature :: u64
  rdsp_checksum :: u8
  rdsp_oem_id :: "u8 list"
  rdsp_revision :: u8
  rdsp_rdst_address :: u32

definition read_rdsp :: "bytes \<Rightarrow> u64 \<Rightarrow> rdsp_descriptor" where
  "read_rdsp m a = \<lparr>rdsp_signature = rd64 m a, rdsp_checksum = m (a + 8),
     rdsp_oem_id = map (\<lambda>i. m (a + 9 + of_nat i)) [0..<6], rdsp_revision = m (a + 15),
     rdsp_rdst_address = rd32 m (a + 16)\<rparr>"

text \<open>The sum of \<open>n\<close> bytes.\<close>

fun byte_sum :: "bytes \<Rightarrow> u64 \<Rightarrow> nat \<Rightarrow> u8" where
  "byte_sum m a 0 = 0"
| "byte_sum m a (Suc n) = byte_sum m a n + m (a + of_nat n)"

definition is_rdsp :: "bytes \<Rightarrow> u64 \<Rightarrow> bool" where
  "is_rdsp m paddr =
     (let desc = pmm_vaddr paddr in
      rdsp_signature (read_rdsp m desc) = RDSP_SIGNATURE \<and> byte_sum m desc 20 = 0)"

text \<open>The loop counts down by 2; \<open>n\<close> is half of its index. The result is what is logged.\<close>

fun rdsp_from :: "bytes \<Rightarrow> nat \<Rightarrow> u64 option" where
  "rdsp_from m 0 = None"
| "rdsp_from m (Suc n) =
     (if is_rdsp m (of_nat (2 * Suc n)) then Some (of_nat (2 * Suc n)) else rdsp_from m n)"

definition init_acpi :: "bytes \<Rightarrow> u64 option" where
  "init_acpi m = rdsp_from m (0x100000 div 2 - 1)"

lemma rdsp_from_max:
  "rdsp_from m n =
     (let hits = {k. 0 < k \<and> k \<le> n \<and> is_rdsp m (of_nat (2 * k))} in
      if hits = {} then None else Some (of_nat (2 * Max hits)))"
proof (induction n)
  case 0
  then show ?case by simp
next
  case (Suc n)
  let ?hits = "\<lambda>n. {k. 0 < k \<and> k \<le> n \<and> is_rdsp m (of_nat (2 * k))}"
  have fin: "finite (?hits n)" for n by (rule finite_subset [of _ "{..n}"]) auto
  have nil: "rdsp_from m (Suc n) = (if is_rdsp m (of_nat (2 * Suc n)) then Some (of_nat (2 * Suc n)) else rdsp_from m n)"
    by (rule rdsp_from.simps)
  show ?case
  proof (cases "is_rdsp m (of_nat (2 * Suc n))")
    case True
    then have "Suc n \<in> ?hits (Suc n)" by simp
    moreover have "Max (?hits (Suc n)) = Suc n"
      by (rule Max_eqI [OF fin]) (use \<open>Suc n \<in> ?hits (Suc n)\<close> in auto)
    ultimately show ?thesis unfolding nil Let_def using True by auto
  next
    case False
    then have "?hits (Suc n) = ?hits n" by (auto simp del: of_nat_mult of_nat_Suc simp: le_Suc_eq)
    then show ?thesis unfolding nil using False Suc.IH by (simp only: if_False)
  qed
qed

subsection \<open>The MP table\<close>

definition MP_SIGNATURE :: u32 where "MP_SIGNATURE = 0x5F504D5F"

text \<open>
  \<open>find_mptable\<close>: paragraphs from the second on, below 15 MB. The result is the address in
  the window, or 0.
\<close>

function find_mptable_from :: "bytes \<Rightarrow> nat \<Rightarrow> ptr" where
  "find_mptable_from m k =
     (if 0xF00000 \<le> 16 * k then 0
      else let a = pmm_vaddr 0 + of_nat (16 * k) in
        if rd32 m a = MP_SIGNATURE \<and> byte_sum m a 16 = 0 then a else find_mptable_from m (Suc k))"
  by pat_completeness auto
termination
  by (relation "measure (\<lambda>(m, k). 0xF00000 - 16 * k)") auto

declare find_mptable_from.simps [simp del]

definition find_mptable :: "bytes \<Rightarrow> ptr" where
  "find_mptable m = find_mptable_from m 1"

record mptable_float_ptr =
  mpf_signature :: u32
  mpf_physaddr :: u32
  mpf_length :: u8
  mpf_spec_rv :: u8
  mpf_checksum :: u8
  mpf_feature :: "u8 list"

definition read_mpf :: "bytes \<Rightarrow> u64 \<Rightarrow> mptable_float_ptr" where
  "read_mpf m a = \<lparr>mpf_signature = rd32 m a, mpf_physaddr = rd32 m (a + 4), mpf_length = m (a + 8),
     mpf_spec_rv = m (a + 9), mpf_checksum = m (a + 10),
     mpf_feature = map (\<lambda>i. m (a + 11 + of_nat i)) [0..<5]\<rparr>"

record mptable =
  mpt_signature :: u32
  mpt_base_length :: u16
  mpt_spec_rv :: u8
  mpt_checksum :: u8
  mpt_oem_id :: "u8 list"
  mpt_prod_id :: "u8 list"
  mpt_oem_table :: u32
  mpt_oem_table_size :: u16
  mpt_entry_count :: u16
  mpt_lapic_addr :: u32
  mpt_extended_length :: u16
  mpt_extended_checksum :: u8
  mpt_reserved :: u8

definition read_mptable :: "bytes \<Rightarrow> u64 \<Rightarrow> mptable" where
  "read_mptable m a = \<lparr>mpt_signature = rd32 m a, mpt_base_length = rd16 m (a + 4),
     mpt_spec_rv = m (a + 6), mpt_checksum = m (a + 7),
     mpt_oem_id = map (\<lambda>i. m (a + 8 + of_nat i)) [0..<8],
     mpt_prod_id = map (\<lambda>i. m (a + 16 + of_nat i)) [0..<12], mpt_oem_table = rd32 m (a + 28),
     mpt_oem_table_size = rd16 m (a + 32), mpt_entry_count = rd16 m (a + 34),
     mpt_lapic_addr = rd32 m (a + 36), mpt_extended_length = rd16 m (a + 40),
     mpt_extended_checksum = m (a + 42), mpt_reserved = m (a + 43)\<rparr>"

text \<open>The entries, with the fields that are reported.\<close>

datatype mptable_entry =
  Mp_cpu (lapic_id: u8) (cpu_signature: u32)
| Mp_bus (bus_id: u8) (bus_string: "u8 list")
| Mp_ioapic (ioapic_id: u8) (ioapic_ver: u8) (ioapic_addr: ptr)
| Mp_int (intr_type: u8) (intr_bus: u8) (intr_irq: u8) (intr_ioapic: u8) (intr_intn: u8)

text \<open>
  Trailing blanks of a bus name are cut off from index \<open>j\<close> down; six blanks run out of the
  array.
\<close>

fun trim_bus :: "nat \<Rightarrow> u8 list \<Rightarrow> u8 list option" where
  "trim_bus 0 s = (if s ! 0 = 0x20 then None else Some s)"
| "trim_bus (Suc j) s = (if s ! Suc j = 0x20 then trim_bus j (s[Suc j := 0]) else Some s)"

text \<open>
  One entry: what is reported of it, and the address of the next. An entry of an unknown type
  is not skipped.
\<close>

definition mp_entry :: "bytes \<Rightarrow> u64 \<Rightarrow> (mptable_entry list \<times> u64) option" where
  "mp_entry m a =
     (if m a = 0 then Some ([Mp_cpu (m (a + 1)) (rd32 m (a + 4))], a + 20)
      else if m a = 1 then do {
        s \<leftarrow> trim_bus 5 (map (\<lambda>i. m (a + 2 + of_nat i)) [0..<6]);
        Some ([Mp_bus (m (a + 1)) s], a + 8)
      }
      else if m a = 2 then
        Some ([Mp_ioapic (m (a + 1)) (m (a + 2)) (pmm_vaddr (ucast (rd32 m (a + 4))))], a + 8)
      else if m a = 3 \<or> m a = 4 then
        Some ([Mp_int (m (a + 1)) (m (a + 4)) (m (a + 5)) (m (a + 6)) (m (a + 7))], a + 8)
      else Some ([], a))"

fun mp_entries :: "bytes \<Rightarrow> nat \<Rightarrow> u64 \<Rightarrow> mptable_entry list option" where
  "mp_entries m 0 a = Some []"
| "mp_entries m (Suc n) a = do {
     (e, a) \<leftarrow> mp_entry m a;
     es \<leftarrow> mp_entries m n a;
     Some (e @ es)
   }"

text \<open>The register window that is returned, with the entries that are reported on the way.\<close>

definition ioapic_init :: "bytes \<Rightarrow> (ptr \<times> mptable_entry list) option" where
  "ioapic_init m =
     (let p = find_mptable m in
      if p = 0 then None
      else do {
        let mpt = pmm_vaddr (ucast (mpf_physaddr (read_mpf m p)));
        es \<leftarrow> mp_entries m (unat (mpt_entry_count (read_mptable m mpt))) (mpt + 44);
        Some (pmm_vaddr 0xFEC00000, es)
      })"

end
