(* ===== verification/Unfold.thy ===== *)
theory Unfold
  imports Loader Pmm
begin

text \<open>
  The boot loader \<open>unfold\<close>: it turns what the multiboot loader left in memory into a memory
  map and a list of objects, finds the kernel among them, loads it and enters it. It runs with
  32-bit addresses, so its memory is indexed by \<open>u32\<close> and every sum of addresses wraps there.
  The two static arrays it fills are values of their own.
\<close>

type_synonym mem32 = "u32 \<Rightarrow> u8"

text \<open>The same memory for the readers of \<open>Bytes\<close> and \<open>Loader\<close>: high address bits are lost.\<close>

definition wide :: "mem32 \<Rightarrow> bytes" where "wide m a = m (ucast a)"

definition ld16 :: "mem32 \<Rightarrow> u32 \<Rightarrow> u16" where "ld16 m a = rd16 (wide m) (ucast a)"
definition ld32 :: "mem32 \<Rightarrow> u32 \<Rightarrow> u32" where "ld32 m a = rd32 (wide m) (ucast a)"
definition ld64 :: "mem32 \<Rightarrow> u32 \<Rightarrow> u64" where "ld64 m a = rd64 (wide m) (ucast a)"

subsection \<open>Structures\<close>

record multiboot_header =
  mb_flags :: u32
  mb_mem_lower :: u32
  mb_mem_upper :: u32
  mb_boot_device :: u32
  mb_cmdline :: u32
  mb_mods_count :: u32
  mb_mods_addr :: u32
  mb_syms0 :: u32
  mb_syms1 :: u32
  mb_syms2 :: u32
  mb_syms3 :: u32
  mb_mmap_count :: u32
  mb_mmap_addr :: u32

definition read_multiboot :: "mem32 \<Rightarrow> u32 \<Rightarrow> multiboot_header" where
  "read_multiboot m a = \<lparr>mb_flags = ld32 m a, mb_mem_lower = ld32 m (a + 4),
     mb_mem_upper = ld32 m (a + 8), mb_boot_device = ld32 m (a + 12), mb_cmdline = ld32 m (a + 16),
     mb_mods_count = ld32 m (a + 20), mb_mods_addr = ld32 m (a + 24), mb_syms0 = ld32 m (a + 28),
     mb_syms1 = ld32 m (a + 32), mb_syms2 = ld32 m (a + 36), mb_syms3 = ld32 m (a + 40),
     mb_mmap_count = ld32 m (a + 44), mb_mmap_addr = ld32 m (a + 48)\<rparr>"

record multiboot_mmap =
  mm_size :: u32
  mm_base_addr :: u64
  mm_length :: u64
  mm_type :: u32

definition read_mb_mmap :: "mem32 \<Rightarrow> u32 \<Rightarrow> multiboot_mmap" where
  "read_mb_mmap m a = \<lparr>mm_size = ld32 m a, mm_base_addr = ld64 m (a + 4),
     mm_length = ld64 m (a + 12), mm_type = ld32 m (a + 20)\<rparr>"

record multiboot_module =
  mod_start :: u32
  mod_end :: u32
  mod_string :: u32
  mod_reserved :: u32

definition read_module :: "mem32 \<Rightarrow> u32 \<Rightarrow> multiboot_module" where
  "read_module m a = \<lparr>mod_start = ld32 m a, mod_end = ld32 m (a + 4), mod_string = ld32 m (a + 8),
     mod_reserved = ld32 m (a + 12)\<rparr>"

definition MBOOT_FLAG_MODS :: u32 where "MBOOT_FLAG_MODS = 0x0008"
definition MBOOT_FLAG_MMAP :: u32 where "MBOOT_FLAG_MMAP = 0x0040"

record unfold_object =
  object_base :: u64
  object_size :: u32
  object_type :: u32
  object_name :: "u8 list"

definition UNFOLD_OBJECT_UNKNOWN :: u32 where "UNFOLD_OBJECT_UNKNOWN = 0xFFFFFFFF"
definition UNFOLD_OBJECT_PINION :: u32 where "UNFOLD_OBJECT_PINION = 1"

text \<open>The static variables; the pointer to the kernel's entry is its index in the list.\<close>

record unfold =
  umem :: mem32
  mmap :: "unfold_mmap option"
  object_list :: "unfold_object list option"
  pinion_image :: "nat option"

subsection \<open>The memory map\<close>

text \<open>
  The static array of 256 bytes holds the 16 bytes of the header and 15 entries; a write
  behind it is stuck.
\<close>

definition MMAP_ENTRIES :: nat where "MMAP_ENTRIES = 15"

definition mmap_add :: "u64 \<Rightarrow> u64 \<Rightarrow> unfold_mmap \<Rightarrow> unfold_mmap option" where
  "mmap_add b len mm = do {
     let n = unat (mmap_count mm);
     _ \<leftarrow> in_bounds n MMAP_ENTRIES;
     Some (mm\<lparr>mmap_total := mmap_total mm + len,
       mmap_entry := (mmap_entry mm)(n := \<lparr>entry_base = b, entry_size = len\<rparr>),
       mmap_count := mmap_count mm + 1\<rparr>)
   }"

text \<open>
  The loop over the map of the multiboot loader. Entries say how long they are, so the loop
  need not end.
\<close>

partial_function (option) mmap_loop ::
  "mem32 \<Rightarrow> u32 \<Rightarrow> u32 \<Rightarrow> u32 \<Rightarrow> unfold_mmap \<Rightarrow> unfold_mmap option" where
  "mmap_loop m n i p mm =
     (if i < n then do {
        let e = read_mb_mmap m p;
        mm \<leftarrow> (if mm_type e = 1 then mmap_add (mm_base_addr e) (mm_length e) mm else Some mm);
        mmap_loop m n (i + (mm_size e + 4)) (p + mm_size e + 4) mm
      } else Some mm)"

definition empty_mmap :: unfold_mmap where
  "empty_mmap = \<lparr>mmap_total = 0, mmap_count = 0, mmap_entry = (\<lambda>i. \<lparr>entry_base = 0, entry_size = 0\<rparr>)\<rparr>"

definition multiboot_mmap_init :: "multiboot_header \<Rightarrow> unfold \<Rightarrow> unfold option" where
  "multiboot_mmap_init mb u =
     (if mb_flags mb AND MBOOT_FLAG_MMAP \<noteq> 0 then do {
        mm \<leftarrow> mmap_loop (umem u) (mb_mmap_count mb) 0 (mb_mmap_addr mb) empty_mmap;
        Some (u\<lparr>mmap := Some mm\<rparr>)
      } else Some u)"

subsection \<open>The objects\<close>

text \<open>
  Copying a name of at most 48 bytes. The end is looked for in the string of the first
  module, not in the one that is copied.
\<close>

function copy_name :: "mem32 \<Rightarrow> u32 \<Rightarrow> u32 \<Rightarrow> nat \<Rightarrow> u8 list \<Rightarrow> u8 list" where
  "copy_name m first s j name =
     (if j < 48 then
        let name = name[j := m (s + of_nat j)] in
        if m (first + of_nat j) = 0 then name else copy_name m first s (Suc j) name
      else name)"
  by pat_completeness auto
termination
  by (relation "measure (\<lambda>(m, first, s, j, name). 48 - j)") auto

declare copy_name.simps [simp del]

text \<open>The length of a string; in a memory without a null character the loop does not end.\<close>

partial_function (option) strlen_from :: "mem32 \<Rightarrow> u32 \<Rightarrow> nat \<Rightarrow> nat option" where
  "strlen_from m s j = (if m (s + of_nat j) = 0 then Some j else strlen_from m s (Suc j))"

text \<open>Where the last component of a path starts, looking back from position \<open>j\<close>.\<close>

fun name_start :: "mem32 \<Rightarrow> u32 \<Rightarrow> nat \<Rightarrow> nat" where
  "name_start m s 0 = (if m s = byte_of (CHR ''/'') then 1 else 0)"
| "name_start m s (Suc j) =
     (if m (s + of_nat (Suc j)) = byte_of (CHR ''/'') then Suc (Suc j) else name_start m s j)"

fun match_length :: "mem32 \<Rightarrow> u32 \<Rightarrow> string \<Rightarrow> nat" where
  "match_length m p [] = 0"
| "match_length m p (c # cs) =
     (if m p = 0 \<or> m p \<noteq> byte_of c then 0 else Suc (match_length m (p + 1) cs))"

definition is_pinion_name :: "mem32 \<Rightarrow> u32 \<Rightarrow> bool option" where
  "is_pinion_name m s = do {
     n \<leftarrow> strlen_from m s 0;
     Some (match_length m (s + of_nat (name_start m s n)) ''pinion64'' = 8)
   }"

text \<open>
  The static array of 256 bytes holds the 8 bytes of the header and three objects of 64 bytes;
  it is zero at first.
\<close>

definition OBJECT_ENTRIES :: nat where "OBJECT_ENTRIES = 3"

definition module_object :: "mem32 \<Rightarrow> u32 \<Rightarrow> multiboot_module \<Rightarrow> unfold_object option" where
  "module_object m first md = do {
     pin \<leftarrow> is_pinion_name m (mod_string md);
     Some \<lparr>object_base = ucast (mod_start md), object_size = mod_end md - mod_start md,
       object_type = (if pin then UNFOLD_OBJECT_PINION else UNFOLD_OBJECT_UNKNOWN),
       object_name = (copy_name m first (mod_string md) 0 (replicate 48 0))[47 := 0]\<rparr>
   }"

function objects_loop :: "mem32 \<Rightarrow> u32 \<Rightarrow> u32 \<Rightarrow> nat \<Rightarrow> unfold_object list \<Rightarrow> unfold_object list option" where
  "objects_loop m mods n i objs =
     (if i < unat n then do {
        _ \<leftarrow> in_bounds i OBJECT_ENTRIES;
        obj \<leftarrow> module_object m (mod_string (read_module m mods)) (read_module m (mods + 16 * of_nat i));
        objects_loop m mods n (Suc i) (objs @ [obj])
      } else Some objs)"
  by pat_completeness auto
termination
  by (relation "measure (\<lambda>(m, mods, n, i, objs). unat n - i)") auto

declare objects_loop.simps [simp del]

definition multiboot_objects_init :: "multiboot_header \<Rightarrow> unfold \<Rightarrow> unfold option" where
  "multiboot_objects_init mb u =
     (if mb_flags mb AND MBOOT_FLAG_MODS \<noteq> 0 then do {
        objs \<leftarrow> objects_loop (umem u) (mb_mods_addr mb) (mb_mods_count mb) 0 [];
        Some (u\<lparr>object_list := Some objs\<rparr>)
      } else Some u)"

definition init_multiboot :: "u32 \<Rightarrow> unfold \<Rightarrow> unfold option" where
  "init_multiboot mboot u = do {
     let mb = read_multiboot (umem u) mboot;
     u \<leftarrow> multiboot_mmap_init mb u;
     multiboot_objects_init mb u
   }"

text \<open>\<open>init_mmap\<close> and \<open>init_object_list\<close> return whether they failed.\<close>

definition init_mmap :: "unfold \<Rightarrow> bool \<times> unfold" where
  "init_mmap u =
     (case mmap u of
        None \<Rightarrow> (True, u)
      | Some mm \<Rightarrow>
          (False, u\<lparr>mmap := Some (mm\<lparr>mmap_total :=
             sum_list (map (\<lambda>i. entry_size (mmap_entry mm i)) [0..<unat (mmap_count mm)])\<rparr>)\<rparr>))"

definition init_object_list :: "unfold \<Rightarrow> bool \<times> unfold" where
  "init_object_list u =
     (case object_list u of
        None \<Rightarrow> (True, u)
      | Some objs \<Rightarrow>
          (case find (\<lambda>i. object_type (objs ! i) = UNFOLD_OBJECT_PINION) [0..<length objs] of
             None \<Rightarrow> (False, u)
           | Some i \<Rightarrow> (False, u\<lparr>pinion_image := Some i\<rparr>)))"

subsection \<open>Loading the kernel\<close>

definition pinion_phys :: u32 where "pinion_phys = 0x00200000"
definition pinion_base :: u64 where "pinion_base = 0xFFFFFFFFC0200000"

text \<open>
  The bytes of a segment from index \<open>j\<close> on. The program header is read again for every byte.
  The index has 32 bits: a segment of 4 GB or more makes it wrap, which counts as not coming
  back.
\<close>

function load_bytes :: "u32 \<Rightarrow> u32 \<Rightarrow> u32 \<Rightarrow> nat \<Rightarrow> mem32 \<Rightarrow> mem32 option" where
  "load_bytes elf h phys j m =
     (let ph = read_phdr (wide m) (ucast h) in
      if j < unat (p_memsz ph) then
        if 2 ^ 32 \<le> j then None
        else load_bytes elf h phys (Suc j)
          (m(phys + of_nat j :=
             (if j < unat (p_filesz ph) then m (elf + ucast (p_offset ph) + of_nat j) else 0)))
      else Some m)"
  by pat_completeness auto
termination
  by (relation "measure (\<lambda>(elf, h, phys, j, m). 2 ^ 32 - j)") auto

declare load_bytes.simps [simp del]

function load_pinion_segments :: "u32 \<Rightarrow> nat \<Rightarrow> mem32 \<Rightarrow> mem32 option" where
  "load_pinion_segments elf i m =
     (let eh = read_ehdr (wide m) (ucast elf) in
      if i < unat (e_phnum eh) then do {
        let h = elf + (ucast (e_phoff eh) + ucast (e_phentsize eh) * of_nat i);
        let ph = read_phdr (wide m) (ucast h);
        let phys = ucast (p_vaddr ph) + pinion_phys;
        m \<leftarrow> (if p_type ph = 1 then load_bytes elf h phys 0 m else Some m);
        load_pinion_segments elf (Suc i) m
      } else Some m)"
  by pat_completeness auto
termination
proof (relation "measure (\<lambda>(elf, i, m). 2 ^ 16 - i)", simp, goal_cases)
  case (1 elf i m)
  have "unat (e_phnum (read_ehdr (wide m) (ucast elf))) < 2 ^ 16"
    by (rule less_le_trans [OF unsigned_less]) simp
  then show ?case using 1 by simp
qed

declare load_pinion_segments.simps [simp del]

definition load_pinion64 :: "u32 \<Rightarrow> mem32 \<Rightarrow> (u64 \<times> mem32) option" where
  "load_pinion64 elf m = do {
     m \<leftarrow> load_pinion_segments elf 0 m;
     Some (e_entry (read_ehdr (wide m) (ucast elf)) + pinion_base, m)
   }"

definition ELFCLASS64 :: u8 where "ELFCLASS64 = 2"
definition ELFDATA2LSB :: u8 where "ELFDATA2LSB = 1"
definition EM_AMD64 :: u16 where "EM_AMD64 = 62"

definition load_pinion :: "u32 \<Rightarrow> mem32 \<Rightarrow> (u64 \<times> mem32) option" where
  "load_pinion elf m =
     (let eh = read_ehdr (wide m) (ucast elf) in
      if \<not> elf_magic eh then Some (0, m)
      else if e_ident eh ! 4 = ELFCLASS64 \<and> e_ident eh ! 5 = ELFDATA2LSB \<and> e_machine eh = EM_AMD64
      then load_pinion64 elf m
      else Some (0, m))"

subsection \<open>Starting the kernel\<close>

text \<open>
  How \<open>init\<close> ends: it returns to \<open>boot.s\<close>, which halts, or it enters the kernel at an address
  with the memory map and the objects.
\<close>

datatype boot_outcome = Halted | Entered u64 unfold_mmap "unfold_object list" mem32

definition relocate_object :: "unfold_object \<Rightarrow> unfold_object" where
  "relocate_object obj = obj\<lparr>object_base := object_base obj + 0xFFFFFFFFC0000000\<rparr>"

definition unfold_init :: "u32 \<Rightarrow> u32 \<Rightarrow> unfold \<Rightarrow> boot_outcome option" where
  "unfold_init mboot magic u =
     (if magic \<noteq> 0x2BADB002 then Some Halted
      else do {
        u \<leftarrow> init_multiboot mboot u;
        let (failed, u) = init_mmap u;
        if failed then Some Halted
        else do {
          let (failed, u) = init_object_list u;
          if failed then Some Halted
          else case (pinion_image u, object_list u, mmap u) of
            (Some i, Some objs, Some mm) \<Rightarrow>
              if 2 ^ 32 \<le> object_base (objs ! i) then Some Halted
              else do {
                (entry, m) \<leftarrow> load_pinion (ucast (object_base (objs ! i))) (umem u);
                Some (Entered entry mm (map relocate_object objs) m)
              }
          | _ \<Rightarrow> Some Halted
        }
      })"

end
