(* ===== verification/Unfold_Specs.thy ===== *)
theory Unfold_Specs
  imports Unfold Loader_Specs
begin

text \<open>
  What the boot loader achieves: the memory map lists the available regions, the objects are
  the modules with the kernel among them, and the segments of the kernel lie where its
  virtual addresses will be mapped.
\<close>

subsection \<open>The memory map\<close>

text \<open>
  \<open>mb_regions m n i p es\<close>: from address \<open>p\<close> on, \<open>i\<close> bytes into a map of \<open>n\<close> bytes, memory holds
  the entries \<open>es\<close>, each as long as it says, and then the map is over.
\<close>

fun mb_regions :: "mem32 \<Rightarrow> u32 \<Rightarrow> u32 \<Rightarrow> u32 \<Rightarrow> multiboot_mmap list \<Rightarrow> bool" where
  "mb_regions m n i p [] \<longleftrightarrow> \<not> i < n"
| "mb_regions m n i p (e # es) \<longleftrightarrow> i < n \<and> read_mb_mmap m p = e \<and>
     mb_regions m n (i + (mm_size e + 4)) (p + mm_size e + 4) es"

definition available :: "multiboot_mmap list \<Rightarrow> pmm_map_entry list" where
  "available es = map (\<lambda>e. \<lparr>entry_base = mm_base_addr e, entry_size = mm_length e\<rparr>)
     (filter (\<lambda>e. mm_type e = 1) es)"

definition mmap_lists :: "unfold_mmap \<Rightarrow> pmm_map_entry list \<Rightarrow> bool" where
  "mmap_lists mm xs \<longleftrightarrow> unat (mmap_count mm) = length xs \<and>
     (\<forall>k < length xs. mmap_entry mm k = xs ! k) \<and> mmap_total mm = sum_list (map entry_size xs)"

lemma mmap_lists_empty: "mmap_lists empty_mmap []"
  by (simp add: mmap_lists_def empty_mmap_def)

lemma mmap_lists_add:
  assumes "mmap_lists mm xs" "length xs < MMAP_ENTRIES"
  obtains mm' where "mmap_add b len mm = Some mm'"
    "mmap_lists mm' (xs @ [\<lparr>entry_base = b, entry_size = len\<rparr>])"
proof -
  have n: "unat (mmap_count mm) = length xs" using assms(1) by (simp add: mmap_lists_def)
  have "unat (mmap_count mm + 1) = Suc (length xs)"
    using n assms(2) by (simp add: MMAP_ENTRIES_def unat_word_ariths)
  then show ?thesis
    using that assms n
    by (auto simp: mmap_add_def Let_def mmap_lists_def nth_append less_Suc_eq)
qed

lemma mmap_add_full: "mmap_lists mm xs \<Longrightarrow> MMAP_ENTRIES \<le> length xs \<Longrightarrow> mmap_add b len mm = None"
  by (simp add: mmap_lists_def mmap_add_def Let_def)

lemma mmap_loop_lists:
  assumes "mb_regions m n i p es" "mmap_lists mm xs" "length xs + length (available es) \<le> MMAP_ENTRIES"
  shows "\<exists>mm'. mmap_loop m n i p mm = Some mm' \<and> mmap_lists mm' (xs @ available es)"
  using assms
proof (induction es arbitrary: i p mm xs)
  case Nil
  then show ?case by (subst mmap_loop.simps) (simp add: available_def)
next
  case (Cons e es)
  let ?next = "mmap_loop m n (i + (mm_size e + 4)) (p + mm_size e + 4)"
  show ?case
  proof (cases "mm_type e = 1")
    case True
    let ?x = "\<lparr>entry_base = mm_base_addr e, entry_size = mm_length e\<rparr>"
    have av: "available (e # es) = ?x # available es" using True by (simp add: available_def)
    obtain mm' where mm': "mmap_add (mm_base_addr e) (mm_length e) mm = Some mm'" "mmap_lists mm' (xs @ [?x])"
      by (rule mmap_lists_add [OF Cons.prems(2), of "mm_base_addr e" "mm_length e"])
        (use Cons.prems(3) av in auto)
    have "mmap_loop m n i p mm = ?next mm'"
      using Cons.prems(1) True mm'(1) by (subst mmap_loop.simps) (simp add: Let_def)
    then show ?thesis using Cons.IH [OF _ mm'(2)] Cons.prems(1,3) av by simp
  next
    case False
    have av: "available (e # es) = available es" using False by (simp add: available_def)
    have "mmap_loop m n i p mm = ?next mm"
      using Cons.prems(1) False by (subst mmap_loop.simps) (simp add: Let_def)
    then show ?thesis using Cons.IH [OF _ Cons.prems(2)] Cons.prems(1,3) av by simp
  qed
qed

text \<open>One region too many runs over the static array.\<close>

lemma mmap_loop_overflow:
  assumes "mb_regions m n i p es" "mmap_lists mm xs" "length xs \<le> MMAP_ENTRIES"
    "MMAP_ENTRIES < length xs + length (available es)"
  shows "mmap_loop m n i p mm = None"
  using assms
proof (induction es arbitrary: i p mm xs)
  case Nil
  then show ?case by (simp add: available_def)
next
  case (Cons e es)
  let ?next = "mmap_loop m n (i + (mm_size e + 4)) (p + mm_size e + 4)"
  show ?case
  proof (cases "mm_type e = 1")
    case True
    let ?x = "\<lparr>entry_base = mm_base_addr e, entry_size = mm_length e\<rparr>"
    have av: "available (e # es) = ?x # available es" using True by (simp add: available_def)
    show ?thesis
    proof (cases "length xs < MMAP_ENTRIES")
      case room: True
      obtain mm' where mm': "mmap_add (mm_base_addr e) (mm_length e) mm = Some mm'" "mmap_lists mm' (xs @ [?x])"
        by (rule mmap_lists_add [OF Cons.prems(2) room, of "mm_base_addr e" "mm_length e"]) auto
      have "mmap_loop m n i p mm = ?next mm'"
        using Cons.prems(1) True mm'(1) by (subst mmap_loop.simps) (simp add: Let_def)
      then show ?thesis using Cons.IH [OF _ mm'(2)] Cons.prems(1,4) room av by simp
    next
      case full: False
      then have "mmap_add (mm_base_addr e) (mm_length e) mm = None"
        using mmap_add_full [OF Cons.prems(2)] by simp
      then show ?thesis using Cons.prems(1) True by (subst mmap_loop.simps) (simp add: Let_def)
    qed
  next
    case False
    have av: "available (e # es) = available es" using False by (simp add: available_def)
    have "mmap_loop m n i p mm = ?next mm"
      using Cons.prems(1) False by (subst mmap_loop.simps) (simp add: Let_def)
    then show ?thesis using Cons.IH [OF _ Cons.prems(2)] Cons.prems(1,3,4) av by simp
  qed
qed

lemma init_mmap_total:
  assumes "mmap u = Some mm" "mmap_lists mm xs"
  shows "init_mmap u = (False, u)"
proof -
  have n: "unat (mmap_count mm) = length xs" using assms(2) by (simp add: mmap_lists_def)
  have "map (\<lambda>i. entry_size (mmap_entry mm i)) [0..<unat (mmap_count mm)] = map entry_size xs"
    unfolding n by (rule nth_equalityI) (use assms(2) in \<open>simp_all add: mmap_lists_def\<close>)
  then have "sum_list (map (\<lambda>i. entry_size (mmap_entry mm i)) [0..<unat (mmap_count mm)]) = mmap_total mm"
    using assms(2) by (simp add: mmap_lists_def)
  then show ?thesis using assms(1) by (simp add: init_mmap_def)
qed

lemma multiboot_map_lists:
  assumes "mb_flags mb AND MBOOT_FLAG_MMAP \<noteq> 0"
    and "mb_regions (umem u) (mb_mmap_count mb) 0 (mb_mmap_addr mb) es"
  shows "case multiboot_mmap_init mb u of
      Some u' \<Rightarrow> length (available es) \<le> MMAP_ENTRIES \<and> init_mmap u' = (False, u') \<and>
        (\<exists>mm. u' = u\<lparr>mmap := Some mm\<rparr> \<and> mmap_lists mm (available es))
    | None \<Rightarrow> MMAP_ENTRIES < length (available es)"
proof (cases "length (available es) \<le> MMAP_ENTRIES")
  case True
  then obtain mm where mm: "mmap_loop (umem u) (mb_mmap_count mb) 0 (mb_mmap_addr mb) empty_mmap = Some mm"
    "mmap_lists mm (available es)"
    using mmap_loop_lists [OF assms(2) mmap_lists_empty] by auto
  then show ?thesis using True assms(1) init_mmap_total [of "u\<lparr>mmap := Some mm\<rparr>" mm]
    by (auto simp: multiboot_mmap_init_def)
next
  case False
  then show ?thesis using assms(1) mmap_loop_overflow [OF assms(2) mmap_lists_empty]
    by (simp add: multiboot_mmap_init_def)
qed

subsection \<open>The segments of the kernel\<close>

definition range32 :: "u32 \<Rightarrow> nat \<Rightarrow> u32 set" where
  "range32 a n = {a + of_nat i |i. i < n}"

lemma range32_iff: "n \<le> 2 ^ 32 \<Longrightarrow> b \<in> range32 a n \<longleftrightarrow> unat (b - a) < n"
proof
  assume n: "n \<le> 2 ^ 32" "b \<in> range32 a n"
  then obtain i where i: "i < n" "b = a + of_nat i" by (auto simp: range32_def)
  then have "i < 2 ^ 32" using n(1) by simp
  then show "unat (b - a) < n" using i by (simp add: unsigned_of_nat take_bit_nat_eq_self)
next
  assume "unat (b - a) < n"
  moreover have "b = a + of_nat (unat (b - a))" by simp
  ultimately show "b \<in> range32 a n" unfolding range32_def by blast
qed

lemma low_add: "(ucast (x + y :: u64) :: u32) = ucast x + ucast y"
proof -
  have m: "a mod 18446744073709551616 mod 4294967296 = a mod 4294967296" for a :: int
    by (rule mod_mod_cancel) simp
  have "(a + b) mod 4294967296 =
      (a mod 18446744073709551616 + b mod 18446744073709551616) mod 4294967296" for a b :: int
    by (metis m mod_add_eq)
  then show ?thesis by transfer (simp add: take_bit_eq_mod mod_mod_cancel)
qed

lemma low_up: "(ucast (ucast a :: u64) :: u32) = a"
  by (rule bit_word_eqI) (auto simp: bit_simps)

lemma low_of_nat: "(ucast (of_nat i :: u64) :: u32) = of_nat i"
  by transfer (simp add: take_bit_eq_mod mod_mod_cancel)

text \<open>Reading a structure depends on its bytes only.\<close>

lemma wide_agree:
  assumes "\<And>b. b \<in> range32 a n \<Longrightarrow> m b = m' b"
  shows "agree (range_of (ucast a) n) (wide m) (wide m')"
  unfolding agree_def
proof
  fix b assume "b \<in> range_of (ucast a) n"
  then obtain i where "i < n" "b = ucast a + of_nat i" by (auto simp: range_of_def)
  moreover have "(ucast (ucast a + of_nat i :: u64) :: u32) = a + of_nat i"
    by (simp add: low_add low_of_nat low_up)
  ultimately show "wide m b = wide m' b" using assms by (auto simp: wide_def range32_def)
qed

lemma read_phdr_wide:
  "(\<And>b. b \<in> range32 h 56 \<Longrightarrow> m b = m' b) \<Longrightarrow> read_phdr (wide m) (ucast h) = read_phdr (wide m') (ucast h)"
  by (rule read_phdr_cong, rule wide_agree)

lemma read_ehdr_wide:
  "(\<And>b. b \<in> range32 h 64 \<Longrightarrow> m b = m' b) \<Longrightarrow> read_ehdr (wide m) (ucast h) = read_ehdr (wide m') (ucast h)"
  by (rule read_ehdr_cong, rule wide_agree)

text \<open>Where a segment goes, where it comes from, and the byte it puts at an address.\<close>

definition pseg_dest :: "elf64_phdr \<Rightarrow> u32 set" where
  "pseg_dest ph = range32 (ucast (p_vaddr ph) + pinion_phys) (unat (p_memsz ph))"

definition pseg_source :: "u32 \<Rightarrow> elf64_phdr \<Rightarrow> u32 set" where
  "pseg_source elf ph = range32 (elf + ucast (p_offset ph)) (min (unat (p_filesz ph)) (unat (p_memsz ph)))"

definition pseg_byte :: "mem32 \<Rightarrow> u32 \<Rightarrow> elf64_phdr \<Rightarrow> u32 \<Rightarrow> u8" where
  "pseg_byte m elf ph b =
     (let k = unat (b - (ucast (p_vaddr ph) + pinion_phys)) in
      if k < unat (p_filesz ph) then m (elf + ucast (p_offset ph) + of_nat k) else 0)"

lemma load_bytes_run:
  assumes "read_phdr (wide m) (ucast h) = ph" "unat (p_memsz ph) \<le> 2 ^ 32" "j \<le> unat (p_memsz ph)"
    and "pseg_dest ph \<inter> range32 h 56 = {}" "pseg_dest ph \<inter> pseg_source elf ph = {}"
  shows "load_bytes elf h (ucast (p_vaddr ph) + pinion_phys) j m = Some (\<lambda>b.
    let k = unat (b - (ucast (p_vaddr ph) + pinion_phys)) in
    if j \<le> k \<and> k < unat (p_memsz ph) then pseg_byte m elf ph b else m b)"
  using assms
proof (induction "unat (p_memsz ph) - j" arbitrary: j m)
  case 0
  then have "j = unat (p_memsz ph)" by simp
  then show ?case using 0 by (subst load_bytes.simps) (auto simp: Let_def fun_eq_iff)
next
  case (Suc d)
  let ?p = "ucast (p_vaddr ph) + pinion_phys" and ?n = "unat (p_memsz ph)"
  let ?s = "elf + ucast (p_offset ph)"
  have j: "j < ?n" "j < 2 ^ 32" using Suc.hyps(2) Suc.prems(2) by simp_all
  let ?v = "if j < unat (p_filesz ph) then m (?s + of_nat j) else 0"
  let ?m = "m(?p + of_nat j := ?v)"
  have uj: "unat (of_nat j :: u32) = j" using j(2) by (simp add: unsigned_of_nat take_bit_nat_eq_self)
  have d: "?p + of_nat j \<in> pseg_dest ph" using j(1) by (auto simp: pseg_dest_def range32_def)
  have "?m b = m b" if "b \<in> range32 h 56" for b using that d Suc.prems(4) by auto
  then have ph: "read_phdr (wide ?m) (ucast h) = ph"
    using read_phdr_wide [of h ?m m] Suc.prems(1) by blast
  have src: "?m (?s + of_nat k) = m (?s + of_nat k)" if "k < unat (p_filesz ph)" "k < ?n" for k
  proof -
    have "?s + of_nat k \<in> pseg_source elf ph" using that by (auto simp: pseg_source_def range32_def)
    then show ?thesis using d Suc.prems(5) by auto
  qed
  have "load_bytes elf h ?p j m = load_bytes elf h ?p (Suc j) ?m"
    using j Suc.prems(1) by (subst load_bytes.simps) (simp add: Let_def)
  also have "\<dots> = Some (\<lambda>b. let k = unat (b - ?p) in
      if Suc j \<le> k \<and> k < ?n then pseg_byte ?m elf ph b else ?m b)"
    by (rule Suc.hyps(1)) (use Suc.hyps(2) Suc.prems j ph in simp_all)
  also have "\<dots> = Some (\<lambda>b. let k = unat (b - ?p) in if j \<le> k \<and> k < ?n then pseg_byte m elf ph b else m b)"
  proof -
    have "(if Suc j \<le> unat (b - ?p) \<and> unat (b - ?p) < ?n then pseg_byte ?m elf ph b else ?m b) =
        (if j \<le> unat (b - ?p) \<and> unat (b - ?p) < ?n then pseg_byte m elf ph b else m b)" for b
    proof (cases "b = ?p + of_nat j")
      case True
      then show ?thesis using uj j(1) by (simp add: pseg_byte_def)
    next
      case False
      have "b = ?p + of_nat (unat (b - ?p))" by simp
      then have nj: "unat (b - ?p) \<noteq> j" using False by metis
      have mb: "?m b = m b" using False by simp
      have "pseg_byte ?m elf ph b = pseg_byte m elf ph b" if "unat (b - ?p) < ?n"
      proof (cases "unat (b - ?p) < unat (p_filesz ph)")
        case True
        then show ?thesis unfolding pseg_byte_def Let_def using src [OF True that] by (simp only: if_True)
      qed (simp add: pseg_byte_def)
      moreover have "Suc j \<le> unat (b - ?p) \<longleftrightarrow> j \<le> unat (b - ?p)" using nj by linarith
      ultimately show ?thesis unfolding mb by (simp only: cong: if_cong conj_cong)
    qed
    then show ?thesis by (simp add: Let_def)
  qed
  finally show ?case .
qed

text \<open>The parts of the image, as they lie in memory before anything is loaded.\<close>

definition pnum :: "mem32 \<Rightarrow> u32 \<Rightarrow> nat" where
  "pnum m elf = unat (e_phnum (read_ehdr (wide m) (ucast elf)))"

definition phdr_at :: "mem32 \<Rightarrow> u32 \<Rightarrow> nat \<Rightarrow> u32" where
  "phdr_at m elf i = (let eh = read_ehdr (wide m) (ucast elf) in
     elf + (ucast (e_phoff eh) + ucast (e_phentsize eh) * of_nat i))"

definition pseg :: "mem32 \<Rightarrow> u32 \<Rightarrow> nat \<Rightarrow> elf64_phdr" where
  "pseg m elf i = read_phdr (wide m) (ucast (phdr_at m elf i))"

definition psegs :: "mem32 \<Rightarrow> u32 \<Rightarrow> nat \<Rightarrow> nat set" where
  "psegs m elf k = {i. i < k \<and> p_type (pseg m elf i) = 1}"

definition pimage :: "mem32 \<Rightarrow> u32 \<Rightarrow> u32 set" where
  "pimage m elf = range32 elf 64 \<union> (\<Union>i < pnum m elf. range32 (phdr_at m elf i) 56) \<union>
     (\<Union>i \<in> psegs m elf (pnum m elf). pseg_source elf (pseg m elf i))"

text \<open>A loadable kernel: segments below 4 GB, apart from each other and from the image.\<close>

definition pimage_ok :: "mem32 \<Rightarrow> u32 \<Rightarrow> bool" where
  "pimage_ok m elf \<longleftrightarrow> (\<forall>i \<in> psegs m elf (pnum m elf).
     unat (p_memsz (pseg m elf i)) \<le> 2 ^ 32 \<and> pseg_dest (pseg m elf i) \<inter> pimage m elf = {} \<and>
     (\<forall>j \<in> psegs m elf (pnum m elf). j \<noteq> i \<longrightarrow> pseg_dest (pseg m elf i) \<inter> pseg_dest (pseg m elf j) = {}))"

text \<open>Memory with the first \<open>k\<close> segments in place.\<close>

definition ploaded :: "mem32 \<Rightarrow> u32 \<Rightarrow> nat \<Rightarrow> mem32 \<Rightarrow> bool" where
  "ploaded m elf k m' \<longleftrightarrow>
     (\<forall>i \<in> psegs m elf k. \<forall>b \<in> pseg_dest (pseg m elf i). m' b = pseg_byte m elf (pseg m elf i) b) \<and>
     (\<forall>b. b \<notin> (\<Union>i \<in> psegs m elf k. pseg_dest (pseg m elf i)) \<longrightarrow> m' b = m b)"

lemma psegs_Suc:
  "psegs m elf (Suc k) = (if p_type (pseg m elf k) = 1 then insert k (psegs m elf k) else psegs m elf k)"
  by (auto simp: psegs_def less_Suc_eq)

lemma psegs_mono: "k \<le> n \<Longrightarrow> psegs m elf k \<subseteq> psegs m elf n"
  by (auto simp: psegs_def)

lemma ploaded_same:
  assumes "pimage_ok m elf" "ploaded m elf k m'" "k \<le> pnum m elf"
  shows "b \<in> pimage m elf \<Longrightarrow> m' b = m b"
    and "read_ehdr (wide m') (ucast elf) = read_ehdr (wide m) (ucast elf)"
    and "i < pnum m elf \<Longrightarrow> read_phdr (wide m') (ucast (phdr_at m elf i)) = pseg m elf i"
    and "i \<in> psegs m elf (pnum m elf) \<Longrightarrow> b \<in> pseg_dest (pseg m elf i) \<Longrightarrow>
      pseg_byte m' elf (pseg m elf i) b = pseg_byte m elf (pseg m elf i) b"
proof -
  have same: "m' b = m b" if "b \<in> pimage m elf" for b
  proof -
    have "b \<notin> (\<Union>i \<in> psegs m elf k. pseg_dest (pseg m elf i))"
      using assms(1) that psegs_mono [OF assms(3)] unfolding pimage_ok_def by blast
    then show ?thesis using assms(2) by (simp add: ploaded_def)
  qed
  then show "b \<in> pimage m elf \<Longrightarrow> m' b = m b" .
  show "read_ehdr (wide m') (ucast elf) = read_ehdr (wide m) (ucast elf)"
    by (rule read_ehdr_wide) (simp add: same pimage_def)
  show "read_phdr (wide m') (ucast (phdr_at m elf i)) = pseg m elf i" if "i < pnum m elf"
    unfolding pseg_def by (rule read_phdr_wide) (use that same in \<open>auto simp: pimage_def\<close>)
  show "pseg_byte m' elf (pseg m elf i) b = pseg_byte m elf (pseg m elf i) b"
    if i: "i \<in> psegs m elf (pnum m elf)" and b: "b \<in> pseg_dest (pseg m elf i)"
  proof -
    let ?ph = "pseg m elf i" and ?k = "unat (b - (ucast (p_vaddr (pseg m elf i)) + pinion_phys))"
    have "unat (p_memsz ?ph) \<le> 2 ^ 32" using assms(1) i unfolding pimage_ok_def by blast
    then have k: "?k < unat (p_memsz ?ph)" using b by (simp add: pseg_dest_def range32_iff)
    have "m' (elf + ucast (p_offset ?ph) + of_nat ?k) = m (elf + ucast (p_offset ?ph) + of_nat ?k)"
      if "?k < unat (p_filesz ?ph)"
    proof -
      have "elf + ucast (p_offset ?ph) + of_nat ?k \<in> pseg_source elf ?ph"
        unfolding pseg_source_def range32_def using that k by (intro CollectI exI [of _ ?k]) simp
      then show ?thesis using same i unfolding pimage_def by blast
    qed
    then show ?thesis by (simp add: pseg_byte_def Let_def)
  qed
qed

lemma ploaded_step:
  assumes ok: "pimage_ok m elf" and l: "ploaded m elf k m1" and k: "k < pnum m elf"
    and t: "p_type (pseg m elf k) = 1"
  shows "\<exists>m2. load_bytes elf (phdr_at m elf k) (ucast (p_vaddr (pseg m elf k)) + pinion_phys) 0 m1 = Some m2 \<and>
    ploaded m elf (Suc k) m2"
proof -
  let ?ph = "pseg m elf k"
  have ks: "k \<in> psegs m elf (pnum m elf)" using k t by (simp add: psegs_def)
  have kn: "k \<le> pnum m elf" using k by simp
  note same = ploaded_same [OF ok l kn]
  have sz: "unat (p_memsz ?ph) \<le> 2 ^ 32" and di: "pseg_dest ?ph \<inter> pimage m elf = {}"
    and dj: "\<And>j. j \<in> psegs m elf (pnum m elf) \<Longrightarrow> j \<noteq> k \<Longrightarrow> pseg_dest ?ph \<inter> pseg_dest (pseg m elf j) = {}"
    using ok ks unfolding pimage_ok_def by blast+
  have d1: "pseg_dest ?ph \<inter> range32 (phdr_at m elf k) 56 = {}" "pseg_dest ?ph \<inter> pseg_source elf ?ph = {}"
    using di ks k unfolding pimage_def by blast+
  define m2 where "m2 = (\<lambda>b. if b \<in> pseg_dest ?ph then pseg_byte m elf ?ph b else m1 b)"
  have eq: "(\<lambda>b. let i = unat (b - (ucast (p_vaddr ?ph) + pinion_phys)) in
      if 0 \<le> i \<and> i < unat (p_memsz ?ph) then pseg_byte m1 elf ?ph b else m1 b) = m2"
    using same(4) [OF ks] sz by (auto simp: m2_def fun_eq_iff Let_def pseg_dest_def range32_iff)
  have run: "load_bytes elf (phdr_at m elf k) (ucast (p_vaddr ?ph) + pinion_phys) 0 m1 = Some m2"
    using load_bytes_run [OF same(3) [OF k] sz _ d1, of 0] unfolding eq by simp
  have "ploaded m elf (Suc k) m2"
    unfolding ploaded_def psegs_Suc using t
  proof (simp, intro conjI ballI allI impI)
    fix b assume "b \<in> pseg_dest ?ph"
    then show "m2 b = pseg_byte m elf ?ph b" by (simp add: m2_def)
  next
    fix i b assume i: "i \<in> psegs m elf k" "b \<in> pseg_dest (pseg m elf i)"
    then have "i \<in> psegs m elf (pnum m elf)" "i \<noteq> k" using psegs_mono [OF kn] by (auto simp: psegs_def)
    then have "b \<notin> pseg_dest ?ph" using dj i(2) by blast
    then show "m2 b = pseg_byte m elf (pseg m elf i) b" using l i by (simp add: m2_def ploaded_def)
  next
    fix b assume "b \<notin> pseg_dest ?ph \<and> (\<forall>i \<in> psegs m elf k. b \<notin> pseg_dest (pseg m elf i))"
    then show "m2 b = m b" using l by (simp add: m2_def ploaded_def)
  qed
  with run show ?thesis by blast
qed

lemma load_pinion_segments_run:
  assumes ok: "pimage_ok m elf" and l: "ploaded m elf k m1" and k: "k \<le> pnum m elf"
  shows "\<exists>m2. load_pinion_segments elf k m1 = Some m2 \<and> ploaded m elf (pnum m elf) m2"
  using l k
proof (induction "pnum m elf - k" arbitrary: k m1)
  case 0
  then have "k = pnum m elf" by simp
  then show ?case using 0 ploaded_same(2) [OF ok 0(2,3)]
    by (subst load_pinion_segments.simps) (simp add: pnum_def)
next
  case (Suc d)
  have lt: "k < pnum m elf" using Suc.hyps(2) by simp
  note same = ploaded_same [OF ok Suc.prems]
  let ?ph = "pseg m elf k"
  have h: "elf + (ucast (e_phoff (read_ehdr (wide m) (ucast elf))) +
      ucast (e_phentsize (read_ehdr (wide m) (ucast elf))) * of_nat k) = phdr_at m elf k"
    by (simp add: phdr_at_def Let_def)
  have n: "k < unat (e_phnum (read_ehdr (wide m) (ucast elf)))" using lt by (simp add: pnum_def)
  obtain m2 where m2: "(if p_type ?ph = 1
      then load_bytes elf (phdr_at m elf k) (ucast (p_vaddr ?ph) + pinion_phys) 0 m1 else Some m1) = Some m2"
    "ploaded m elf (Suc k) m2"
  proof (cases "p_type ?ph = 1")
    case True
    then show ?thesis using that ploaded_step [OF ok Suc.prems(1) lt True] by auto
  next
    case False
    then show ?thesis using that Suc.prems(1) by (simp add: ploaded_def psegs_Suc)
  qed
  have "load_pinion_segments elf k m1 = load_pinion_segments elf (Suc k) m2"
    using n m2(1) by (subst load_pinion_segments.simps) (simp add: Let_def same(2) same(3) [OF lt] h split: if_splits)
  then show ?case using Suc.hyps(1) [OF _ m2(2)] Suc.hyps(2) lt by simp
qed

lemma load_pinion64_run:
  assumes "pimage_ok m elf"
  shows "\<exists>m'. load_pinion64 elf m = Some (e_entry (read_ehdr (wide m) (ucast elf)) + pinion_base, m') \<and>
    ploaded m elf (pnum m elf) m'"
proof -
  have "ploaded m elf 0 m" by (simp add: ploaded_def psegs_def)
  from load_pinion_segments_run [OF assms this] obtain m' where
    m': "load_pinion_segments elf 0 m = Some m'" "ploaded m elf (pnum m elf) m'" by auto
  then show ?thesis using ploaded_same(2) [OF assms m'(2)] by (simp add: load_pinion64_def)
qed

text \<open>
  The kernel's virtual address of what was loaded for \<open>v\<close> is \<open>v + pinion_base\<close>: the window of
  \<open>page.c\<close> maps it to the physical address it was put at.
\<close>

lemma pinion_base_window:
  assumes "unat v + 0x200000 < 0x20000000"
  shows "pmm_vaddr (v + ucast pinion_phys) = v + pinion_base"
proof -
  have "unat (v + 0x200000) = unat v + 0x200000"
    using assms by (simp add: unat_word_ariths)
  then have "v + 0x200000 < 0x20000000" using assms by (simp add: word_less_nat_alt)
  then show ?thesis by (simp add: pmm_vaddr_def pinion_phys_def pinion_base_def page_base_def)
qed

end
