(* ===== verification/Call_Errors.thy ===== *)
theory Call_Errors
  imports Kernel_Specs Samples
begin

text \<open>
  Calls that report failure: which arguments make them fail, and that a failed call leaves the
  kernel as it was.
\<close>

fun fails :: "api_result \<Rightarrow> bool" where
  "fails (R_bool b) \<longleftrightarrow> \<not> b"
| "fails (R_state b r) \<longleftrightarrow> \<not> b"
| "fails (R_pagefault b i) \<longleftrightarrow> \<not> b"
| "fails (R_miscfault b i) \<longleftrightarrow> \<not> b"
| "fails (R_zombie b i) \<longleftrightarrow> \<not> b"
| "fails r \<longleftrightarrow> False"

definition entry_of :: "kernel \<Rightarrow> u32 \<Rightarrow> ptr" where
  "entry_of s n = (if unat n < TCB_LIMIT then tcb_entry s (unat n) else 0)"

definition in_state :: "kernel \<Rightarrow> ptr \<Rightarrow> u16 set \<Rightarrow> bool" where
  "in_state s p A \<longleftrightarrow> p \<noteq> 0 \<and> st s p \<in> A"

text \<open>
  The documented reasons for a failure: no such thread, a thread in the wrong state, a missing
  structure, an empty queue, an index or vector out of range. \<open>page_set\<close> is not covered: it
  fails half way through.
\<close>

fun rejected :: "kernel \<Rightarrow> api_call \<Rightarrow> bool" where
  "rejected s (Thread_pause n) \<longleftrightarrow> \<not> in_state s (target n s)
     {TCB_STATE_SUSPENDED, TCB_STATE_SUSPENDEDWAITING, TCB_STATE_WAITING, TCB_STATE_QUEUED, TCB_STATE_RUNNING}"
| "rejected s (Thread_resume n) \<longleftrightarrow>
     \<not> in_state s (target n s) {TCB_STATE_SUSPENDED, TCB_STATE_SUSPENDEDWAITING}"
| "rejected s (Thread_reap n) \<longleftrightarrow> \<not> in_state s (entry_of s n) {TCB_STATE_SUSPENDED}"
| "rejected s (Thread_pull_state n cls r) \<longleftrightarrow> r = None \<or>
     \<not> in_state s (entry_of s n) {TCB_STATE_SUSPENDED, TCB_STATE_SUSPENDEDWAITING}"
| "rejected s (Thread_push_state n cls r) \<longleftrightarrow> r = None \<or>
     \<not> in_state s (entry_of s n) {TCB_STATE_SUSPENDED, TCB_STATE_SUSPENDEDWAITING}"
| "rejected s (Interrupt_set_tap i v) \<longleftrightarrow> TAP_COUNT \<le> unat i \<or> v AND 0xC000 \<noteq> 0"
| "rejected s (Fault_get_pagefault i) \<longleftrightarrow> i = None \<or> pagefault_queue s = 0"
| "rejected s (Fault_get_miscfault i) \<longleftrightarrow> i = None \<or> miscfault_queue s = 0"
| "rejected s (Fault_get_zombie i) \<longleftrightarrow> i = None \<or> zombie_queue s = 0"
| "rejected s c \<longleftrightarrow> False"

fun is_page_set :: "api_call \<Rightarrow> bool" where
  "is_page_set (Page_set v p fl z) \<longleftrightarrow> True"
| "is_page_set c \<longleftrightarrow> False"

lemma tcb_get_entry: "tcb_table_lock s = 0 \<Longrightarrow> tcb_get n s = Some (entry_of s n, s)"
  by (simp add: tcb_get_eq entry_of_def)

lemma pause_fails:
  assumes "caller_ok s" "apilogic_thread_pause n s = Some (r, t)"
  shows "(\<not> r \<longleftrightarrow> rejected s (Thread_pause n)) \<and> (\<not> r \<longrightarrow> t = s)"
proof -
  obtain L F where inv: "kernel_inv L F s" "active s \<in> live s" using assms(1) by (elim caller_okE)
  show ?thesis
    using assms(2) unfolding apilogic_thread_pause_def self_lookup [OF inv]
    by (auto simp: in_state_def bind_eq_Some_conv split: if_splits)
qed

lemma resume_fails:
  assumes "caller_ok s" "apilogic_thread_resume n s = Some (r, t)"
  shows "(\<not> r \<longleftrightarrow> rejected s (Thread_resume n)) \<and> (\<not> r \<longrightarrow> t = s)"
proof -
  obtain L F where inv: "kernel_inv L F s" "active s \<in> live s" using assms(1) by (elim caller_okE)
  show ?thesis
    using assms(2) unfolding apilogic_thread_resume_def self_lookup [OF inv]
    by (auto simp: in_state_def bind_eq_Some_conv split: if_splits)
qed

lemmas call_defs = apilogic_thread_reap_def apilogic_thread_pull_state_def
  apilogic_thread_push_state_def apilogic_interrupt_set_tap_def apilogic_fault_get_pagefault_def
  apilogic_fault_get_miscfault_def apilogic_fault_get_zombie_def get_pagefault_def
  get_miscfault_def get_zombie_def get_queued_def

lemma failed_call:
  assumes ok: "caller_ok s" and run: "apilogic c s = Some (r, t)" and c: "\<not> is_page_set c"
  shows "(fails r \<longleftrightarrow> rejected s c) \<and> (fails r \<longrightarrow> t = s)"
proof -
  obtain L F where "kernel_inv L F s" using ok by (elim caller_okE)
  then have "tcb_table_lock s = 0" by (rule kernel_invD)
  note get = tcb_get_entry [OF this]
  show ?thesis
  proof (cases c)
    case (Thread_pause n)
    then show ?thesis using run pause_fails [OF ok] by (auto simp: bind_eq_Some_conv)
  next
    case (Thread_resume n)
    then show ?thesis using run resume_fails [OF ok] by (auto simp: bind_eq_Some_conv)
  qed (use run c in \<open>auto simp: bind_eq_Some_conv call_defs get in_state_def Let_def
      split: if_splits option.splits prod.splits\<close>)
qed

end
