(* ===== verification/Stays.thy ===== *)
theory Stays
  imports Kernel_Specs
begin

text \<open>
  A suspended thread stays suspended: only \<open>thread_resume\<close> and \<open>thread_reap\<close> with its id take
  it out of that state, whatever the other threads, the interrupts and the faults do. And the
  exception: a thread that is still active, because an interrupt comes between its call and the
  yield that follows it, is queued again.
\<close>

subsection \<open>Resting threads\<close>

text \<open>\<open>rests n p s\<close>: the thread with id \<open>n\<close> has the block \<open>p\<close>, is suspended and not active.\<close>

definition rests :: "u32 \<Rightarrow> ptr \<Rightarrow> kernel \<Rightarrow> bool" where
  "rests n p s \<longleftrightarrow> unat n < TCB_LIMIT \<and> tcb_entry s (unat n) = p \<and> p \<noteq> 0 \<and>
     st s p = TCB_STATE_SUSPENDED \<and> p \<noteq> active s"

lemma restsD:
  assumes "rests n p s"
  shows "unat n < TCB_LIMIT" "tcb_entry s (unat n) = p" "p \<noteq> 0" "st s p = TCB_STATE_SUSPENDED"
    "p \<noteq> active s" "p \<in> live s" "p \<in> threads s" "n \<noteq> THREAD_ID_SELF"
proof -
  show r: "unat n < TCB_LIMIT" "tcb_entry s (unat n) = p" "p \<noteq> 0" "st s p = TCB_STATE_SUSPENDED"
    "p \<noteq> active s" using assms by (simp_all add: rests_def)
  then show "p \<in> live s" using liveI [of "unat n" s] by simp
  then show "p \<in> threads s" by (rule live_threads)
  show "n \<noteq> THREAD_ID_SELF"
    using r(1) by (auto simp: THREAD_ID_SELF_def TCB_LIMIT_def unsigned_minus_1_eq_mask mask_eq_exp_minus_1)
qed

lemma rests_step:
  assumes "rests n p s" "tcb_entry t = tcb_entry s" "st t p = st s p" "active t \<noteq> p"
  shows "rests n p t"
  using assms by (auto simp: rests_def)

text \<open>Two ids do not share a block, so a call on another id does not concern it.\<close>

lemma rests_target:
  assumes "kernel_inv L F s" "rests n p s" "m \<noteq> n"
  shows "target m s \<noteq> p"
proof
  assume t: "target m s = p"
  note r = restsD [OF assms(2)]
  have m: "unat m < TCB_LIMIT" "tcb_entry s (unat m) = p"
    using t r(3,5) by (auto simp: target_def split: if_splits)
  have "tcb_id (tcbs s p) = m \<and> tcb_id (tcbs s p) = n"
    using kernel_invD(1) [OF assms(1)] m r(1-3) by (auto simp: mem_inv_def)
  with assms(3) show False by auto
qed

lemma rests_wakes:
  assumes "rests n p s" "wakes s t"
  shows "rests n p t"
proof (rule rests_step [OF assms(1)])
  have "fixed t = fixed s" using assms(2) by (simp add: wakes_def)
  then show "tcb_entry t = tcb_entry s" by (rule fixedD)
  show "st t p = st s p" using wakesD(9) [OF assms(2), of p] restsD(4) [OF assms(1)] by simp
  show "active t \<noteq> p" using wakesD(3) [OF assms(2)] restsD(5) [OF assms(1)] by simp
qed

lemma rests_quiet:
  assumes "rests n p s" "quiet s t"
  shows "rests n p t"
proof (rule rests_step [OF assms(1)])
  show "tcb_entry t = tcb_entry s" using assms(2) by (intro tcb_entry_cong) (simp add: quiet_def)
qed (use assms(2) restsD(5) [OF assms(1)] in \<open>simp_all add: quiet_def\<close>)

lemma rests_upd_tcb:
  assumes "rests n p s" "\<And>t. tcb_state (f t) = tcb_state t"
  shows "rests n p (upd_tcb q f s)"
  using rests_wakes [OF assms(1) wakes_upd_tcb [OF assms(2)]] .

text \<open>A context switch resumes a queued thread or the idle block, and queues the active one.\<close>

lemma rests_schedule:
  assumes "kernel_inv L F s" "rests n p s" "scheduler_schedule s = Some t"
  shows "rests n p t"
proof -
  note inv = kernel_invD [OF assms(1)] and r = restsD [OF assms(2)]
  have "active s \<noteq> 0 \<longrightarrow> active s \<notin> set L" using inv(8) by simp
  from schedule_spec [OF inv(3) this]
  obtain v P where v: "scheduler_schedule s = Some v" "thread_step P s v" by blast
  then have fx: "fixed t = fixed s" using assms(3) by (simp add: thread_step_def)
  have idle: "idle_tcb s \<noteq> p" using inv(1) r(6) by (auto simp: mem_inv_def)
  have pL: "p \<notin> set L" using inv(4) r(4) by auto
  show ?thesis
  proof (rule schedule_inv [OF assms(1)])
    let ?Q = "if active s = 0 then L else L @ [active s]"
    fix u
    assume u: "scheduler_schedule s = Some u" "active u = (if ?Q = [] then idle_tcb s else hd ?Q)"
      "\<And>q. q \<noteq> active s \<Longrightarrow> q \<noteq> active u \<Longrightarrow> st u q = st s q"
    have ut: "u = t" using u(1) assms(3) by simp
    have "p \<notin> set ?Q" using pL r(5) by simp
    then have a: "active t \<noteq> p" using u(2) idle unfolding ut by (cases "?Q = []") (auto dest: hd_in_set)
    have "st t p = st s p" using u(3) [of p] r(5) a unfolding ut by auto
    with a fixedD(6) [OF fx] show ?thesis by (intro rests_step [OF assms(2)]) simp_all
  qed
qed

lemma rests_fixed:
  assumes "rests n p s" "fixed t = fixed s" "st t = st s" "active t \<noteq> p"
  shows "rests n p t"
  using fixedD(6) [OF assms(2)] fun_cong [OF assms(3), of p] assms(4)
  by (rule rests_step [OF assms(1)])

lemma rests_enqueue:
  assumes "rests n p s" "enqueue q r s = Some t"
  shows "rests n p t"
proof (rule rests_fixed [OF assms(1)])
  note fr = enqueue_frame [OF assms(2)]
  show "fixed t = fixed s" using fr(1) [of "{}"] by (simp add: thread_step_def)
  show "st t = st s" by (rule fr(3))
  show "active t \<noteq> p" using fr(2) restsD(5) [OF assms(1)] by simp
qed

lemma rests_unload:
  assumes "rests n p s" "ccb_unload_tcb s = (r, t)"
  shows "rests n p t"
proof (rule rests_fixed [OF assms(1)])
  note U = unload_spec [OF assms(2)]
  show "fixed t = fixed s" using U(7) by (simp add: thread_step_def)
  show "st t = st s" by (rule U(4))
  show "active t \<noteq> p" using U(2) restsD(3) [OF assms(1)] by simp
qed

subsection \<open>The calls\<close>

text \<open>
  A step of another thread: the new state, when the active thread has not changed and the
  state of each thread but one, \<open>q\<close>, is what it was.
\<close>

lemma rests_other:
  assumes "rests n p s" "tcb_entry t = tcb_entry s" "the_ccb t = the_ccb s" "p \<noteq> q"
    and "\<And>r. st t r = ((st s)(q := v)) r"
  shows "rests n p t"
  using assms(3-5) restsD(5) [OF assms(1)] by (intro rests_step [OF assms(1,2)]) simp_all

lemma rests_pause:
  assumes "kernel_inv L F s" "active s \<in> live s" "rests n p s"
    and "apilogic_thread_pause m s = Some (r, t)"
  shows "rests n p t"
proof -
  note look = self_lookup [OF assms(1,2)]
  let ?q = "target m s"
  let ?known = "{TCB_STATE_SUSPENDED, TCB_STATE_SUSPENDEDWAITING, TCB_STATE_WAITING,
    TCB_STATE_QUEUED, TCB_STATE_RUNNING}"
  consider (self) "?q = p" | (none) "?q = 0" | (unknown) "st s ?q \<notin> ?known"
    | (other) "?q \<noteq> 0" "st s ?q \<in> ?known" "p \<noteq> ?q" by blast
  then show ?thesis
  proof cases
    case self
    then show ?thesis
      using assms(3,4) restsD(3,4) [OF assms(3)] by (simp add: apilogic_thread_pause_def look)
  next
    case none
    then show ?thesis using pause_none [OF assms(1,2)] assms(3,4) by simp
  next
    case unknown
    then show ?thesis
      using assms(3,4) by (simp add: apilogic_thread_pause_def look split: if_splits)
  next
    case other
    show ?thesis
    proof (rule pause_spec [OF assms(1,2) refl other(1,2)])
      fix u
      assume "apilogic_thread_pause m s = Some (True, u)" "the_ccb u = the_ccb s"
        "tcb_entry u = tcb_entry s" "\<And>r. st u r = ((st s)(?q := paused (st s ?q))) r"
      with assms(4) show ?thesis using rests_other [OF assms(3) _ _ other(3)] by auto
    qed
  qed
qed

lemma rests_resume:
  assumes "kernel_inv L F s" "active s \<in> live s" "st s (active s) \<noteq> TCB_STATE_SUSPENDED"
    and "rests n p s" "m \<noteq> n" "apilogic_thread_resume m s = Some (r, t)"
  shows "rests n p t"
proof (cases "target m s = 0")
  case True
  with resume_none [OF assms(1,2)] assms(4,6) show ?thesis by simp
next
  case False
  let ?q = "target m s"
  have pq: "p \<noteq> ?q" using rests_target [OF assms(1,4,5)] by simp
  show ?thesis
  proof (rule resume_spec [OF assms(1,2) refl False assms(3)])
    fix u
    assume "apilogic_thread_resume m s = Some (st s ?q = TCB_STATE_SUSPENDED \<or> st s ?q = TCB_STATE_SUSPENDEDWAITING, u)"
      "the_ccb u = the_ccb s" "tcb_entry u = tcb_entry s"
      "\<And>r. st u r = ((st s)(?q := resumed (st s ?q))) r"
    with assms(6) show ?thesis using rests_other [OF assms(4) _ _ pq] by auto
  qed
qed

lemma rests_create:
  assumes "kernel_inv L F s" "rests n p s" "apilogic_thread_create s = Some (r, t)"
  shows "rests n p t"
proof -
  note rs = restsD [OF assms(2)]
  have keep: "rests n p u" if "tcbs u p = tcbs s p" "outside u = outside s"
      "tcb_entry u (unat n) = tcb_entry s (unat n)" for u
    using that rs(1-5) outsideD(1) [OF that(2)] by (auto simp: rests_def)
  show ?thesis
  proof (rule create_spec [OF assms(1)])
    fix u G
    assume u: "apilogic_thread_create s = Some (0, u)" "outside u = outside s"
      "tcb_entry u = tcb_entry s" "\<And>q. q \<in> threads s \<Longrightarrow> tcbs u q = tcbs s q"
    with assms(3) have ut: "u = t" by simp
    show ?thesis using keep [OF u(4) [OF rs(7)] u(2)] u(3) unfolding ut by simp
  next
    fix q k u G
    assume u: "apilogic_thread_create s = Some (of_nat k, u)" "outside u = outside s"
      "tcb_entry u = (tcb_entry s)(k := q)" "\<And>q. q \<in> threads s \<Longrightarrow> tcbs u q = tcbs s q"
      "tcb_entry s k = 0"
    with assms(3) have ut: "u = t" by simp
    have "k \<noteq> unat n" using u(5) rs(2,3) by auto
    then show ?thesis using keep [OF u(4) [OF rs(7)] u(2)] u(3) unfolding ut by simp
  qed
qed

lemma rests_reap:
  assumes "kernel_inv L F s" "st s (active s) \<noteq> TCB_STATE_SUSPENDED"
    and "rests n p s" "m \<noteq> n" "apilogic_thread_reap m s = Some (r, t)"
  shows "rests n p t"
proof -
  note rs = restsD [OF assms(3)]
  let ?q = "target m s"
  have pq: "p \<noteq> ?q" using rests_target [OF assms(1,3,4)] by simp
  consider (self) "m = THREAD_ID_SELF"
    | (refused) "m \<noteq> THREAD_ID_SELF" "?q = 0 \<or> st s ?q \<noteq> TCB_STATE_SUSPENDED"
    | (reaped) "m \<noteq> THREAD_ID_SELF" "?q \<noteq> 0" "st s ?q = TCB_STATE_SUSPENDED" by blast
  then show ?thesis
  proof cases
    case self
    then show ?thesis using reap_self_id [OF assms(1)] assms(3,5) by simp
  next
    case refused
    then show ?thesis using reap_refused [OF assms(1)] assms(3,5) by simp
  next
    case reaped
    then have q: "unat m < TCB_LIMIT" "tcb_entry s (unat m) = ?q"
      by (auto simp: target_def split: if_splits)
    show ?thesis
    proof (rule reap_spec [OF assms(1) q reaped(2,3) assms(2)])
      fix u
      assume u: "apilogic_thread_reap m s = Some (True, u)" "outside u = outside s"
        "tcb_entry u = (tcb_entry s)(unat m := 0)" "\<And>q. q \<noteq> ?q \<Longrightarrow> tcbs u q = tcbs s q"
      with assms(5) have ut: "u = t" by simp
      have "unat m \<noteq> unat n" using assms(4) by (simp add: word_unat_eq_iff)
      then show ?thesis
        using u(3) u(4) [OF pq] rs(1-5) outsideD(1) [OF u(2)] unfolding ut by (auto simp: rests_def)
    qed
  qed
qed

subsection \<open>Interrupts and queues\<close>

lemma rests_no_sched:
  assumes "rests n p s" "no_sched t = no_sched s"
  shows "rests n p t"
  using no_sched_step [OF assms(2)] restsD(5) [OF assms(1)] by (intro rests_step [OF assms(1)]) simp_all

lemma rests_set_state:
  assumes "rests n p s" "p \<noteq> q"
  shows "rests n p (set_state q v s)"
  using assms restsD(5) [OF assms(1)] fun_cong [OF st_set_state [of q v s], of p]
  by (intro rests_step [OF assms(1)]) simp_all

text \<open>A notification changes the state of a waiting thread only.\<close>

lemma rests_notify:
  assumes "rests n p s" "interrupt_notify vec q s = Some t"
  shows "rests n p t"
proof (cases "find (\<lambda>j. tcb_tap (tcbs s q) j AND 0x3FFF = vec) [0..<TAP_COUNT]")
  case None
  with assms show ?thesis by (simp add: interrupt_notify_def)
next
  case (Some j)
  let ?s1 = "upd_tcb q (\<lambda>t. t\<lparr>tcb_tap := (tcb_tap t)(j := tcb_tap t j OR 0x8000)\<rparr>) s"
  let ?rax = "upd_tcb q (\<lambda>t. t\<lparr>tcb_rax := ucast vec\<rparr>)"
  have s1: "rests n p ?s1" by (rule rests_upd_tcb [OF assms(1)]) simp
  have rax: "rests n p (?rax u)" if "rests n p u" for u by (rule rests_upd_tcb [OF that]) simp
  have st1: "st ?s1 q = st s q" by simp
  consider (waiting) "st s q = TCB_STATE_WAITING"
    | (susp) "st s q = TCB_STATE_SUSPENDEDWAITING"
    | (other) "st s q \<noteq> TCB_STATE_WAITING" "st s q \<noteq> TCB_STATE_SUSPENDEDWAITING" by blast
  then show ?thesis
  proof cases
    case waiting
    then have pq: "p \<noteq> q" using restsD(4) [OF assms(1)] by auto
    from assms(2) Some waiting obtain u where u: "scheduler_push_tcb q ?s1 = Some u"
      "t = ?rax (set_state q TCB_STATE_QUEUED u)"
      by (auto simp: interrupt_notify_def scheduler_add_tcb_def bind_eq_Some_conv)
    show ?thesis
      unfolding u(2) by (rule rax [OF rests_set_state [OF rests_no_sched [OF s1 push_no_sched [OF u(1)]] pq]])
  next
    case susp
    then have pq: "p \<noteq> q" using restsD(4) [OF assms(1)] by auto
    have "t = ?rax (set_state q TCB_STATE_SUSPENDED ?s1)"
      using assms(2) Some susp by (simp add: interrupt_notify_def)
    then show ?thesis using rax [OF rests_set_state [OF s1 pq]] by simp
  next
    case other
    then have "t = ?s1" using assms(2) Some by (simp add: interrupt_notify_def)
    then show ?thesis using s1 by simp
  qed
qed

lemma rests_notify_all:
  "interrupt_notify_all vec ps s = Some t \<Longrightarrow> rests n p s \<Longrightarrow> rests n p t"
  by (induction vec ps s rule: interrupt_notify_all.induct)
     (auto simp: bind_eq_Some_conv dest: rests_notify split: if_splits)

lemma rests_fire:
  assumes "rests n p s" "interrupt_vector_fire vec s = Some t"
  shows "rests n p t"
  using assms rests_notify_all
  by (auto simp: interrupt_vector_fire_def vector_page_def run_on_fire_def bind_eq_Some_conv
      split: option.splits vec_handler.splits)

lemma rests_reset:
  assumes "rests n p s" "interrupt_vector_reset vec s = Some t"
  shows "rests n p t"
  using reset_cases [OF assms(2)] assms(1) rests_fire [OF assms(1)] by blast

lemma rests_set_tap:
  assumes "rests n p s"
  shows "rests n p (set_tap q i v s)"
  unfolding set_tap_def by (rule rests_upd_tcb [OF assms]) simp

lemma rests_set_route:
  assumes "rests n p s"
  shows "rests n p (set_route vec i q s)"
proof -
  have "tcb_entry (set_route vec i q s) = tcb_entry s"
    by (rule tcb_entry_cong) (simp add: set_route_def Let_def)
  then show ?thesis using restsD(5) [OF assms] by (intro rests_step [OF assms]) simp_all
qed

lemma rests_routes:
  assumes "rests n p s"
  shows "interrupt_add_route q vec s = Some t \<Longrightarrow> rests n p t"
    and "interrupt_remove_route q vec s = Some t \<Longrightarrow> rests n p t"
  using route_cases [of q vec s t] assms rests_set_route [OF assms] by blast+

lemma rests_set_tap_call:
  assumes "rests n p s" "apilogic_interrupt_set_tap index vec s = Some (r, t)"
  shows "rests n p t"
proof (cases "unat index < TAP_COUNT \<and> vec AND 0xC000 = 0")
  case False
  then consider "TAP_COUNT \<le> unat index" | "vec AND 0xC000 \<noteq> 0" by linarith
  then have "t = s"
    by cases (use assms(2) in \<open>simp_all add: apilogic_interrupt_set_tap_def Let_def split: if_splits\<close>)
  then show ?thesis using assms(1) by simp
next
  case True
  let ?a = "active s" and ?v = "ucast vec :: u16"
  let ?old = "tcb_tap (tcbs s ?a) (unat index)"
  from True assms(2) obtain s1 s2 where
    s1: "(if ?old AND 0x3FFF \<noteq> 0 then interrupt_remove_route ?a ?old s else Some s) = Some s1"
    and s2: "interrupt_add_route ?a ?v (set_tap ?a (unat index) ?v s1) = Some s2"
    and t: "interrupt_vector_reset ?v s2 = Some t"
    by (auto simp: apilogic_interrupt_set_tap_def bind_eq_Some_conv Let_def)
  have "rests n p s1" using s1 assms(1) rests_routes(2) [OF assms(1)] by (auto split: if_splits)
  then have "rests n p s2" using rests_routes(1) [OF rests_set_tap s2] by blast
  then show ?thesis using t by (rule rests_reset)
qed

lemma rests_reset_call:
  assumes "rests n p s" "apilogic_interrupt_reset vec s = Some t"
  shows "rests n p t"
  using assms rests_reset [OF rests_set_tap [OF assms(1)]]
  by (auto simp: apilogic_interrupt_reset_def Let_def bind_eq_Some_conv split: option.splits)

lemma rests_wait:
  assumes "rests n p s" "apilogic_interrupt_wait s = Some (r, t)"
  shows "rests n p t"
  using assms rests_set_state [OF assms(1) restsD(5) [OF assms(1)]]
  by (auto simp: apilogic_interrupt_wait_def Let_def bind_eq_Some_conv split: option.splits)

lemma rests_exit:
  assumes "rests n p s" "apilogic_thread_exit s = Some t"
  shows "rests n p t"
proof -
  from assms(2) obtain u where u: "enqueue Zombie_queue (active s) (set_state (active s) TCB_STATE_SUSPENDED s) = Some u"
    "interrupt_vector_fire PINION_INTERRUPT_ZOMBIE u = Some t"
    by (auto simp: apilogic_thread_exit_def queue_zombie_def Let_def bind_eq_Some_conv)
  have "rests n p u"
    using rests_enqueue [OF rests_set_state [OF assms(1) restsD(5) [OF assms(1)]] u(1)] .
  then show ?thesis using u(2) by (rule rests_fire)
qed

lemma rests_push:
  assumes "rests n p s" "kernel_inv L F s" "apilogic_thread_push_state m cls state s = Some (r, t)"
  shows "rests n p t"
  using assms(1,3) tcb_get_eq [OF kernel_invD(2) [OF assms(2)], of m] rests_upd_tcb [OF assms(1)]
  by (auto simp: apilogic_thread_push_state_def split: option.splits if_splits)

text \<open>The calls that end the suspension of the thread \<open>n\<close>.\<close>

fun wakes_call :: "u32 \<Rightarrow> api_call \<Rightarrow> bool" where
  "wakes_call n (Thread_resume m) = (m = n)"
| "wakes_call n (Thread_reap m) = (m = n)"
| "wakes_call n _ = False"

lemma rests_call:
  assumes "apilogic c s = Some (r, t)" "caller_ok s" "rests n p s" "\<not> wakes_call n c"
  shows "rests n p t"
proof -
  from caller_okE [OF assms(2)] obtain L F where inv: "kernel_inv L F s" "active s \<in> live s"
    "st s (active s) = TCB_STATE_RUNNING" by metis
  have ns: "st s (active s) \<noteq> TCB_STATE_SUSPENDED" using inv(3) by simp
  note q = rests_quiet [OF assms(3)]
  note get = fault_get_inv [OF inv(1), THEN conjunct2, THEN q]
  show ?thesis
  proof (cases c)
    case (Thread_pull_state m cls state)
    from pull_same [OF inv(1), of m cls state] assms(1,3) show ?thesis
      using Thread_pull_state by auto
  next
    case (Page_set a b c d)
    then show ?thesis using assms(1) q page_set_inv(2) [OF _ inv(1)] by (auto simp: bind_eq_Some_conv)
  next
    case (Page_get a)
    then show ?thesis using assms(1) q page_get_inv(2) [OF _ inv(1)] by (auto simp: bind_eq_Some_conv)
  qed (use assms(1,3,4) rests_pause [OF inv(1,2) assms(3)] rests_resume [OF inv(1,2) ns assms(3)]
      rests_create [OF inv(1) assms(3)] rests_reap [OF inv(1) ns assms(3)] rests_exit [OF assms(3)]
      rests_set_tap_call [OF assms(3)] rests_reset_call [OF assms(3)] rests_wait [OF assms(3)]
      rests_push [OF assms(3) inv(1)] get in
    \<open>auto simp: bind_eq_Some_conv apilogic_thread_yield_def apilogic_thread_get_pagefault_def
      apilogic_thread_get_miscfault_def apilogic_thread_get_zombie_def split: prod.splits\<close>)
qed

subsection \<open>Interrupts and faults\<close>

lemma rests_fault_path:
  assumes "rests n p s" "kernel_inv L F s" "vtables_ok s" "active s \<noteq> 0"
    and "unat (drop_bit 7 vec) < INTERRUPT_VECTOR_PAGES"
    and "(case ccb_unload_tcb s of (p, s) \<Rightarrow> do {
      s \<leftarrow> enqueue q p s; s \<leftarrow> interrupt_vector_fire vec s; scheduler_schedule s }) = Some t"
  shows "rests n p t"
proof -
  obtain a u where un: "ccb_unload_tcb s = (a, u)" by fastforce
  note U = unload_spec [OF un]
  have a: "a \<noteq> 0" "a \<notin> set L" using U(1) assms(4) kernel_invD(8) [OF assms(2)] by simp_all
  have "fixed u = fixed s" using U(7) by (simp add: thread_step_def)
  note fu = fixedD(4) [OF this]
  from enqueue_inv [OF unload_inv [OF assms(2) un] a] obtain v where v: "enqueue q a u = Some v"
    "kernel_inv L F v" "the_ccb v = the_ccb u"
    "interrupt_vector_page_table v = interrupt_vector_page_table u" by blast
  have "not_waiting v" using v(3) U(2) by (simp add: not_waiting_def)
  moreover have "vtables_ok v"
    using assms(3) vtables_ok_cong [OF v(4)] vtables_ok_cong [OF fu] by simp
  ultimately obtain w M where w: "interrupt_vector_fire vec v = Some w" "kernel_inv M F w"
    using fire_inv [OF v(2) _ _ assms(5)] by blast
  have "rests n p w"
    by (rule rests_fire [OF rests_enqueue [OF rests_unload [OF assms(1) un] v(1)] w(1)])
  moreover have "scheduler_schedule w = Some t" using assms(6) un v(1) w(1) by simp
  ultimately show ?thesis using rests_schedule [OF w(2)] by blast
qed

lemma rests_fault:
  assumes "rests n p s" "kernel_inv L F s" "vtables_ok s" "active s \<noteq> 0"
    and "fault cr2 (active s) s = Some t"
  shows "rests n p t"
proof -
  let ?iv = "tcb_ivect (tcbs s (active s))"
  note path = rests_fault_path [OF assms(1-4)]
  have vecs: "unat (drop_bit 7 PINION_INTERRUPT_PAGEFAULT) < INTERRUPT_VECTOR_PAGES"
    "unat (drop_bit 7 PINION_INTERRUPT_MISCFAULT) < INTERRUPT_VECTOR_PAGES"
    by (simp_all add: PINION_INTERRUPT_PAGEFAULT_def PINION_INTERRUPT_MISCFAULT_def INTERRUPT_VECTOR_PAGES_def)
  consider (timer) "?iv = 32" | (yield) "?iv = 0x100" | (page) "?iv = 14" | (double) "?iv = 8"
    | (misc) "?iv < 32" "?iv \<noteq> 14" "?iv \<noteq> 8" | (none) "32 < ?iv" "?iv \<noteq> 0x100" by force
  then show ?thesis
  proof cases
    case timer
    then have "scheduler_schedule (signal_eoi s) = Some t" using assms(5) by (simp add: fault_def)
    moreover have "rests n p (signal_eoi s)"
      using restsD(5) [OF assms(1)] tcb_entry_cong [of "signal_eoi s" s]
      by (intro rests_step [OF assms(1)]) (simp_all add: signal_eoi_def)
    ultimately show ?thesis using rests_schedule [OF signal_eoi_inv [OF assms(2)]] by blast
  next
    case yield
    obtain a u where un: "ccb_unload_tcb s = (a, u)" by fastforce
    have "scheduler_schedule s = Some t \<or> scheduler_schedule u = Some t"
      using assms(5) yield un by (simp add: fault_def Let_def split: if_splits)
    then show ?thesis
      using rests_schedule [OF assms(2,1)] rests_schedule [OF unload_inv [OF assms(2) un] rests_unload [OF assms(1) un]]
      by blast
  next
    case page
    let ?u = "pcx_unlock s"
    have u: "rests n p ?u" "kernel_inv L F ?u" "vtables_ok ?u" "active ?u \<noteq> 0"
      using quiet_view [OF assms(2) pcx_unlock_quiet] rests_quiet [OF assms(1) pcx_unlock_quiet(1)] assms(3,4)
      by (simp_all add: vtables_ok_def pcx_unlock_def)
    from rests_fault_path [OF u vecs(1), of Pagefault_queue t] assms(5) page show ?thesis
      by (auto simp: fault_def Let_def pcx_get_trans_def pcx_get_flags_def bind_eq_Some_conv
          queue_pagefault_def case_prod_beta)
  next
    case double
    with assms(5) show ?thesis by (simp add: fault_def)
  next
    case misc
    then have "?iv \<noteq> 32" "?iv \<noteq> 0x100" by auto
    with path [OF vecs(2), of Miscfault_queue t] assms(5) misc show ?thesis
      by (auto simp: fault_def Let_def queue_miscfault_def case_prod_beta)
  next
    case none
    with assms(1,5) show ?thesis by (auto simp: fault_def Let_def split: if_splits)
  qed
qed

lemma rests_entry:
  assumes "rests n p s" "kernel_ok s" "active s \<noteq> 0" "interrupt_entry v f cr2 s = Some t"
  shows "rests n p t"
proof -
  let ?u = "save_state_full v f s"
  have u: "rests n p ?u" unfolding save_state_full_def by (rule rests_upd_tcb [OF assms(1)]) simp
  from save_state_ok [OF assms(2), of v f] obtain L F where inv: "kernel_inv L F ?u" "vtables_ok ?u"
    by (auto simp: kernel_ok_def)
  show ?thesis
    by (rule rests_fault [OF u inv]) (use assms(3,4) in \<open>simp_all add: interrupt_entry_def Let_def\<close>)
qed

subsection \<open>Runs\<close>

fun wakes_event :: "u32 \<Rightarrow> event \<Rightarrow> bool" where
  "wakes_event n (Call c r) = wakes_call n c"
| "wakes_event n _ = False"

lemma rests_mstep:
  assumes "mstep m e m'" "machine_inv m" "rests n p (kern m)" "\<not> wakes_event n e"
  shows "rests n p (kern m')"
  using assms(1)
proof (cases rule: mstep.cases)
  case (Call c r k)
  then have "caller_ok (kern m)" using assms(2) resumes_caller_ok by (simp add: machine_inv_def)
  from rests_call [OF Call(5) this assms(3)] show ?thesis using Call(1,2) assms(4) by simp
qed (use assms(2,3) rests_entry in \<open>auto simp: machine_inv_def\<close>)

lemma rests_mrun:
  assumes "mrun m es m'" "machine_inv m" "rests n p (kern m)" "\<forall>e \<in> set es. \<not> wakes_event n e"
  shows "rests n p (kern m')"
  using assms by (induction rule: mrun.induct) (auto intro: rests_mstep mstep_inv)

subsection \<open>A thread that has not yielded yet\<close>

text \<open>
  The exception. Between \<open>thread_exit\<close> and its yield interrupts are enabled and the thread is
  still active. A timer interrupt there switches threads without a look at its state, so the
  exited thread runs again or is in the run queue, while it is the first of the zombies.
\<close>

lemma schedule_active_state:
  assumes "kernel_inv L F s" "active s \<noteq> 0" "scheduler_schedule s = Some t"
  shows "st t (active s) = (if active t = active s then TCB_STATE_RUNNING else TCB_STATE_QUEUED)"
proof (rule schedule_inv [OF assms(1)])
  let ?Q = "if active s = 0 then L else L @ [active s]"
  fix u
  assume u: "scheduler_schedule s = Some u" "?Q \<noteq> [] \<longrightarrow> st u (active u) = TCB_STATE_RUNNING"
    "active s \<noteq> 0 \<longrightarrow> active s \<noteq> active u \<longrightarrow> st u (active s) = TCB_STATE_QUEUED"
  have ut: "u = t" using u(1) assms(3) by simp
  show ?thesis using u(2,3) assms(2) unfolding ut by (cases "active t = active s") auto
qed

lemma exit_then_timer:
  assumes "caller_ok s" "apilogic_thread_exit s = Some t"
  shows "\<exists>u. interrupt_entry 32 f cr2 t = Some u \<and> zombie_queue u = active s \<and>
    st u (active s) = (if active u = active s then TCB_STATE_RUNNING else TCB_STATE_QUEUED)"
proof -
  from exit_inv [OF assms(1)] assms(2) have t: "caller t" "active t = active s" "zombie_queue t = active s"
    by auto
  from t(1) obtain L F where inv: "kernel_inv L F t" by (auto simp: caller_def kernel_ok_def)
  have a: "active s \<noteq> 0" using callerD [OF t(1)] t(2) by simp
  let ?s1 = "save_state_full 32 f t"
  let ?s2 = "signal_eoi ?s1"
  have "kernel_inv L F ?s1"
    unfolding save_state_full_def by (rule kernel_inv_upd_tcb [OF inv]) simp_all
  then have k: "kernel_inv L F ?s2" by (rule signal_eoi_inv)
  have s2: "active ?s2 = active s" "queue_head Zombie_queue ?s2 = active s"
    using t(2,3) by (simp_all add: signal_eoi_def save_state_full_def)
  from schedule_inv [OF k] obtain u where u: "scheduler_schedule ?s2 = Some u" by metis
  then have "interrupt_entry 32 f cr2 t = Some u"
    by (simp add: interrupt_entry_def Let_def fault_def)
  moreover have "queue_head Zombie_queue u = active s" using schedule_queue_heads [OF u] s2(2) by simp
  ultimately show ?thesis using schedule_active_state [OF k _ u] a s2(1) by simp
qed

end
