(* ===== verification/Readers.thy ===== *)
theory Readers
  imports Layout Acpi Unfold_Specs
begin

text \<open>
  The functions that read a C structure from memory, against the layout the compiler gives
  that structure: each field is read with its own width at its own offset.
\<close>

subsection \<open>Reading a field by its layout\<close>

text \<open>The bytes of the field \<open>x\<close> of a structure of type \<open>t\<close> at \<open>a\<close>, least significant first.\<close>

fun field_type :: "ctype \<Rightarrow> string \<Rightarrow> ctype option" where
  "field_type (Struct p fs) x = map_of fs x"
| "field_type t x = None"

definition c_read :: "nat \<Rightarrow> ctype \<Rightarrow> bytes \<Rightarrow> u64 \<Rightarrow> string \<Rightarrow> u64" where
  "c_read w t m a x =
     (case (offsetof w t x, field_type t x) of
        (Some o1, Some ft) \<Rightarrow> rd_bytes (sizeof w ft) m (a + of_nat o1)
      | _ \<Rightarrow> 0)"

text \<open>The element \<open>i\<close> of a field that is an array.\<close>

definition c_elem :: "nat \<Rightarrow> ctype \<Rightarrow> bytes \<Rightarrow> u64 \<Rightarrow> string \<Rightarrow> nat \<Rightarrow> u64" where
  "c_elem w t m a x i =
     (case (offsetof w t x, field_type t x) of
        (Some o1, Some (Array n et)) \<Rightarrow>
          rd_bytes (sizeof w et) m (a + of_nat o1 + of_nat (i * sizeof w et))
      | _ \<Rightarrow> 0)"

subsection \<open>The structures\<close>

text \<open>The header of an image is packed in the boot loader and not in the kernel.\<close>

definition elf64_ehdr_fields :: "(string \<times> ctype) list" where
  "elf64_ehdr_fields =
    [(''e_ident'', Array 16 U8), (''e_type'', U16), (''e_machine'', U16), (''e_version'', U32),
     (''e_entry'', U64), (''e_phoff'', U64), (''e_shoff'', U64), (''e_flags'', U32),
     (''e_ehsize'', U16), (''e_phentsize'', U16), (''e_phnum'', U16), (''e_shentsize'', U16),
     (''e_shnum'', U16), (''e_shstrndx'', U16)]"

definition elf64_ehdr_struct :: ctype where "elf64_ehdr_struct = aligned elf64_ehdr_fields"
definition unfold_elf64_ehdr_struct :: ctype where "unfold_elf64_ehdr_struct = packed elf64_ehdr_fields"

text \<open>The part of the header that 32-bit and 64-bit images share.\<close>

definition elf_ehdr_struct :: ctype where
  "elf_ehdr_struct = packed
    [(''e_ident'', Array 16 U8), (''e_type'', U16), (''e_machine'', U16)]"

definition elf64_dyn_struct :: ctype where
  "elf64_dyn_struct = aligned [(''d_tag'', U64), (''d_val'', U64)]"

definition elf64_sym_struct :: ctype where
  "elf64_sym_struct = packed
    [(''st_name'', U32), (''st_info'', U8), (''st_other'', U8), (''st_shndx'', U16),
     (''st_value'', U64), (''st_size'', U64)]"

definition elf64_rela_struct :: ctype where
  "elf64_rela_struct = aligned
    [(''r_offset'', U64), (''r_type'', U32), (''r_sym'', U32), (''r_addend'', U64)]"

definition rdsp_struct :: ctype where
  "rdsp_struct = packed
    [(''signature'', U64), (''checksum'', U8), (''oem_id'', Array 6 U8), (''revision'', U8),
     (''rdst_address'', U32), (''length'', U32), (''xsdt_address'', U64),
     (''extended_checksum'', U8), (''reserved'', Array 3 U8)]"

definition mptable_float_struct :: ctype where
  "mptable_float_struct = packed
    [(''signature'', U32), (''physaddr'', U32), (''length'', U8), (''spec_rv'', U8),
     (''checksum'', U8), (''feature'', Array 5 U8)]"

definition mptable_struct :: ctype where
  "mptable_struct = packed
    [(''signature'', U32), (''base_length'', U16), (''spec_rv'', U8), (''checksum'', U8),
     (''oem_id'', Array 8 U8), (''prod_id'', Array 12 U8), (''oem_table'', U32),
     (''oem_table_size'', U16), (''entry_count'', U16), (''lapic_addr'', U32),
     (''extended_length'', U16), (''extended_checksum'', U8), (''reserved'', U8),
     (''table'', Array 0 U8)]"

lemmas struct_defs = elf64_phdr_struct_def elf64_ehdr_struct_def unfold_elf64_ehdr_struct_def
  elf64_ehdr_fields_def elf64_dyn_struct_def elf64_sym_struct_def elf64_rela_struct_def
  rdsp_struct_def mptable_float_struct_def mptable_struct_def multiboot_header_struct_def
  multiboot_mmap_struct_def multiboot_module_struct_def

lemmas layout_simps = c_read_def c_elem_def place_def align_up_def struct_defs

lemma byte_read: "(ucast (ucast (b :: u8) :: u64) :: u8) = b"
  by (rule bit_word_eqI) (auto simp: bit_simps)

subsection \<open>The readers\<close>

lemma phdr_reader:
  "read_phdr m a = \<lparr>p_type = ucast (c_read w elf64_phdr_struct m a ''p_type''),
     p_flags = ucast (c_read w elf64_phdr_struct m a ''p_flags''),
     p_offset = c_read w elf64_phdr_struct m a ''p_offset'',
     p_vaddr = c_read w elf64_phdr_struct m a ''p_vaddr'',
     p_paddr = c_read w elf64_phdr_struct m a ''p_paddr'',
     p_filesz = c_read w elf64_phdr_struct m a ''p_filesz'',
     p_memsz = c_read w elf64_phdr_struct m a ''p_memsz'',
     p_align = c_read w elf64_phdr_struct m a ''p_align''\<rparr>" if "w = 4 \<or> w = 8"
  using that by (elim disjE) (simp_all add: read_phdr_def rd32_def rd64_def layout_simps)

lemma ehdr_reader:
  assumes "t = elf64_ehdr_struct \<or> t = unfold_elf64_ehdr_struct"
  shows "read_ehdr m a = \<lparr>e_ident = map (\<lambda>i. ucast (c_elem 8 t m a ''e_ident'' i)) [0..<16],
     e_type = ucast (c_read 8 t m a ''e_type''),
     e_machine = ucast (c_read 8 t m a ''e_machine''),
     e_version = ucast (c_read 8 t m a ''e_version''),
     e_entry = c_read 8 t m a ''e_entry'',
     e_phoff = c_read 8 t m a ''e_phoff'',
     e_shoff = c_read 8 t m a ''e_shoff'',
     e_flags = ucast (c_read 8 t m a ''e_flags''),
     e_ehsize = ucast (c_read 8 t m a ''e_ehsize''),
     e_phentsize = ucast (c_read 8 t m a ''e_phentsize''),
     e_phnum = ucast (c_read 8 t m a ''e_phnum''),
     e_shentsize = ucast (c_read 8 t m a ''e_shentsize''),
     e_shnum = ucast (c_read 8 t m a ''e_shnum''),
     e_shstrndx = ucast (c_read 8 t m a ''e_shstrndx'')\<rparr>"
  using assms
  by (elim disjE) (simp_all add: read_ehdr_def rd16_def rd32_def rd64_def layout_simps byte_read)

lemma dynamic_readers:
  "read_dyn m a = \<lparr>d_tag = c_read 8 elf64_dyn_struct m a ''d_tag'',
     d_val = c_read 8 elf64_dyn_struct m a ''d_val''\<rparr>"
  "read_sym m a = \<lparr>st_name = ucast (c_read 8 elf64_sym_struct m a ''st_name''),
     st_info = ucast (c_read 8 elf64_sym_struct m a ''st_info''),
     st_other = ucast (c_read 8 elf64_sym_struct m a ''st_other''),
     st_shndx = ucast (c_read 8 elf64_sym_struct m a ''st_shndx''),
     st_value = c_read 8 elf64_sym_struct m a ''st_value'',
     st_size = c_read 8 elf64_sym_struct m a ''st_size''\<rparr>"
  "read_rela m a = \<lparr>r_offset = c_read 8 elf64_rela_struct m a ''r_offset'',
     r_type = ucast (c_read 8 elf64_rela_struct m a ''r_type''),
     r_sym = ucast (c_read 8 elf64_rela_struct m a ''r_sym''),
     r_addend = c_read 8 elf64_rela_struct m a ''r_addend''\<rparr>"
  by (simp_all add: read_dyn_def read_sym_def read_rela_def rd16_def rd32_def rd64_def layout_simps byte_read)

lemma firmware_readers:
  "read_rdsp m a = \<lparr>rdsp_signature = c_read 8 rdsp_struct m a ''signature'',
     rdsp_checksum = ucast (c_read 8 rdsp_struct m a ''checksum''),
     rdsp_oem_id = map (\<lambda>i. ucast (c_elem 8 rdsp_struct m a ''oem_id'' i)) [0..<6],
     rdsp_revision = ucast (c_read 8 rdsp_struct m a ''revision''),
     rdsp_rdst_address = ucast (c_read 8 rdsp_struct m a ''rdst_address'')\<rparr>"
  "read_mpf m a = \<lparr>mpf_signature = ucast (c_read 8 mptable_float_struct m a ''signature''),
     mpf_physaddr = ucast (c_read 8 mptable_float_struct m a ''physaddr''),
     mpf_length = ucast (c_read 8 mptable_float_struct m a ''length''),
     mpf_spec_rv = ucast (c_read 8 mptable_float_struct m a ''spec_rv''),
     mpf_checksum = ucast (c_read 8 mptable_float_struct m a ''checksum''),
     mpf_feature = map (\<lambda>i. ucast (c_elem 8 mptable_float_struct m a ''feature'' i)) [0..<5]\<rparr>"
  "read_mptable m a = \<lparr>mpt_signature = ucast (c_read 8 mptable_struct m a ''signature''),
     mpt_base_length = ucast (c_read 8 mptable_struct m a ''base_length''),
     mpt_spec_rv = ucast (c_read 8 mptable_struct m a ''spec_rv''),
     mpt_checksum = ucast (c_read 8 mptable_struct m a ''checksum''),
     mpt_oem_id = map (\<lambda>i. ucast (c_elem 8 mptable_struct m a ''oem_id'' i)) [0..<8],
     mpt_prod_id = map (\<lambda>i. ucast (c_elem 8 mptable_struct m a ''prod_id'' i)) [0..<12],
     mpt_oem_table = ucast (c_read 8 mptable_struct m a ''oem_table''),
     mpt_oem_table_size = ucast (c_read 8 mptable_struct m a ''oem_table_size''),
     mpt_entry_count = ucast (c_read 8 mptable_struct m a ''entry_count''),
     mpt_lapic_addr = ucast (c_read 8 mptable_struct m a ''lapic_addr''),
     mpt_extended_length = ucast (c_read 8 mptable_struct m a ''extended_length''),
     mpt_extended_checksum = ucast (c_read 8 mptable_struct m a ''extended_checksum''),
     mpt_reserved = ucast (c_read 8 mptable_struct m a ''reserved'')\<rparr>"
  by (simp_all add: read_rdsp_def read_mpf_def read_mptable_def rd16_def rd32_def rd64_def layout_simps
      byte_read add.assoc)

text \<open>The boot loader's addresses have 32 bits, so a field is found modulo \<open>2\<^sup>3\<^sup>2\<close>.\<close>

lemma wide_cong: "(ucast x :: u32) = ucast y \<Longrightarrow> rd_bytes n (wide m) x = rd_bytes n (wide m) y"
proof (induction n arbitrary: x y)
  case (Suc n)
  from Suc.prems have "(ucast (x + 1) :: u32) = ucast (y + 1)" by (simp only: low_add)
  from Suc.IH [OF this] Suc.prems show ?case by (simp only: rd_bytes.simps wide_def)
qed simp

lemma wide_field:
  "rd_bytes n (wide m) (ucast (a + numeral k :: u32)) = rd_bytes n (wide m) (ucast a + numeral k)"
proof (rule wide_cong)
  have "(ucast (numeral k :: u64) :: u32) = numeral k" using low_of_nat [of "numeral k"] by simp
  then show "(ucast (ucast (a + numeral k :: u32) :: u64) :: u32) = ucast (ucast a + numeral k :: u64)"
    by (simp only: low_add low_up)
qed

lemma multiboot_readers:
  "read_multiboot m a = \<lparr>mb_flags = ucast (c_read 4 multiboot_header_struct (wide m) (ucast a) ''flags''),
     mb_mem_lower = ucast (c_read 4 multiboot_header_struct (wide m) (ucast a) ''mem_lower''),
     mb_mem_upper = ucast (c_read 4 multiboot_header_struct (wide m) (ucast a) ''mem_upper''),
     mb_boot_device = ucast (c_read 4 multiboot_header_struct (wide m) (ucast a) ''boot_device''),
     mb_cmdline = ucast (c_read 4 multiboot_header_struct (wide m) (ucast a) ''cmdline''),
     mb_mods_count = ucast (c_read 4 multiboot_header_struct (wide m) (ucast a) ''mods_count''),
     mb_mods_addr = ucast (c_read 4 multiboot_header_struct (wide m) (ucast a) ''mods_addr''),
     mb_syms0 = ucast (c_read 4 multiboot_header_struct (wide m) (ucast a) ''syms0''),
     mb_syms1 = ucast (c_read 4 multiboot_header_struct (wide m) (ucast a) ''syms1''),
     mb_syms2 = ucast (c_read 4 multiboot_header_struct (wide m) (ucast a) ''syms2''),
     mb_syms3 = ucast (c_read 4 multiboot_header_struct (wide m) (ucast a) ''syms3''),
     mb_mmap_count = ucast (c_read 4 multiboot_header_struct (wide m) (ucast a) ''mmap_count''),
     mb_mmap_addr = ucast (c_read 4 multiboot_header_struct (wide m) (ucast a) ''mmap_addr'')\<rparr>"
  "read_mb_mmap m a = \<lparr>mm_size = ucast (c_read 4 multiboot_mmap_struct (wide m) (ucast a) ''size''),
     mm_base_addr = c_read 4 multiboot_mmap_struct (wide m) (ucast a) ''base_addr'',
     mm_length = c_read 4 multiboot_mmap_struct (wide m) (ucast a) ''length'',
     mm_type = ucast (c_read 4 multiboot_mmap_struct (wide m) (ucast a) ''type'')\<rparr>"
  "read_module m a = \<lparr>mod_start = ucast (c_read 4 multiboot_module_struct (wide m) (ucast a) ''mod_start''),
     mod_end = ucast (c_read 4 multiboot_module_struct (wide m) (ucast a) ''mod_end''),
     mod_string = ucast (c_read 4 multiboot_module_struct (wide m) (ucast a) ''string''),
     mod_reserved = ucast (c_read 4 multiboot_module_struct (wide m) (ucast a) ''reserved'')\<rparr>"
  by (simp_all add: read_multiboot_def read_mb_mmap_def read_module_def ld32_def ld64_def rd32_def
      rd64_def layout_simps wide_field)

end
