(* ===== verification/Entry_Code.thy ===== *)
theory Entry_Code
  imports Contexts Gates Layout
begin

text \<open>
  The assembler code around the kernel's C functions, instruction by instruction: the stubs
  of \<open>interrupt.s\<close>, \<open>save_state_full\<close> and \<open>resume_state_full\<close>, the entry points of \<open>api.s\<close>
  and the part of \<open>ccb_load_tcb\<close> that prepares them. It implements what the rest of the
  development takes for a single step: \<open>save_frame\<close> and \<open>load_frame\<close>.
\<close>

subsection \<open>The processor\<close>

datatype reg = RAX | RCX | RBX | RDX | RDI | RSI | RBP | RSP
  | R8 | R9 | R10 | R11 | R12 | R13 | R14 | R15

text \<open>
  All accesses of this code are to aligned 64-bit words, so memory is a map of words. The two
  stack pointers of the TSS lie at odd multiples of 4 and are kept apart from it.
\<close>

record cpu =
  gpr :: "reg \<Rightarrow> u64"
  cpu_rip :: u64
  cpu_cs :: u64
  cpu_rflags :: u64
  cpu_ss :: u64
  gs_base :: ptr
  kernel_gs_base :: ptr
  tss_sp0 :: ptr
  tss_sp1 :: ptr
  words :: "ptr \<Rightarrow> u64"

datatype instr =
    Cli | Sti | Swapgs | Iretq | Ret
  | Push_imm u64 | Push reg | Pop reg
  | Mov reg reg | Mov_imm reg u64
  | Lea reg reg u64           \<comment> \<open>\<open>lea r, [base + offset]\<close>\<close>
  | Load reg reg u64          \<comment> \<open>\<open>mov r, [base + offset]\<close>\<close>
  | Store reg u64 reg         \<comment> \<open>\<open>mov [base + offset], r\<close>\<close>
  | Load_gs reg u64           \<comment> \<open>\<open>mov r, [gs:offset]\<close>\<close>
  | Store_gs u64 reg          \<comment> \<open>\<open>mov [gs:offset], r\<close>\<close>
  | Sub_imm reg u64 | Add_imm reg u64

definition RFLAGS_IF :: u64 where "RFLAGS_IF = 0x200"

definition set_reg :: "reg \<Rightarrow> u64 \<Rightarrow> cpu \<Rightarrow> cpu" where
  "set_reg r w c = c\<lparr>gpr := (gpr c)(r := w)\<rparr>"

definition push_word :: "u64 \<Rightarrow> cpu \<Rightarrow> cpu" where
  "push_word w c = (let a = gpr c RSP - 8 in (set_reg RSP a c)\<lparr>words := (words c)(a := w)\<rparr>)"

definition stack_word :: "u64 \<Rightarrow> cpu \<Rightarrow> u64" where
  "stack_word i c = words c (gpr c RSP + 8 * i)"

text \<open>\<open>pop rsp\<close> leaves the popped value in \<open>rsp\<close>.\<close>

fun exec :: "instr \<Rightarrow> cpu \<Rightarrow> cpu" where
  "exec Cli c = c\<lparr>cpu_rflags := cpu_rflags c AND NOT RFLAGS_IF\<rparr>"
| "exec Sti c = c\<lparr>cpu_rflags := cpu_rflags c OR RFLAGS_IF\<rparr>"
| "exec Swapgs c = c\<lparr>gs_base := kernel_gs_base c, kernel_gs_base := gs_base c\<rparr>"
| "exec Iretq c = (set_reg RSP (stack_word 3 c) c)
     \<lparr>cpu_rip := stack_word 0 c, cpu_cs := stack_word 1 c, cpu_rflags := stack_word 2 c,
      cpu_ss := stack_word 4 c\<rparr>"
| "exec Ret c = (set_reg RSP (gpr c RSP + 8) c)\<lparr>cpu_rip := stack_word 0 c\<rparr>"
| "exec (Push_imm w) c = push_word w c"
| "exec (Push r) c = push_word (gpr c r) c"
| "exec (Pop r) c = set_reg r (stack_word 0 c) (set_reg RSP (gpr c RSP + 8) c)"
| "exec (Mov r q) c = set_reg r (gpr c q) c"
| "exec (Mov_imm r w) c = set_reg r w c"
| "exec (Lea r b k) c = set_reg r (gpr c b + k) c"
| "exec (Load r b k) c = set_reg r (words c (gpr c b + k)) c"
| "exec (Store b k r) c = c\<lparr>words := (words c)(gpr c b + k := gpr c r)\<rparr>"
| "exec (Load_gs r k) c = set_reg r (words c (gs_base c + k)) c"
| "exec (Store_gs k r) c =
     (if k = 0xC04 then c\<lparr>tss_sp0 := gpr c r\<rparr>
      else if k = 0xC24 then c\<lparr>tss_sp1 := gpr c r\<rparr>
      else c\<lparr>words := (words c)(gs_base c + k := gpr c r)\<rparr>)"
| "exec (Sub_imm r w) c = set_reg r (gpr c r - w) c"
| "exec (Add_imm r w) c = set_reg r (gpr c r + w) c"

definition exec_all :: "instr list \<Rightarrow> cpu \<Rightarrow> cpu" where
  "exec_all = fold exec"

lemma exec_all_simps [simp]:
  "exec_all [] c = c" "exec_all (i # is) c = exec_all is (exec i c)"
  "exec_all (xs @ ys) c = exec_all ys (exec_all xs c)"
  by (simp_all add: exec_all_def)

text \<open>
  How the processor enters a handler: every gate names the first stack of the interrupt
  stack table, so it switches to that stack, rounded down to 16 bytes, and pushes the
  interrupted state; some exceptions push an error code after it.
\<close>

definition error_vectors :: "nat set" where
  "error_vectors = {8, 10, 11, 12, 13, 14, 17}"

definition deliver :: "nat \<Rightarrow> u64 \<Rightarrow> cpu \<Rightarrow> cpu" where
  "deliver v err c =
     (let d = set_reg RSP (tss_sp1 c AND NOT 0xF) c;
          d = push_word (cpu_rip c) (push_word (cpu_cs c) (push_word (cpu_rflags c)
                (push_word (gpr c RSP) (push_word (cpu_ss c) d))))
      in (if v \<in> error_vectors then push_word err d else d)\<lparr>cpu_cs := 0x08\<rparr>)"

subsection \<open>The code\<close>

definition fault_stub_err :: "nat \<Rightarrow> instr list" where
  "fault_stub_err v = [Cli, Push_imm (of_nat v)]"

definition fault_stub_noerr :: "nat \<Rightarrow> instr list" where
  "fault_stub_noerr v = [Cli, Push_imm 0, Push_imm (of_nat v)]"

definition irq_stub :: "nat \<Rightarrow> instr list" where
  "irq_stub v = [Cli, Push_imm 0, Push_imm (of_nat v)]"

definition yield_stub :: "instr list" where
  "yield_stub = [Cli, Push_imm 0, Push_imm 0x100]"

definition fault_stub :: "nat \<Rightarrow> instr list" where
  "fault_stub v =
     (if v \<in> {10, 11, 12, 13, 14, 17} then fault_stub_err v else fault_stub_noerr v)"

definition stub :: "nat \<Rightarrow> instr list" where
  "stub v = (if v = 255 then yield_stub else if v < 32 then fault_stub v else irq_stub v)"

definition save_state_full_code :: "instr list" where
  "save_state_full_code =
    [Sub_imm RSP 0x88,
     Store RSP 0x08 RAX, Store RSP 0x10 RCX, Store RSP 0x18 RBX, Store RSP 0x20 RDX,
     Store RSP 0x28 RDI, Store RSP 0x30 RSI, Store RSP 0x38 RBP, Store RSP 0x40 R8,
     Store RSP 0x48 R9, Store RSP 0x50 R10, Store RSP 0x58 R11, Store RSP 0x60 R12,
     Store RSP 0x68 R13, Store RSP 0x70 R14, Store RSP 0x78 R15,
     Swapgs, Lea RDI RSP (- 0x40), Load_gs RSI 0x30, Load_gs RSP 0x10]"

definition resume_state_full_code :: "instr list" where
  "resume_state_full_code =
    [Load_gs RSP 0x18, Add_imm RSP 0x40, Swapgs,
     Load RAX RSP 0x08, Load RCX RSP 0x10, Load RBX RSP 0x18, Load RDX RSP 0x20,
     Load RDI RSP 0x28, Load RSI RSP 0x30, Load RBP RSP 0x38, Load R8 RSP 0x40,
     Load R9 RSP 0x48, Load R10 RSP 0x50, Load R11 RSP 0x58, Load R12 RSP 0x60,
     Load R13 RSP 0x68, Load R14 RSP 0x70, Load R15 RSP 0x78,
     Add_imm RSP 0x98, Iretq]"

text \<open>The stores of \<open>ccb_load_tcb\<close> that name the block in \<open>rdi\<close> as the active one.\<close>

definition ccb_load_tcb_code :: "instr list" where
  "ccb_load_tcb_code =
    [Store_gs 0x18 RDI, Lea RAX RDI 0x100, Store_gs 0xC04 RAX, Store_gs 0xC24 RAX]"

text \<open>The entry points of \<open>api.s\<close>, before and after the call of the C function.\<close>

definition apifunc_enter :: "instr list" where
  "apifunc_enter = [Cli, Swapgs, Mov R11 RSP, Load_gs RSP 0x10, Push R11]"

definition apifunc_leave :: "instr list" where
  "apifunc_leave = [Pop RSP, Swapgs, Sti]"

definition apifunc :: "(cpu \<Rightarrow> cpu) \<Rightarrow> cpu \<Rightarrow> cpu" where
  "apifunc logic c = exec_all (apifunc_leave @ [Ret]) (logic (exec_all apifunc_enter c))"

text \<open>With a yield: the state in which \<open>int 0xFF\<close> is executed.\<close>

definition apifunc_then_yield :: "(cpu \<Rightarrow> cpu) \<Rightarrow> u64 \<Rightarrow> cpu \<Rightarrow> cpu" where
  "apifunc_then_yield logic mode c =
     exec_all (apifunc_leave @ [Mov_imm RDI mode]) (logic (exec_all apifunc_enter c))"

subsection \<open>Saving and resuming\<close>

text \<open>A block in memory, read by the layout of \<open>struct tcb\<close>; the vector is pushed as one word.\<close>

definition block_word :: "(ptr \<Rightarrow> u64) \<Rightarrow> ptr \<Rightarrow> string \<Rightarrow> u64" where
  "block_word m p x = m (p + of_nat (the (offsetof 8 tcb_struct x)))"

definition block_tcb :: "(ptr \<Rightarrow> u64) \<Rightarrow> ptr \<Rightarrow> tcb \<Rightarrow> tcb" where
  "block_tcb m p t =
     (let w = block_word m p in
      t\<lparr>tcb_rax := w ''rax'', tcb_rcx := w ''rcx'', tcb_rbx := w ''rbx'',
        tcb_rdx := w ''rdx'', tcb_rdi := w ''rdi'', tcb_rsi := w ''rsi'', tcb_rbp := w ''rbp'',
        tcb_r8 := w ''r8'', tcb_r9 := w ''r9'', tcb_r10 := w ''r10'', tcb_r11 := w ''r11'',
        tcb_r12 := w ''r12'', tcb_r13 := w ''r13'', tcb_r14 := w ''r14'', tcb_r15 := w ''r15'',
        tcb_ivect := ucast (w ''ivect''), tcb_saved := ucast (drop_bit 32 (w ''ivect'')),
        tcb_error := w ''error'', tcb_rip := w ''rip'', tcb_cs := w ''cs'',
        tcb_rflags := w ''rflags'', tcb_rsp := w ''rsp'', tcb_ss := w ''ss''\<rparr>)"

text \<open>The interrupted state; \<open>fs\<close>, \<open>gs\<close> and \<open>ds\<close> are not saved and come from \<open>f\<close>.\<close>

definition cpu_frame :: "cpu \<Rightarrow> u64 \<Rightarrow> frame \<Rightarrow> frame" where
  "cpu_frame c err f =
     f\<lparr>fr_regs := (fr_regs f)
        \<lparr>ts_rip := cpu_rip c, ts_rsp := gpr c RSP, ts_rax := gpr c RAX, ts_rcx := gpr c RCX,
          ts_rbx := gpr c RBX, ts_rdx := gpr c RDX, ts_rdi := gpr c RDI, ts_rsi := gpr c RSI,
          ts_rbp := gpr c RBP, ts_r8 := gpr c R8, ts_r9 := gpr c R9, ts_r10 := gpr c R10,
          ts_r11 := gpr c R11, ts_r12 := gpr c R12, ts_r13 := gpr c R13, ts_r14 := gpr c R14,
          ts_r15 := gpr c R15, ts_cs := cpu_cs c, ts_ss := cpu_ss c\<rparr>,
      fr_error := err, fr_rflags := cpu_rflags c\<rparr>"

lemma block_offsets:
  "offsetof 8 tcb_struct ''rax'' = Some 0x48" "offsetof 8 tcb_struct ''rcx'' = Some 0x50"
  "offsetof 8 tcb_struct ''rbx'' = Some 0x58" "offsetof 8 tcb_struct ''rdx'' = Some 0x60"
  "offsetof 8 tcb_struct ''rdi'' = Some 0x68" "offsetof 8 tcb_struct ''rsi'' = Some 0x70"
  "offsetof 8 tcb_struct ''rbp'' = Some 0x78" "offsetof 8 tcb_struct ''r8'' = Some 0x80"
  "offsetof 8 tcb_struct ''r9'' = Some 0x88" "offsetof 8 tcb_struct ''r10'' = Some 0x90"
  "offsetof 8 tcb_struct ''r11'' = Some 0x98" "offsetof 8 tcb_struct ''r12'' = Some 0xa0"
  "offsetof 8 tcb_struct ''r13'' = Some 0xa8" "offsetof 8 tcb_struct ''r14'' = Some 0xb0"
  "offsetof 8 tcb_struct ''r15'' = Some 0xb8" "offsetof 8 tcb_struct ''ivect'' = Some 0xc8"
  "offsetof 8 tcb_struct ''error'' = Some 0xd0" "offsetof 8 tcb_struct ''rip'' = Some 0xd8"
  "offsetof 8 tcb_struct ''cs'' = Some 0xe0" "offsetof 8 tcb_struct ''rflags'' = Some 0xe8"
  "offsetof 8 tcb_struct ''rsp'' = Some 0xf0" "offsetof 8 tcb_struct ''ss'' = Some 0xf8"
  by code_simp+

text \<open>\<open>ready c p b k\<close>: the active block is \<open>p\<close>, the control block of the processor \<open>b\<close>, its stack \<open>k\<close>.\<close>

definition ready :: "cpu \<Rightarrow> ptr \<Rightarrow> ptr \<Rightarrow> ptr \<Rightarrow> bool" where
  "ready c p b k \<longleftrightarrow> take_bit 12 p = 0 \<and> take_bit 12 b = 0 \<and> p \<noteq> b \<and> tss_sp1 c = p + 0x100 \<and>
     kernel_gs_base c = b \<and> words c (b + 0x30) = b \<and> words c (b + 0x10) = k"

definition vect :: "nat \<Rightarrow> u32" where
  "vect v = (if v = 255 then 0x100 else of_nat v)"

definition enter_kernel :: "nat \<Rightarrow> u64 \<Rightarrow> cpu \<Rightarrow> cpu" where
  "enter_kernel v err c = exec_all (stub v @ save_state_full_code) (deliver v err c)"

lemma block_end_aligned:
  assumes "take_bit 12 p = (0 :: u64)"
  shows "(p + 0x100) AND NOT 0xF = p + 0x100"
proof -
  have "take_bit 4 p = take_bit 4 (take_bit 12 p)" by simp
  then have "2 ^ 4 dvd p" using assms by (simp add: take_bit_eq_0_iff)
  moreover have "2 ^ 4 dvd (0x100 :: u64)" unfolding take_bit_eq_0_iff [symmetric] by simp
  ultimately have "take_bit 4 (p + 0x100) = 0" unfolding take_bit_eq_0_iff by (rule dvd_add)
  from aligned_mask [OF this] show ?thesis by (simp add: mask_eq_exp_minus_1)
qed

text \<open>Words of the block are not words of the control block.\<close>

lemma words_apart:
  assumes "take_bit 12 p = (0 :: u64)" "take_bit 12 b = 0" "p \<noteq> b" "j < 512" "k < 512"
  shows "p + 8 * j \<noteq> b + 8 * k"
  using cell_eq [OF assms(1,2,4,5)] assms(3) by simp

text \<open>
  What a stub leaves on the stack: the error code, or 0 in its place, and the vector. The
  stub of vector 8 is the exception: the processor pushes an error code, the stub another.
\<close>

lemma of_nat_vect: "v < 255 \<Longrightarrow> (of_nat v :: u64) = ucast (vect v)"
  by (simp add: vect_def word_unat_eq_iff unat_of_nat unsigned_ucast_eq take_bit_nat_eq_self)

lemma stub_pushes:
  assumes "gated v" "v \<noteq> 8"
  shows "stub v = Cli # (if v \<in> error_vectors then [] else [Push_imm 0]) @ [Push_imm (ucast (vect v))]"
proof -
  have "v = 255 \<or> v < 255" using assms(1) by (auto simp: gated_def fault_vectors_def)
  then show ?thesis
  proof
    assume "v = 255"
    then show ?thesis by (simp add: stub_def yield_stub_def error_vectors_def vect_def)
  next
    assume v: "v < 255"
    then show ?thesis
      using assms(2) of_nat_vect [OF v]
      by (auto simp: stub_def fault_stub_def fault_stub_err_def fault_stub_noerr_def irq_stub_def
          error_vectors_def)
  qed
qed

lemma vect_word [simp]:
  "ucast (ucast (w :: u32) :: u64) = w" "drop_bit 32 (ucast (w :: u32) :: u64) = 0"
  by (rule bit_word_eqI; auto simp: bit_simps dest: bit_imp_le_length)+

lemmas code_defs = save_state_full_code_def resume_state_full_code_def push_word_def set_reg_def
  stack_word_def Let_def

text \<open>A block in memory is read from its own words.\<close>

lemma block_tcb_cong:
  assumes "\<And>j. j < 32 \<Longrightarrow> m' (q + 8 * j) = m (q + 8 * j)"
  shows "block_tcb m' q t = block_tcb m q t"
  using assms [of 9] assms [of 10] assms [of 11] assms [of 12] assms [of 13] assms [of 14] assms [of
    15] assms [of 16] assms [of 17] assms [of 18] assms [of 19] assms [of 20] assms [of 21]
    assms [of 22] assms [of 23] assms [of 25] assms [of 26] assms [of 27] assms [of 28] assms
    [of 29] assms [of 30] assms [of 31]
  by (simp add: block_tcb_def block_word_def block_offsets)

lemma outside_page:
  assumes "take_bit 12 q = (0 :: u64)" "take_bit 12 p = 0" "q \<noteq> p" "j < 512" "w < 0x1000"
  shows "q + 8 * j \<noteq> p + w"
proof
  assume "q + 8 * j = p + w"
  then have "q + 8 * j - p < 0x1000" using assms(5) by simp
  then show False using cell_in_page [OF assms(1,2,4)] assms(3) by simp
qed

lemma enter_kernel_spec:
  fixes err :: u64
  assumes "ready c p b k" "gated v" "v \<noteq> 8"
  defines "d \<equiv> enter_kernel v err c"
  shows "block_tcb (words d) p t = save_frame (vect v) (cpu_frame c (if v \<in> error_vectors then err else 0) f) t"
    and "\<And>a. (\<And>w. w < 0x100 \<Longrightarrow> a \<noteq> p + w) \<Longrightarrow> words d a = words c a"
    and "gpr d RDI = p" "gpr d RSI = b" "gpr d RSP = k" "gs_base d = b" "kernel_gs_base d = gs_base c"
    and "tss_sp1 d = tss_sp1 c" "cpu_rflags d AND RFLAGS_IF = 0"
proof -
  have sp: "tss_sp1 c AND NOT 0xF = p + 0x100"
    using assms(1) block_end_aligned by (simp add: ready_def)
  have r: "kernel_gs_base c = b" "words c (b + 0x30) = b" "words c (b + 0x10) = k"
    and al: "take_bit 12 p = 0" "take_bit 12 b = 0" "b \<noteq> p"
    using assms(1) by (auto simp: ready_def)
  have ne: "b + 0x30 \<noteq> p + w" "b + 0x10 \<noteq> p + w" if "w < 0x100" for w
    using outside_page [OF al(2,1,3), of 6 w] outside_page [OF al(2,1,3), of 2 w] that
    by (simp_all add: word_less_nat_alt)
  have W: "words d =
    (words c)(p + 0xF8 := cpu_ss c, p + 0xF0 := gpr c RSP, p + 0xE8 := cpu_rflags c,
      p + 0xE0 := cpu_cs c, p + 0xD8 := cpu_rip c,
      p + 0xD0 := if v \<in> error_vectors then err else 0, p + 0xC8 := ucast (vect v),
      p + 0x48 := gpr c RAX, p + 0x50 := gpr c RCX, p + 0x58 := gpr c RBX, p + 0x60 := gpr c RDX,
      p + 0x68 := gpr c RDI, p + 0x70 := gpr c RSI, p + 0x78 := gpr c RBP, p + 0x80 := gpr c R8,
      p + 0x88 := gpr c R9, p + 0x90 := gpr c R10, p + 0x98 := gpr c R11, p + 0xA0 := gpr c R12,
      p + 0xA8 := gpr c R13, p + 0xB0 := gpr c R14, p + 0xB8 := gpr c R15)"
    using sp
    by (cases "v \<in> error_vectors")
      (simp_all add: d_def enter_kernel_def deliver_def stub_pushes [OF assms(2,3)] code_defs
        add.commute [of p])
  have "drop_bit 32 (ucast (vect v) :: u64) = 0" by (rule vect_word)
  then show "block_tcb (words d) p t =
      save_frame (vect v) (cpu_frame c (if v \<in> error_vectors then err else 0) f) t"
    by (simp add: W Let_def block_tcb_def block_word_def block_offsets save_frame_def cpu_frame_def)
  show keep: "words d a = words c a" if out: "\<And>w. w < 0x100 \<Longrightarrow> a \<noteq> p + w" for a
    unfolding W by (simp add: out)
  have "gpr d RDI = p \<and> gpr d RSI = words d (b + 0x30) \<and> gpr d RSP = words d (b + 0x10) \<and> gs_base d = b \<and>
      kernel_gs_base d = gs_base c \<and> tss_sp1 d = tss_sp1 c"
    using sp r(1)
    by (cases "v \<in> error_vectors")
      (simp_all add: d_def enter_kernel_def deliver_def stub_pushes [OF assms(2,3)] code_defs)
  moreover have "words d (b + 0x30) = words c (b + 0x30)" by (rule keep) (rule ne(1))
  moreover have "words d (b + 0x10) = words c (b + 0x10)" by (rule keep) (rule ne(2))
  ultimately show "gpr d RDI = p" "gpr d RSI = b" "gpr d RSP = k" "gs_base d = b"
    "kernel_gs_base d = gs_base c" "tss_sp1 d = tss_sp1 c" using r by simp_all
  have "(cpu_rflags c AND NOT RFLAGS_IF) AND RFLAGS_IF = 0" by (simp add: and.assoc)
  then show "cpu_rflags d AND RFLAGS_IF = 0"
    by (cases "v \<in> error_vectors")
      (simp_all add: d_def enter_kernel_def deliver_def stub_pushes [OF assms(2,3)] code_defs)
qed

lemma resume_spec_code:
  assumes "gs_base c = b" "words c (b + 0x18) = q"
  defines "d \<equiv> exec_all resume_state_full_code c"
  shows "cpu_frame d (fr_error f) f = load_frame (block_tcb (words c) q t) f"
    and "words d = words c" "gs_base d = kernel_gs_base c" "kernel_gs_base d = b"
  using assms(1,2)
  by (simp_all add: d_def code_defs load_frame_def cpu_frame_def block_tcb_def block_word_def block_offsets
      add.commute [of _ q])

subsection \<open>The kernel model and the code\<close>

text \<open>
  \<open>blocks_hold P b k c s\<close>: the words of memory at the blocks \<open>P\<close> are the registers that the
  kernel state \<open>s\<close> has for them, apart from the control block \<open>b\<close>, which names itself and the
  kernel's stack. \<open>represents P b k c s\<close>: and the control block and the TSS name the active one.
\<close>

definition blocks_hold :: "ptr set \<Rightarrow> ptr \<Rightarrow> ptr \<Rightarrow> cpu \<Rightarrow> kernel \<Rightarrow> bool" where
  "blocks_hold P b k c s \<longleftrightarrow> take_bit 12 b = 0 \<and> b \<notin> P \<and>
     (\<forall>q \<in> P. take_bit 12 q = 0 \<and> block_tcb (words c) q (tcbs s q) = tcbs s q) \<and>
     words c (b + 0x30) = b \<and> words c (b + 0x10) = k"

definition represents :: "ptr set \<Rightarrow> ptr \<Rightarrow> ptr \<Rightarrow> cpu \<Rightarrow> kernel \<Rightarrow> bool" where
  "represents P b k c s \<longleftrightarrow> blocks_hold P b k c s \<and> active s \<in> P \<and>
     tss_sp1 c = active s + 0x100 \<and> words c (b + 0x18) = active s"

lemma block_tcb_idem [simp]: "block_tcb m p (block_tcb m p t) = block_tcb m p t"
  by (simp add: block_tcb_def Let_def)

text \<open>The lock byte that \<open>ccb_unload_tcb\<close> clears is none of these words.\<close>

lemma unload_blocks:
  assumes "represents P b k c s"
  shows "blocks_hold P b k c (snd (ccb_unload_tcb s))"
proof -
  have "block_tcb m p (t\<lparr>tcb_reserved0 := w\<rparr>) = (block_tcb m p t)\<lparr>tcb_reserved0 := w\<rparr>" for m p t w
    by (simp add: block_tcb_def Let_def)
  then show ?thesis using assms by (auto simp: represents_def blocks_hold_def ccb_unload_tcb_def Let_def)
qed

lemma enter_kernel_represents:
  fixes err :: u64 and f :: frame
  assumes "represents P b k c s" "kernel_gs_base c = b" "gated v" "v \<noteq> 8"
  defines "d \<equiv> enter_kernel v err c"
    and "t \<equiv> save_state_full (vect v) (cpu_frame c (if v \<in> error_vectors then err else 0) f) s"
  shows "represents P b k d t"
proof -
  let ?p = "active s"
  have al: "take_bit 12 ?p = 0" "take_bit 12 b = 0" "b \<noteq> ?p" using assms(1) by (auto simp: represents_def blocks_hold_def)
  have "ready c ?p b k" using assms(1,2) al by (auto simp: represents_def blocks_hold_def ready_def)
  note E = enter_kernel_spec [OF this assms(3,4), where err = err, folded d_def]
  have page: "words d (q + 8 * j) = words c (q + 8 * j)" if "take_bit 12 q = 0" "q \<noteq> ?p" "j < 512" for q j
  proof (rule E(2))
    fix w :: u64 assume "w < 0x100"
    then have "w < 0x1000" by (simp add: word_less_nat_alt)
    then show "q + 8 * j \<noteq> ?p + w" by (rule outside_page [OF that(1) al(1) that(2,3)])
  qed
  have blocks: "block_tcb (words d) q (tcbs t q) = tcbs t q" if q: "q \<in> P" for q
  proof (cases "q = ?p")
    case True
    have "tcbs t ?p = save_frame (vect v) (cpu_frame c (if v \<in> error_vectors then err else 0) f) (tcbs s ?p)"
      by (simp add: t_def save_state_full_def)
    then have "tcbs t ?p = block_tcb (words d) ?p (tcbs s ?p)" using E(1) by simp
    then show ?thesis using True by simp
  next
    case False
    have qal: "take_bit 12 q = 0" "block_tcb (words c) q (tcbs s q) = tcbs s q"
      using assms(1) q by (auto simp: represents_def blocks_hold_def)
    have "block_tcb (words d) q (tcbs s q) = block_tcb (words c) q (tcbs s q)"
    proof (rule block_tcb_cong)
      fix j :: u64 assume "j < 32"
      then have "j < 512" by (simp add: word_less_nat_alt)
      then show "words d (q + 8 * j) = words c (q + 8 * j)" by (rule page [OF qal(1) False])
    qed
    moreover have "tcbs t q = tcbs s q" using False by (simp add: t_def save_state_full_def)
    ultimately show ?thesis using qal(2) by simp
  qed
  have "words d (b + 0x18) = words c (b + 0x18)" "words d (b + 0x30) = words c (b + 0x30)"
    "words d (b + 0x10) = words c (b + 0x10)"
    using page [OF al(2,3), of 3] page [OF al(2,3), of 6] page [OF al(2,3), of 2] by simp_all
  moreover have "active t = ?p" by (simp add: t_def save_state_full_def)
  ultimately show ?thesis using assms(1) E(8) blocks by (simp add: represents_def blocks_hold_def)
qed

lemma resume_represents:
  assumes "represents P b k c s" "gs_base c = b"
  shows "cpu_frame (exec_all resume_state_full_code c) (fr_error f) f = resume_state_full s f"
proof -
  have "words c (b + 0x18) = active s" "block_tcb (words c) (active s) (tcbs s (active s)) = tcbs s (active s)"
    using assms(1) by (simp_all add: represents_def blocks_hold_def)
  with resume_spec_code(1) [OF assms(2), of "active s" f "tcbs s (active s)"] show ?thesis
    by (simp add: resume_state_full_def)
qed

text \<open>\<open>ccb_load_tcb\<close> prepares the next entry.\<close>

lemma load_tcb_code:
  assumes "gs_base c = b"
  shows "tss_sp1 (exec_all ccb_load_tcb_code c) = gpr c RDI + 0x100"
    "words (exec_all ccb_load_tcb_code c) = (words c)(b + 0x18 := gpr c RDI)"
  using assms by (simp_all add: ccb_load_tcb_code_def set_reg_def)

lemma load_tcb_represents:
  assumes "blocks_hold P b k c s" "gs_base c = b" "gpr c RDI \<in> P" "active s = 0"
  shows "represents P b k (exec_all ccb_load_tcb_code c) (snd (ccb_load_tcb (gpr c RDI) s))"
proof -
  let ?d = "exec_all ccb_load_tcb_code c" and ?t = "snd (ccb_load_tcb (gpr c RDI) s)"
  note h = assms(1) [unfolded blocks_hold_def]
  note d = load_tcb_code [OF assms(2)]
  have t: "active ?t = gpr c RDI" "tcbs ?t = tcbs s" using assms(4) by (auto simp: ccb_load_tcb_def Let_def)
  have page: "block_tcb (words ?d) q u = block_tcb (words c) q u" if q: "q \<in> P" for q u
  proof (rule block_tcb_cong)
    fix j :: u64 assume "j < 32"
    then have "j < 512" by (simp add: word_less_nat_alt)
    moreover have "take_bit 12 q = 0" "q \<noteq> b" using h q by auto
    ultimately have "q + 8 * j \<noteq> b + 8 * 3" using words_apart [of q b j 3] h by simp
    then show "words ?d (q + 8 * j) = words c (q + 8 * j)" by (simp add: d(2))
  qed
  show ?thesis using h assms(3) t page by (simp add: represents_def blocks_hold_def d)
qed

text \<open>
  \<open>idle\<close> gives the thread's \<open>gs\<close> base back and opens interrupts, then halts; the loop around
  the halt changes nothing. What it leaves is what an interrupt is entered from.
\<close>

definition idle_code :: "instr list" where
  "idle_code = [Swapgs, Sti]"

lemma idle_ready:
  assumes "represents P b k c s" "gs_base c = b"
  defines "d \<equiv> exec_all idle_code c"
  shows "represents P b k d s" "kernel_gs_base d = b" "cpu_rflags d AND RFLAGS_IF = RFLAGS_IF"
  using assms(1,2)
  by (simp_all add: d_def idle_code_def represents_def blocks_hold_def bit.conj_disj_distrib2 RFLAGS_IF_def)

text \<open>So the thread block of the idle thread takes the state of an interrupt that ends the halt.\<close>

lemma idle_interrupted:
  fixes f :: frame
  assumes "represents P b k c s" "gs_base c = b" "gated v" "v \<noteq> 8"
  defines "d \<equiv> exec_all idle_code c"
  shows "represents P b k (enter_kernel v err d)
    (save_state_full (vect v) (cpu_frame d (if v \<in> error_vectors then err else 0) f) s)"
  using enter_kernel_represents [OF idle_ready(1,2) [OF assms(1,2)] assms(3,4)] by (simp add: d_def)

subsection \<open>Entry points\<close>

text \<open>
  What the entry points rely on of a compiled C function, the calling convention: it keeps
  the callee-saved registers, the stack pointer and \<open>gs\<close>, and the words of its callers'
  frames; \<open>kept\<close> are the addresses of these words.
\<close>

definition callee_saved :: "reg set" where
  "callee_saved = {RBX, RBP, R12, R13, R14, R15}"

definition argument_regs :: "reg set" where
  "argument_regs = {RDI, RSI, RDX, RCX, R8, R9}"

definition keeps_convention :: "(cpu \<Rightarrow> cpu) \<Rightarrow> ptr set \<Rightarrow> cpu \<Rightarrow> bool" where
  "keeps_convention logic kept e \<longleftrightarrow>
     (\<forall>r \<in> insert RSP callee_saved. gpr (logic e) r = gpr e r) \<and>
     gs_base (logic e) = gs_base e \<and> kernel_gs_base (logic e) = kernel_gs_base e \<and>
     (\<forall>a \<in> kept. words (logic e) a = words e a)"

lemma apifunc_spec:
  assumes "kernel_gs_base c = b" "words c (b + 0x10) = k" "gpr c RSP \<noteq> k - 8"
  defines "e \<equiv> exec_all apifunc_enter c"
  assumes "keeps_convention logic {k - 8, gpr c RSP} e"
  shows "\<forall>r \<in> argument_regs. gpr e r = gpr c r" "gpr e RSP = k - 8" "gs_base e = b"
      "cpu_rflags e AND RFLAGS_IF = 0"
    and "cpu_rip (apifunc logic c) = words c (gpr c RSP)" "gpr (apifunc logic c) RSP = gpr c RSP + 8"
      "\<forall>r \<in> callee_saved. gpr (apifunc logic c) r = gpr c r"
      "gpr (apifunc logic c) RAX = gpr (logic e) RAX"
      "gs_base (apifunc logic c) = gs_base c" "kernel_gs_base (apifunc logic c) = b"
      "cpu_rflags (apifunc logic c) AND RFLAGS_IF \<noteq> 0"
    and "gpr (apifunc_then_yield logic mode c) RSP = gpr c RSP"
      "gpr (apifunc_then_yield logic mode c) RDI = mode"
      "\<forall>r \<in> callee_saved. gpr (apifunc_then_yield logic mode c) r = gpr c r"
      "gs_base (apifunc_then_yield logic mode c) = gs_base c"
      "kernel_gs_base (apifunc_then_yield logic mode c) = b"
proof -
  have e: "e = c\<lparr>cpu_rflags := cpu_rflags c AND NOT RFLAGS_IF, gs_base := b, kernel_gs_base := gs_base c,
      gpr := (gpr c)(R11 := gpr c RSP, RSP := k - 8), words := (words c)(k - 8 := gpr c RSP)\<rparr>"
    using assms(1,2) by (simp add: e_def apifunc_enter_def push_word_def set_reg_def Let_def)
  show "\<forall>r \<in> argument_regs. gpr e r = gpr c r" "gpr e RSP = k - 8" "gs_base e = b"
    by (simp_all add: e argument_regs_def)
  have "(cpu_rflags c AND NOT RFLAGS_IF) AND RFLAGS_IF = 0" by (simp add: and.assoc)
  then show "cpu_rflags e AND RFLAGS_IF = 0" by (simp add: e)
  let ?l = "logic e"
  have l: "gpr ?l RSP = k - 8" "\<forall>r \<in> callee_saved. gpr ?l r = gpr c r" "gs_base ?l = b"
    "kernel_gs_base ?l = gs_base c" "words ?l (k - 8) = gpr c RSP"
    "words ?l (gpr c RSP) = words c (gpr c RSP)"
    using assms(3,5) by (auto simp: keeps_convention_def e callee_saved_def)
  have d: "apifunc logic c = exec_all [Swapgs, Sti, Ret] (set_reg RSP (gpr c RSP) ?l)"
    using l(1,5) by (simp add: apifunc_def apifunc_leave_def e_def [symmetric] stack_word_def set_reg_def)
  show "cpu_rip (apifunc logic c) = words c (gpr c RSP)" "gpr (apifunc logic c) RSP = gpr c RSP + 8"
    "\<forall>r \<in> callee_saved. gpr (apifunc logic c) r = gpr c r"
    "gpr (apifunc logic c) RAX = gpr (logic e) RAX"
    "gs_base (apifunc logic c) = gs_base c" "kernel_gs_base (apifunc logic c) = b"
    "cpu_rflags (apifunc logic c) AND RFLAGS_IF \<noteq> 0"
    using l by (simp_all add: d set_reg_def stack_word_def callee_saved_def bit.conj_disj_distrib2 RFLAGS_IF_def)
  have y: "apifunc_then_yield logic mode c = exec_all [Swapgs, Sti, Mov_imm RDI mode] (set_reg RSP (gpr c RSP) ?l)"
    using l(1,5) by (simp add: apifunc_then_yield_def apifunc_leave_def e_def [symmetric] stack_word_def set_reg_def)
  show "gpr (apifunc_then_yield logic mode c) RSP = gpr c RSP"
    "gpr (apifunc_then_yield logic mode c) RDI = mode"
    "\<forall>r \<in> callee_saved. gpr (apifunc_then_yield logic mode c) r = gpr c r"
    "gs_base (apifunc_then_yield logic mode c) = gs_base c"
    "kernel_gs_base (apifunc_then_yield logic mode c) = b"
    using l by (simp_all add: y set_reg_def callee_saved_def)
qed

end
