(* ===== verification/Page_Inv.thy ===== *)
theory Page_Inv
  imports Kernel_Specs Page_Tables
begin

text \<open>
  The page tables of the running system. What a step of the machine does to page tables is
  one of three things: nothing, an allocation, or \<open>pcx_set_frame\<close>. A property that survives
  these three survives every sequence of calls, interrupts and faults (locale
  \<open>paging_property\<close>). The tree of tables and the kernel's window onto physical memory is
  such a property.
\<close>

subsection \<open>Steps that leave paging alone\<close>

definition pg_view where
  "pg_view s = (mem s, pcx_root s, pmm_view s, pge_list s, pge_lock s,
     pmm_map_cutoff s, pmm_map_low s, pmm_map_high s)"

named_theorems pg_frame

lemma pg_view_upd [simp]:
  "pg_view (upd_tcb p f s) = pg_view s" "pg_view (set_state p v s) = pg_view s"
  "pg_view (s\<lparr>schedule_head := p\<rparr>) = pg_view s" "pg_view (s\<lparr>schedule_tail := p\<rparr>) = pg_view s"
  "pg_view (s\<lparr>the_ccb := c\<rparr>) = pg_view s" "pg_view (s\<lparr>cr3 := r\<rparr>) = pg_view s"
  "pg_view (s\<lparr>tcb_list := p\<rparr>) = pg_view s" "pg_view (s\<lparr>tcb_lock := m\<rparr>) = pg_view s"
  "pg_view (s\<lparr>tcb_table := tab\<rparr>) = pg_view s" "pg_view (s\<lparr>tcb_table_lock := m\<rparr>) = pg_view s"
  "pg_view (s\<lparr>interrupt_vector_page_table := vt\<rparr>) = pg_view s"
  "pg_view (s\<lparr>pcx_root_lock := m\<rparr>) = pg_view s" "pg_view (set_queue_head q p s) = pg_view s"
  "pg_view (tcb_table_release s) = pg_view s" "pg_view (set_tcb_entry i p s) = pg_view s"
  "pg_view (pcx_unlock s) = pg_view s" "pg_view (set_route vec i p s) = pg_view s"
  "pg_view (set_tap p i w s) = pg_view s" "pg_view (save_state_full n fr s) = pg_view s"
  "pg_view (signal_eoi s) = pg_view s"
  by (simp_all add: pg_view_def pmm_view_def upd_tcb_def set_state_def tcb_table_release_def
      set_tcb_entry_def pcx_unlock_def set_route_def set_tap_def save_state_full_def signal_eoi_def
      Let_def) (cases q; simp)+

lemma pg_scheduler [pg_frame]:
  "scheduler_push_tcb p s = Some t \<Longrightarrow> pg_view t = pg_view s"
  "scheduler_add_tcb p s = Some t \<Longrightarrow> pg_view t = pg_view s"
  "scheduler_rem_tcb p s = Some (r, t) \<Longrightarrow> pg_view t = pg_view s"
  "scheduler_pull_tcb s = (p, t) \<Longrightarrow> pg_view t = pg_view s"
  "ccb_load_tcb p s = (x, t) \<Longrightarrow> pg_view t = pg_view s"
  "ccb_unload_tcb s = (p, t) \<Longrightarrow> pg_view t = pg_view s"
  by (auto simp: scheduler_add_tcb_def scheduler_push_tcb_def scheduler_rem_tcb_def
      scheduler_pull_tcb_def ccb_load_tcb_def ccb_unload_tcb_def Let_def bind_eq_Some_conv
      split: if_splits)

lemma pg_schedule [pg_frame]:
  assumes "scheduler_schedule s = Some t"
  shows "pg_view t = pg_view s"
proof -
  obtain p u where un: "ccb_unload_tcb s = (p, u)" by fastforce
  obtain v where v: "(if p \<noteq> 0 then scheduler_push_tcb p (set_state p TCB_STATE_QUEUED u) else Some u) = Some v"
    using assms un by (auto simp: scheduler_schedule_def bind_eq_Some_conv)
  obtain n w where pull: "scheduler_pull_tcb v = (n, w)" by fastforce
  have load: "pg_view (snd (ccb_load_tcb q x)) = pg_view x" for q x
    using pg_scheduler(5) [of q x] by (metis prod.collapse)
  have "pg_view t = pg_view w"
    using assms un v pull load by (auto simp: scheduler_schedule_def split: if_splits)
  then show ?thesis
    using pg_scheduler(1) [of p] pg_scheduler(4) [OF pull] pg_scheduler(6) [OF un] v
    by (auto split: if_splits)
qed

lemma pg_queues [pg_frame]:
  "enqueue q p s = Some t \<Longrightarrow> pg_view t = pg_view s"
  "get_queued q s = (p, t) \<Longrightarrow> pg_view t = pg_view s"
  "thread_get_queued q s = (n, t) \<Longrightarrow> pg_view t = pg_view s"
  by (auto simp: enqueue_def get_queued_def thread_get_queued_def Let_def bind_eq_Some_conv
      split: if_splits)

lemma pg_notify [pg_frame]:
  assumes "interrupt_notify vec p s = Some t"
  shows "pg_view t = pg_view s"
  using assms by (auto simp: interrupt_notify_def Let_def bind_eq_Some_conv
      dest!: pg_scheduler(2) split: option.splits if_splits)

lemma pg_notify_all [pg_frame]: "interrupt_notify_all vec ps s = Some t \<Longrightarrow> pg_view t = pg_view s"
  by (induction vec ps s rule: interrupt_notify_all.induct)
     (auto simp: bind_eq_Some_conv dest: pg_notify split: if_splits)

lemma pg_vectors [pg_frame]:
  "interrupt_vector_fire vec s = Some t \<Longrightarrow> pg_view t = pg_view s"
  "interrupt_vector_reset vec s = Some t \<Longrightarrow> pg_view t = pg_view s"
proof -
  show fire: "interrupt_vector_fire vec s = Some t \<Longrightarrow> pg_view t = pg_view s"
    using pg_notify_all
    by (auto simp: interrupt_vector_fire_def vector_page_def run_on_fire_def bind_eq_Some_conv
        split: option.splits vec_handler.splits)
  show "interrupt_vector_reset vec s = Some t \<Longrightarrow> pg_view t = pg_view s"
    using fire reset_cases [of vec s t] by blast
qed

lemma pg_routes [pg_frame]:
  "interrupt_add_route p vec s = Some t \<Longrightarrow> pg_view t = pg_view s"
  "interrupt_remove_route p vec s = Some t \<Longrightarrow> pg_view t = pg_view s"
  using route_cases [of p vec s t] pg_view_upd by metis+

lemma pg_tcb_free [pg_frame]: "tcb_free p s = Some t \<Longrightarrow> pg_view t = pg_view s"
  by (auto simp: tcb_free_def allocator_free_def tcb_allocator_def allocator_release_def Let_def
      bind_eq_Some_conv)

lemma pg_tcb_del [pg_frame]:
  assumes "tcb_del p s = Some t"
  shows "pg_view t = pg_view s"
  using assms
  by (auto simp: tcb_del_def Let_def bind_eq_Some_conv dest!: pg_tcb_free split: if_splits)

lemma pg_tcb_get [pg_frame]: "tcb_get n s = Some (p, t) \<Longrightarrow> pg_view t = pg_view s"
  by (auto simp: tcb_get_def Let_def bind_eq_Some_conv split: if_splits)

lemma pg_thread_calls [pg_frame]:
  "apilogic_thread_pause n s = Some (r, t) \<Longrightarrow> pg_view t = pg_view s"
  "apilogic_thread_resume n s = Some (r, t) \<Longrightarrow> pg_view t = pg_view s"
  "apilogic_thread_reap n s = Some (r, t) \<Longrightarrow> pg_view t = pg_view s"
  "apilogic_thread_pull_state n cls state s = Some (r, state', t) \<Longrightarrow> pg_view t = pg_view s"
  "apilogic_thread_push_state n cls state s = Some (r, t) \<Longrightarrow> pg_view t = pg_view s"
  by (auto simp: apilogic_thread_pause_def apilogic_thread_resume_def apilogic_thread_reap_def
      apilogic_thread_pull_state_def apilogic_thread_push_state_def bind_eq_Some_conv
      dest!: pg_tcb_get pg_tcb_del pg_scheduler(2,3) split: if_splits option.splits)

lemma pg_exit [pg_frame]:
  assumes "apilogic_thread_exit s = Some t"
  shows "pg_view t = pg_view s"
  using assms by (auto simp: apilogic_thread_exit_def queue_zombie_def Let_def bind_eq_Some_conv
      dest!: pg_vectors(1) pg_queues(1))

lemma pg_set_tap_call [pg_frame]:
  assumes "apilogic_interrupt_set_tap i v s = Some (r, t)"
  shows "pg_view t = pg_view s"
  using assms by (auto simp: apilogic_interrupt_set_tap_def Let_def bind_eq_Some_conv
      dest!: pg_vectors(2) pg_routes split: if_splits)

lemma pg_interrupt_calls [pg_frame]:
  "apilogic_interrupt_reset v s = Some t \<Longrightarrow> pg_view t = pg_view s"
  "apilogic_interrupt_wait s = Some (w, t) \<Longrightarrow> pg_view t = pg_view s"
  by (auto simp: apilogic_interrupt_reset_def apilogic_interrupt_wait_def Let_def bind_eq_Some_conv
      dest!: pg_vectors(2) split: option.splits)

lemma pg_fault_calls [pg_frame]:
  "apilogic_fault_get_pagefault pf s = Some (r, pf', t) \<Longrightarrow> pg_view t = pg_view s"
  "apilogic_fault_get_miscfault mf s = (r, mf', t) \<Longrightarrow> pg_view t = pg_view s"
  "apilogic_fault_get_zombie zi s = (r, zi', t) \<Longrightarrow> pg_view t = pg_view s"
  by (auto simp: apilogic_fault_get_pagefault_def apilogic_fault_get_miscfault_def
      apilogic_fault_get_zombie_def get_pagefault_def get_miscfault_def get_zombie_def
      pcx_get_trans_def pcx_get_flags_def Let_def bind_eq_Some_conv
      dest!: pg_queues(2) split: option.splits prod.splits if_splits)

lemma pg_page_get [pg_frame]: "apilogic_page_get v s = Some (r, t) \<Longrightarrow> pg_view t = pg_view s"
  by (auto simp: apilogic_page_get_def pcx_get_trans_def pcx_get_flags_def bind_eq_Some_conv)

lemma pg_fault_path:
  assumes "(case ccb_unload_tcb s of (p, s) \<Rightarrow> do {
      s \<leftarrow> enqueue q p s; s \<leftarrow> interrupt_vector_fire vec s; scheduler_schedule s }) = Some t"
  shows "pg_view t = pg_view s"
  using assms by (auto simp: bind_eq_Some_conv split: prod.splits
      dest!: pg_schedule pg_vectors(1) pg_queues(1) pg_scheduler(6))

lemma pg_entry [pg_frame]:
  assumes "interrupt_entry v f cr2 s = Some t"
  shows "pg_view t = pg_view s"
proof -
  have "pg_view t = pg_view u" if "fault cr2 a u = Some t" for a u
  proof -
    have unload: "pg_view (snd (ccb_unload_tcb u)) = pg_view u"
      using pg_scheduler(6) [of u] by (metis prod.collapse)
    from that show ?thesis
      using pg_fault_path [of Miscfault_queue PINION_INTERRUPT_MISCFAULT u t]
        pg_fault_path [of Pagefault_queue PINION_INTERRUPT_PAGEFAULT "pcx_unlock u" t] unload
      by (auto simp: fault_def Let_def pcx_get_trans_def pcx_get_flags_def bind_eq_Some_conv
          queue_pagefault_def queue_miscfault_def dest!: pg_schedule split: if_splits)
  qed
  then show ?thesis using assms by (fastforce simp: interrupt_entry_def Let_def)
qed

subsection \<open>Properties of paging that every step keeps\<close>

locale paging_property =
  fixes I :: "kernel \<Rightarrow> bool"
  assumes view: "pg_view t = pg_view s \<Longrightarrow> I s \<Longrightarrow> I t"
    and alloc_page: "pmm_alloc s = Some (p, t) \<Longrightarrow> I s \<Longrightarrow> I t"
    and alloc_table: "pge_alloc s = Some (p, t) \<Longrightarrow> I s \<Longrightarrow> I t"
    and frame: "pcx_set_frame 0 addr z fr flags s = Some (e, t) \<Longrightarrow> I s \<Longrightarrow> I t"
begin

lemma tcb_alloc:
  assumes "tcb_alloc s = Some (p, t)" "I s"
  shows "I t"
proof (cases "tcb_list s = 0")
  case False
  then have "pg_view t = pg_view s"
    using assms(1) by (auto simp: tcb_alloc_def allocator_alloc_def tcb_allocator_def
        allocator_pop_def allocator_release_def Let_def bind_eq_Some_conv)
  then show ?thesis using view assms(2) by blast
next
  case True
  from assms(1) obtain m where m: "mutex_acquire (tcb_lock s) = Some m"
    by (auto simp: tcb_alloc_def allocator_alloc_def tcb_allocator_def bind_eq_Some_conv)
  from assms(1) True m obtain q u where u: "pmm_alloc (s\<lparr>tcb_lock := m\<rparr>) = Some (q, u)"
    by (auto simp: tcb_alloc_def allocator_alloc_def tcb_allocator_def bind_eq_Some_conv)
  have "I (s\<lparr>tcb_lock := m\<rparr>)" by (rule view [OF _ assms(2)]) simp
  from alloc_page [OF u this] have "I u" .
  moreover have "pg_view t = pg_view u"
    using assms(1) True m u by (auto simp: tcb_alloc_def allocator_alloc_def tcb_allocator_def
        allocator_pop_def allocator_release_def Let_def split: if_splits)
  ultimately show ?thesis using view by blast
qed

lemma tcb_subtable:
  assumes "tcb_subtable i s = Some (ok, t)" "I s"
  shows "I t"
proof -
  have "t = s \<or> (\<exists>p u. pge_alloc s = Some (p, u) \<and> pg_view t = pg_view u)"
    using assms(1) by (auto simp: tcb_subtable_def bind_eq_Some_conv split: option.splits if_splits)
  then show ?thesis using assms(2) alloc_table view by blast
qed

lemma tcb_new_search: "tcb_new_search i p s = Some (q, t) \<Longrightarrow> I s \<Longrightarrow> I t"
proof (induction i p s arbitrary: q t rule: tcb_new_search.induct)
  case (1 i p s)
  show ?case
  proof (cases "i < TCB_LIMIT")
    case False
    then have "pg_view t = pg_view s"
      using "1.prems"(1) unfolding tcb_new_search.simps [of i p s]
      by (auto simp: bind_eq_Some_conv dest!: pg_tcb_free)
    then show ?thesis using view "1.prems"(2) by blast
  next
    case True
    with "1.prems"(1) obtain ok u where u: "tcb_subtable i s = Some (ok, u)"
      unfolding tcb_new_search.simps [of i p s] by (auto simp: bind_eq_Some_conv)
    have iu: "I u" by (rule tcb_subtable [OF u "1.prems"(2)])
    show ?thesis
    proof (cases "ok \<and> tcb_entry u i \<noteq> 0")
      case False
      then have "pg_view t = pg_view u"
        using "1.prems"(1) True u unfolding tcb_new_search.simps [of i p s]
        by (auto simp: bind_eq_Some_conv dest!: pg_tcb_free split: if_splits)
      then show ?thesis using view iu by blast
    next
      case next_slot: True
      then have "tcb_new_search (Suc i) p u = Some (q, t)"
        using "1.prems"(1) True u unfolding tcb_new_search.simps [of i p s] by simp
      with "1.IH" [OF True u refl] next_slot iu show ?thesis by blast
    qed
  qed
qed

lemma tcb_new:
  assumes "tcb_new s = Some (p, t)" "I s"
  shows "I t"
proof -
  from assms(1) obtain q u where u: "tcb_alloc s = Some (q, u)"
    by (auto simp: tcb_new_def bind_eq_Some_conv)
  have iu: "I (u\<lparr>tcb_table_lock := m\<rparr>)" for m by (rule view [OF _ tcb_alloc [OF u assms(2)]]) simp
  show ?thesis
    using assms(1) u iu tcb_new_search tcb_alloc [OF u assms(2)]
    by (fastforce simp: tcb_new_def bind_eq_Some_conv split: if_splits)
qed

lemma thread_create:
  assumes "apilogic_thread_create s = Some (n, t)" "I s"
  shows "I t"
proof -
  from assms(1) obtain p u where u: "tcb_new s = Some (p, u)" "pg_view t = pg_view u"
    by (auto simp: apilogic_thread_create_def bind_eq_Some_conv Let_def split: if_splits)
  show ?thesis by (rule view [OF u(2) tcb_new [OF u(1) assms(2)]])
qed

lemma page_set_loop:
  "page_set_loop n i vbase pbase flags s = Some (r, t) \<Longrightarrow> I s \<Longrightarrow> I t"
proof (induction n arbitrary: i s)
  case (Suc n)
  then obtain e u where u: "pcx_set_frame 0 (vbase + i) 0x1000 (pbase + i) flags s = Some (e, u)"
    by (auto simp: bind_eq_Some_conv)
  with frame Suc.prems(2) have "I u" by blast
  then show ?case using Suc u by (auto split: if_splits)
qed simp

lemma page_set:
  assumes "apilogic_page_set vbase pbase flags z s = Some (r, t)" "I s"
  shows "I t"
  using assms page_set_loop by (auto simp: apilogic_page_set_def Let_def split: if_splits)

lemma call:
  assumes "apilogic c s = Some (r, t)" "I s"
  shows "I t"
proof -
  have "pg_view t = pg_view s \<or> c = Thread_create \<or> (\<exists>a b f z. c = Page_set a b f z)"
    using assms(1)
    by (cases c) (auto simp: bind_eq_Some_conv apilogic_thread_yield_def
        apilogic_thread_get_pagefault_def apilogic_thread_get_miscfault_def
        apilogic_thread_get_zombie_def split: prod.splits dest: pg_frame)
  then show ?thesis
    using assms view thread_create page_set by (auto simp: bind_eq_Some_conv)
qed

lemma step:
  assumes "mstep m e m'" "I (kern m)"
  shows "I (kern m')"
  using assms call view [OF pg_entry] by (cases rule: mstep.cases) auto

lemma run: "mrun m es m' \<Longrightarrow> I (kern m) \<Longrightarrow> I (kern m')"
  by (induction rule: mrun.induct) (auto dest: step)

end

end
