(* ===== verification/Window.thy ===== *)
theory Window
  imports Page_Inv
begin

text \<open>
  The page tables of a running kernel are a tree (\<open>tables\<close>) in which the last entries of the
  first two levels lead to the table that \<open>pcx_init\<close> filled with large pages: the kernel's
  window onto physical memory. \<open>pcx_init\<close> establishes this and no step of the machine
  changes it, so the window translates as \<open>pmm_vaddr\<close> expects, in every reachable state.
\<close>

subsection \<open>The invariant\<close>

definition kernel_link :: "ptr \<Rightarrow> u64" where
  "kernel_link p = (p - page_base) OR (PF_PRES OR PF_WRITE)"

definition window_page :: "ptr \<Rightarrow> bool" where
  "window_page p \<longleftrightarrow> take_bit 12 p = 0 \<and> page_base \<le> p"

definition window :: "(ptr \<Rightarrow> u64) \<Rightarrow> ptr \<Rightarrow> bool" where
  "window m root \<longleftrightarrow> (\<exists>p3 p2. window_page p3 \<and> m (root + 8 * 511) = kernel_link p3 \<and>
     window_page p2 \<and> m (p3 + 8 * 511) = kernel_link p2 \<and>
     (\<forall>i < 512. m (p2 + 8 * of_nat i) = pinion_pt2_entry i))"

lemma kernel_link_flags: "link_flags (PF_PRES OR PF_WRITE)"
  by (simp add: link_flags_def pf_defs)

lemma kernel_link_entry:
  assumes "window_page p"
  shows "descends (kernel_link p)" "next_table (kernel_link p) = p"
  using table_entry [OF window_frame kernel_link_flags] assms
  by (simp_all add: kernel_link_def window_page_def)

lemma windowE:
  assumes "window m root"
  obtains p3 p2 where "window_page p3" "m (root + 8 * 511) = kernel_link p3" "window_page p2"
    "m (p3 + 8 * 511) = kernel_link p2" "\<And>i. i < 512 \<Longrightarrow> m (p2 + 8 * of_nat i) = pinion_pt2_entry i"
    "descends (m (root + 8 * 511))" "next_table (m (root + 8 * 511)) = p3"
    "descends (m (p3 + 8 * 511))" "next_table (m (p3 + 8 * 511)) = p2"
proof -
  from assms obtain p3 p2 where w: "window_page p3" "m (root + 8 * 511) = kernel_link p3"
    "window_page p2" "m (p3 + 8 * 511) = kernel_link p2"
    "\<And>i. i < 512 \<Longrightarrow> m (p2 + 8 * of_nat i) = pinion_pt2_entry i" by (auto simp: window_def)
  show ?thesis
    by (rule that [OF w]) (simp_all only: w(2,4) kernel_link_entry [OF w(1)] kernel_link_entry [OF w(3)])
qed

definition paging_inv :: "kernel \<Rightarrow> bool" where
  "paging_inv s \<longleftrightarrow> (\<exists>lv. tables lv s \<and> lv (pcx_root s) = 4 \<and> window (mem s) (pcx_root s))"

text \<open>
  Present entries of the tables above the last level stay, whatever is added: \<open>upper\<close> is what
  a step guarantees for the levels \<open>lv\<close> and the contents \<open>m\<close> it started from.
\<close>

definition upper :: "(ptr \<Rightarrow> nat) \<Rightarrow> (ptr \<Rightarrow> u64) \<Rightarrow> (ptr \<Rightarrow> nat) \<Rightarrow> (ptr \<Rightarrow> u64) \<Rightarrow> bool" where
  "upper lv m lv' m' \<longleftrightarrow> (\<forall>q. 1 < lv q \<longrightarrow> lv' q = lv q \<and>
     (\<forall>k < 512. m (q + 8 * k) AND PF_PRES \<noteq> 0 \<longrightarrow> m' (q + 8 * k) = m (q + 8 * k)))"

lemma upper_grows: "grows lv m lv' m' \<Longrightarrow> upper lv m lv' m'"
  by (simp add: upper_def grows_def)

lemma upper_refl [simp]: "upper lv m lv m"
  by (simp add: upper_def)

lemma upper_trans:
  assumes "upper lv m lv1 m1" "upper lv1 m1 lv2 m2"
  shows "upper lv m lv2 m2"
  using assms unfolding upper_def by (metis (no_types, lifting))

lemma flag_bits:
  "e AND PF_PRES \<noteq> 0 \<longleftrightarrow> bit e 0" "e AND PF_LARGE \<noteq> 0 \<longleftrightarrow> bit e 7"
proof -
  note f = bit_iff_and_push_bit_not_eq_0 [of e]
  show "e AND PF_PRES \<noteq> 0 \<longleftrightarrow> bit e 0" "e AND PF_LARGE \<noteq> 0 \<longleftrightarrow> bit e 7"
    using f [of 0] f [of 7] by (simp_all add: PF_PRES_def PF_LARGE_def)
qed

text \<open>The entries of the window: a frame of 2 MB and flags.\<close>

definition window_frame_of :: "nat \<Rightarrow> u64" where
  "window_frame_of i = push_bit 21 (of_nat i) + (if i < 256 then 0 else 0xC0000000)"

definition window_flags :: "nat \<Rightarrow> u64" where
  "window_flags i = PF_VALID OR PF_PRES OR PF_WRITE OR PF_LARGE OR PF_GLOBL OR (if i < 256 then 0 else PF_PCD)"

lemma pt2_entry_split: "pinion_pt2_entry i = window_frame_of i OR window_flags i"
  by (simp add: pinion_pt2_entry_def window_frame_of_def window_flags_def or.assoc)

lemma pt2_entry_present: "pinion_pt2_entry i AND PF_PRES \<noteq> 0" "pinion_pt2_entry i AND PF_LARGE \<noteq> 0"
  "\<not> descends (pinion_pt2_entry i)"
proof -
  have "bit (window_flags i) 0" "bit (window_flags i) 7"
    by (simp_all add: window_flags_def bit_or_iff pf_defs)
  then have "bit (pinion_pt2_entry i) 0" "bit (pinion_pt2_entry i) 7"
    unfolding pt2_entry_split by (simp_all add: bit_or_iff)
  then show "pinion_pt2_entry i AND PF_PRES \<noteq> 0" "pinion_pt2_entry i AND PF_LARGE \<noteq> 0"
    "\<not> descends (pinion_pt2_entry i)" by (simp_all add: descends_def flag_bits)
qed

lemma window_frame_unat:
  assumes "i < 512"
  shows "unat (window_frame_of i) = i * 2 ^ 21 + (if i < 256 then 0 else 0xC0000000)"
  using assms by (simp add: window_frame_of_def push_bit_eq_mult unat_word_ariths unat_of_nat)

lemma window_flags_bits: "window_flags i AND PF_BITS = window_flags i"
  by (simp add: window_flags_def pf_defs)

lemma window_frame_low:
  assumes "i < 512"
  shows "window_frame_of i AND PF_BITS = 0"
proof (rule low_frame)
  note u = window_frame_unat [OF assms]
  then have "0x1000 dvd unat (window_frame_of i)" by (simp add: dvd_add dvd_mult)
  then show "take_bit 12 (window_frame_of i) = 0" unfolding page_aligned_iff .
  show "unat (window_frame_of i) < 2 ^ 63" using u assms by simp
qed

lemma pt2_entry_frame:
  assumes "i < 512"
  shows "pinion_pt2_entry i AND NOT PF_BITS = window_frame_of i"
  unfolding pt2_entry_split by (rule entry_frame(1) [OF window_frame_low [OF assms] window_flags_bits])

lemma window_upper:
  assumes "window m root" "pt_tree lv m" "lv root = 4" "upper lv m lv' m'"
  shows "window m' root" "lv' root = 4"
proof -
  from windowE [OF assms(1)] obtain p3 p2 where w: "descends (m (root + 8 * 511))"
    "next_table (m (root + 8 * 511)) = p3" "descends (m (p3 + 8 * 511))"
    "next_table (m (p3 + 8 * 511)) = p2" "\<And>i. i < 512 \<Longrightarrow> m (p2 + 8 * of_nat i) = pinion_pt2_entry i"
    and e: "window_page p3" "m (root + 8 * 511) = kernel_link p3" "window_page p2"
    "m (p3 + 8 * 511) = kernel_link p2" by metis
  note T = pt_treeD(2) [OF assms(2)]
  have b: "(511 :: u64) < 512" by simp
  have l3: "lv p3 = 3" using T [OF _ b w(1)] w(2) assms(3) by simp
  then have l2: "lv p2 = 2" using T [OF _ b w(3)] w(4) by simp
  have keep: "m' (q + 8 * k) = m (q + 8 * k)" if "1 < lv q" "k < 512" "m (q + 8 * k) AND PF_PRES \<noteq> 0" for q k
    using assms(4) that by (simp add: upper_def)
  have "m' (root + 8 * 511) = m (root + 8 * 511)"
    using keep [OF _ b] assms(3) w(1) by (simp add: descends_def)
  moreover have "m' (p3 + 8 * 511) = m (p3 + 8 * 511)"
    using keep [OF _ b] l3 w(3) by (simp add: descends_def)
  moreover have "m' (p2 + 8 * of_nat i) = pinion_pt2_entry i" if "i < 512" for i
  proof -
    have "(of_nat i :: u64) < 512" using that by (simp add: word_less_nat_alt unat_of_nat)
    then show ?thesis using keep [of p2 "of_nat i"] l2 w(5) that pt2_entry_present(1) by simp
  qed
  ultimately show "window m' root" using e unfolding window_def by metis
  show "lv' root = 4" using assms(3,4) by (simp add: upper_def)
qed

lemma paging_inv_upper:
  assumes "tables lv s" "lv (pcx_root s) = 4" "window (mem s) (pcx_root s)"
    and "tables lv' t" "upper lv (mem s) lv' (mem t)" "pcx_root t = pcx_root s"
  shows "paging_inv t"
proof -
  have "pt_tree lv (mem s)" using assms(1) by (simp add: tables_def)
  from window_upper [OF assms(3) this assms(2,5)] assms(4,6) show ?thesis
    by (auto simp: paging_inv_def)
qed

subsection \<open>What the window translates to\<close>

definition window_phys :: "u64 \<Rightarrow> u64" where
  "window_phys v = (let x = v - page_base in if x < 0x20000000 then x else x + 0xC0000000)"

lemma pt_index_unat:
  assumes "i \<le> 4"
  shows "unat (pt_index i a) = unat a div 2 ^ level_shift i mod 512"
proof -
  have "i \<in> {0, 1, 2, 3, 4}" using assms by auto
  then have p: "unat (2 ^ level_shift i :: u64) = 2 ^ level_shift i" by (auto simp: level_shift_def)
  have "(0x1FF :: u64) = mask 9" by (simp add: mask_eq_exp_minus_1)
  then have "pt_index i a = take_bit 9 (drop_bit (level_shift i) a)"
    by (simp only: pt_index_def take_bit_eq_mask)
  then have "pt_index i a = a div 2 ^ level_shift i mod 512"
    by (simp add: take_bit_eq_mod drop_bit_eq_div)
  then show ?thesis by (simp add: unat_mod_distrib unat_div_distrib p)
qed

text \<open>The indices of an address in the window, which is the last gigabyte.\<close>

lemma window_unat:
  assumes "page_base \<le> v"
  obtains x where "x < 2 ^ 30" "unat (v - page_base) = x" "unat v = (2 ^ 64 - 2 ^ 30) + x"
proof -
  have "unat (v - page_base) = unat v - unat page_base" using assms by (rule unat_sub)
  moreover have "unat page_base \<le> unat v" using assms by (simp add: word_le_nat_alt)
  moreover have "unat v < 2 ^ 64" using unsigned_less [of v] by simp
  ultimately show ?thesis by (intro that [of "unat (v - page_base)"]) (simp_all add: page_base_def)
qed

lemma window_indices:
  assumes "page_base \<le> v"
  shows "pt_index 4 v = 511" "pt_index 3 v = 511"
    "pt_index 2 v = of_nat (unat (v - page_base) div 2 ^ 21)"
    "unat (v - page_base) div 2 ^ 21 < 512"
    "unat (v AND mask 21) = unat (v - page_base) mod 2 ^ 21"
proof -
  from window_unat [OF assms] obtain x where x: "x < 2 ^ 30" "unat (v - page_base) = x"
    "unat v = (2 ^ 64 - 2 ^ 30) + x" by blast
  have "((2 ^ 64 - 2 ^ 30) + x) div 2 ^ 39 = (33554431 :: nat)"
    using x(1) by (intro div_nat_eqI) simp_all
  then have "unat (pt_index 4 v) = unat (511 :: u64)"
    by (simp add: pt_index_unat level_shift_def x(3))
  then show "pt_index 4 v = 511" by (simp only: word_unat_eq_iff)
  have "((2 ^ 64 - 2 ^ 30) + x) div 2 ^ 30 = (17179869183 :: nat)"
    using x(1) by (intro div_nat_eqI) simp_all
  then have "unat (pt_index 3 v) = unat (511 :: u64)"
    by (simp add: pt_index_unat level_shift_def x(3))
  then show "pt_index 3 v = 511" by (simp only: word_unat_eq_iff)
  show d: "unat (v - page_base) div 2 ^ 21 < 512" using x(1,2) by simp
  have v: "unat v = 2 ^ 21 * 8796093021696 + x" using x(3) by simp
  have "(2 ^ 21 * 8796093021696 + x) div 2 ^ 21 = 512 * 17179869183 + x div 2 ^ 21" by simp
  also have "\<dots> mod 512 = x div 2 ^ 21 mod 512" by (rule mod_mult_self4)
  finally have "unat (pt_index 2 v) = x div 2 ^ 21"
    using d x(2) unfolding pt_index_unat [of 2 v, simplified] v by (simp add: level_shift_def)
  then have "of_nat (unat (pt_index 2 v)) = (of_nat (x div 2 ^ 21) :: u64)" by (rule arg_cong)
  then have "pt_index 2 v = of_nat (x div 2 ^ 21)" by simp
  then show "pt_index 2 v = of_nat (unat (v - page_base) div 2 ^ 21)" using x(2) by simp
  have "v AND mask 21 = v mod 2 ^ 21" by (simp only: take_bit_eq_mask [symmetric] take_bit_eq_mod)
  then have "unat (v AND mask 21) = unat v mod 2 ^ 21" by (simp add: unat_mod_distrib)
  also have "\<dots> = x mod 2 ^ 21" unfolding v by (rule mod_mult_self4)
  finally show "unat (v AND mask 21) = unat (v - page_base) mod 2 ^ 21" using x(2) by simp
qed

text \<open>The walk of the kernel's tables for an address in the window.\<close>

lemma walk_unfold:
  assumes "pt_index (Suc k) v = j" "descends (m (p + 8 * j))" "next_table (m (p + 8 * j)) = q" "0 < k"
  shows "trans_loop m v (Suc k) p = trans_loop m v k q" "flags_loop m v (Suc k) p = flags_loop m v k q"
  using assms by (simp_all add: descends_def Let_def pte_addr_def)

lemma window_walk:
  assumes "window m root" "page_base \<le> v"
  defines "e \<equiv> pinion_pt2_entry (unat (v - page_base) div 2 ^ 21)"
  shows "trans_loop m v 4 root = Some ((e AND NOT PF_BITS) + (v AND mask 21))"
    "flags_loop m v 4 root = e AND PF_BITS"
proof -
  from windowE [OF assms(1)] obtain p3 p2 where w: "descends (m (root + 8 * 511))"
    "next_table (m (root + 8 * 511)) = p3" "descends (m (p3 + 8 * 511))"
    "next_table (m (p3 + 8 * 511)) = p2" "\<And>i. i < 512 \<Longrightarrow> m (p2 + 8 * of_nat i) = pinion_pt2_entry i"
    by metis
  note I = window_indices [OF assms(2)]
  have m2: "m (pte_addr 2 v p2) = e"
    using w(5) I(4) by (simp only: pte_addr_def I(3) e_def)
  have n: "(4 :: nat) = Suc 3" "(3 :: nat) = Suc 2" by simp_all
  have "trans_loop m v 4 root = trans_loop m v 3 p3" "flags_loop m v 4 root = flags_loop m v 3 p3"
    using walk_unfold [where m = m, OF I(1) [unfolded n(1)] w(1,2)] unfolding n(1) by simp_all
  moreover have "trans_loop m v 3 p3 = trans_loop m v 2 p2" "flags_loop m v 3 p3 = flags_loop m v 2 p2"
    using walk_unfold [where m = m, OF I(2) [unfolded n(2)] w(3,4)] unfolding n(2) by simp_all
  moreover have "trans_loop m v 2 p2 = Some ((e AND NOT PF_BITS) + (v AND mask 21))"
    "flags_loop m v 2 p2 = e AND PF_BITS"
    using m2 pt2_entry_present [of "unat (v - page_base) div 2 ^ 21", folded e_def]
    by (simp_all add: Let_def offset_mask_def level_shift_def numeral_2_eq_2)
  ultimately show "trans_loop m v 4 root = Some ((e AND NOT PF_BITS) + (v AND mask 21))"
    "flags_loop m v 4 root = e AND PF_BITS" by simp_all
qed

lemma window_trans:
  assumes "window m root" "page_base \<le> v"
  shows "trans_loop m v 4 root = Some (window_phys v)"
proof -
  note I = window_indices [OF assms(2)]
  from window_unat [OF assms(2)] obtain x where x: "x < 2 ^ 30" "unat (v - page_base) = x" by blast
  let ?i = "x div 2 ^ 21"
  have i: "?i < 512" using I(4) x(2) by simp
  have r: "unat (v AND mask 21) = x mod 2 ^ 21" using I(5) x(2) by simp
  have "unat (window_frame_of ?i + (v AND mask 21)) = unat (window_frame_of ?i) + x mod 2 ^ 21"
    using window_frame_unat [OF i] i r by (simp add: unat_word_ariths)
  also have "\<dots> = x + (if ?i < 256 then 0 else 0xC0000000)"
    using window_frame_unat [OF i] by simp
  also have "(?i < 256) = (v - page_base < 0x20000000)"
    using x(2) by (simp add: word_less_nat_alt div_less_iff_less_mult)
  also have "x + (if v - page_base < 0x20000000 then 0 else 0xC0000000) = unat (window_phys v)"
    using x by (simp add: window_phys_def Let_def unat_word_ariths)
  finally have "window_frame_of ?i + (v AND mask 21) = window_phys v" by (simp add: word_unat_eq_iff)
  then show ?thesis using window_walk(1) [OF assms] pt2_entry_frame [OF i] x(2) by simp
qed

text \<open>The window is present and closed to programs.\<close>

lemma window_closed:
  assumes "window m root" "page_base \<le> v"
  shows "flags_loop m v 4 root AND PF_PRES \<noteq> 0" "flags_loop m v 4 root AND PF_USER = 0"
proof -
  let ?i = "unat (v - page_base) div 2 ^ 21"
  have i: "?i < 512" by (rule window_indices(4) [OF assms(2)])
  have f: "flags_loop m v 4 root = pinion_pt2_entry ?i AND PF_BITS" by (rule window_walk(2) [OF assms])
  also have "\<dots> = window_flags ?i"
    unfolding pt2_entry_split
    by (rule entry_frame(2) [OF window_frame_low [OF i] window_flags_bits])
  finally show "flags_loop m v 4 root AND PF_PRES \<noteq> 0" "flags_loop m v 4 root AND PF_USER = 0"
    by (simp_all add: window_flags_def pf_defs)
qed

lemma window_vaddr:
  assumes "pmm_vaddr p \<noteq> 0"
  shows "page_base \<le> pmm_vaddr p" "window_phys (pmm_vaddr p) = p"
  using assms
  by (auto simp: pmm_vaddr_def window_phys_def page_base_def Let_def word_less_nat_alt word_le_nat_alt
      unat_word_ariths unat_sub split: if_splits)

subsection \<open>Steps that keep the invariant\<close>

text \<open>Tables lie below the next free page, so what happens above it does not matter.\<close>

lemma table_cell_below:
  assumes "tables lv s" "lv q \<noteq> 0" "k < 512"
  shows "unat (q + 8 * k) < unat (brk s)"
proof -
  have tree: "pt_tree lv (mem s)" and ok: "pages_ok s" and below: "unat q < unat (brk s)"
    using assms(1,2) by (simp_all add: tables_def)
  have qal: "take_bit 12 q = 0" by (rule pt_treeD(1) [OF tree assms(2)])
  note cell = unat_cell [OF qal assms(3)]
  obtain Q where Q: "unat q = 4096 * Q" using cell(2) by (elim dvdE)
  obtain B where B: "unat (brk s) = 4096 * B"
    using brk_page(1) [OF ok] page_aligned_iff [of "brk s"] by (auto elim: dvdE)
  have "Q < B" using below Q B by simp
  then have "4096 * Q + 4096 \<le> 4096 * B" by simp
  then show ?thesis using cell(1,3) Q B by simp
qed

lemma tables_below:
  assumes "tables lv s" "pages_ok t" "unat (brk s) \<le> unat (brk t)"
    and "\<And>a. unat a < unat (brk s) \<Longrightarrow> mem t a = mem s a"
  shows "tables lv t" "upper lv (mem s) lv (mem t)"
proof -
  have same: "mem t (q + 8 * k) = mem s (q + 8 * k)" if "1 < lv q" "k < 512" for q k
    using assms(4) table_cell_below [OF assms(1) _ that(2)] that(1) by simp
  then show "upper lv (mem s) lv (mem t)" by (simp add: upper_def)
  have tree: "pt_tree lv (mem s)" using assms(1) by (simp add: tables_def)
  note T = pt_treeD [OF tree]
  have "pt_tree lv (mem t)" by (rule pt_treeI) (use T same in simp_all)
  moreover have "unat p < unat (brk t)" if "lv p \<noteq> 0" for p
  proof -
    have "unat p < unat (brk s)" using assms(1) that by (simp add: tables_def)
    then show ?thesis using assms(3) by (rule less_le_trans)
  qed
  ultimately show "tables lv t" using assms(2) by (simp add: tables_def)
qed

lemma paging_inv_below:
  assumes "paging_inv s" "pages_ok t" "unat (brk s) \<le> unat (brk t)" "pcx_root t = pcx_root s"
    and "\<And>a. unat a < unat (brk s) \<Longrightarrow> mem t a = mem s a"
  shows "paging_inv t"
proof -
  from assms(1) obtain lv where lv: "tables lv s" "lv (pcx_root s) = 4" "window (mem s) (pcx_root s)"
    by (auto simp: paging_inv_def)
  note t = tables_below [OF lv(1) assms(2,3,5)]
  show ?thesis by (rule paging_inv_upper [OF lv t assms(4)])
qed

lemma paging_inv_pages: "paging_inv s \<Longrightarrow> pages_ok s"
  by (auto simp: paging_inv_def tables_def)

text \<open>Allocation, also when no page is left.\<close>

lemma pages_exhausted:
  assumes "pages_ok s" "pages_left s = 0"
  shows "pmm_alloc_base s = pmm_alloc_limit s" "\<exists>t. pge_alloc s = Some (0, t)"
proof -
  from assms(1) have ok: "pmm_ok s" "pge_list s = 0" "pge_lock s = 0" by (simp_all add: pages_ok_def)
  then obtain b l where "unat (pmm_alloc_base s) = 4096 * b" "unat (pmm_alloc_limit s) = 4096 * l"
    "unat (pmm_alloc_base s) \<le> unat (pmm_alloc_limit s)"
    by (auto simp: pmm_ok_def word_le_nat_alt elim!: dvdE)
  then show e: "pmm_alloc_base s = pmm_alloc_limit s"
    using assms(2) by (simp add: pages_left_def word_unat_eq_iff diff_mult_distrib2 [symmetric])
  show "\<exists>t. pge_alloc s = Some (0, t)"
    using pge_alloc_exhausted [OF ok(3,2) pmm_ok_mutex [OF ok(1)] e] by blast
qed

lemma paging_inv_same:
  assumes "paging_inv s" "pages_ok t" "brk t = brk s" "pcx_root t = pcx_root s" "mem t = mem s"
  shows "paging_inv t"
  by (rule paging_inv_below [OF assms(1,2)]) (simp_all add: assms)

lemma paging_inv_pmm_alloc:
  assumes "pmm_alloc s = Some (p, t)" "paging_inv s"
  shows "paging_inv t"
proof -
  have pok: "pages_ok s" by (rule paging_inv_pages [OF assms(2)])
  then have ok: "pmm_ok s" by (simp add: pages_ok_def)
  show ?thesis
  proof (cases "pmm_alloc_base s = pmm_alloc_limit s")
    case True
    then have t: "t = s\<lparr>pmm_mutex := 0\<rparr>"
      using assms(1) pmm_alloc_exhausted [OF pmm_ok_mutex [OF ok]] by simp
    show ?thesis
      by (rule paging_inv_same [OF assms(2)]) (use pok in \<open>simp_all add: t pages_ok_def pmm_ok_def brk_def\<close>)
  next
    case False
    then have t: "t = s\<lparr>pmm_alloc_base := pmm_alloc_base s + 0x1000, pmm_mutex := 0\<rparr>"
      using assms(1) pmm_alloc_page [OF pmm_ok_mutex [OF ok]] by simp
    note step = pmm_alloc_step [OF ok False]
    show ?thesis
      by (rule paging_inv_below [OF assms(2)]) (use pok step in \<open>simp_all add: t pages_ok_def\<close>)
  qed
qed

lemma paging_inv_pge_alloc:
  assumes "pge_alloc s = Some (p, t)" "paging_inv s"
  shows "paging_inv t"
proof (cases "pages_left s = 0")
  case True
  have pok: "pages_ok s" by (rule paging_inv_pages [OF assms(2)])
  then have ok: "pmm_ok s" "pge_list s = 0" "pge_lock s = 0" by (simp_all add: pages_ok_def)
  have t: "t = s\<lparr>pmm_mutex := 0, pge_lock := 0\<rparr>"
    using assms(1) pge_alloc_exhausted [OF ok(3,2) pmm_ok_mutex [OF ok(1)] pages_exhausted(1) [OF pok True]]
    by simp
  show ?thesis
    by (rule paging_inv_same [OF assms(2)]) (use pok in \<open>simp_all add: t pages_ok_def pmm_ok_def brk_def\<close>)
next
  case False
  then have "0 < pages_left s" by simp
  from pge_alloc_table [OF paging_inv_pages [OF assms(2)] this] assms(1)
  have t: "pages_ok t" "unat (brk t) = unat (brk s) + 0x1000" "mem t = (mem s)(brk s := 0)"
    "pcx_root t = pcx_root s" by auto
  show ?thesis by (rule paging_inv_below [OF assms(2) t(1)]) (use t in auto)
qed

text \<open>Mapping a frame: whatever the call returns, and also when no page is left.\<close>

lemma set_frame_loop_keeps:
  assumes "tables lv s" "lv pt = i" "1 \<le> i" "set_frame_loop addr i pt s = Some (r, t)"
  shows "\<exists>lv'. tables lv' t \<and> upper lv (mem s) lv' (mem t) \<and> pcx_root t = pcx_root s \<and>
    (\<forall>x. r = Some x \<longrightarrow> lv' x = 1)"
  using assms
proof (induction i arbitrary: lv pt s)
  case 0
  then show ?case by simp
next
  case (Suc k)
  show ?case
  proof (cases k)
    case 0
    then have "r = Some pt" "t = s"
      using Suc.prems(4) by (simp_all add: set_frame_loop.simps [of addr "Suc 0" pt s])
    then show ?thesis using Suc.prems(1,2) 0 by (intro exI [of _ lv]) simp
  next
    case (Suc j)
    then have lp: "1 < lv pt" using Suc.prems(2) by simp
    let ?a = "pte_addr (Suc k) addr pt"
    have pok: "pages_ok s" using Suc.prems(1) by (simp add: tables_def)
    have left: "0 < pages_left s" if "mem s ?a AND PF_PRES = 0"
    proof (rule ccontr)
      assume "\<not> 0 < pages_left s"
      then have "pages_left s = 0" by simp
      from pages_exhausted(2) [OF pok this] obtain u where "pge_alloc s = Some (0, u)" by blast
      then have "set_frame_loop addr (Suc k) pt s = None"
        using that Suc unfolding set_frame_loop.simps [of addr "Suc k" pt s] by (simp add: Let_def)
      then show False using Suc.prems(4) by simp
    qed
    show ?thesis
    proof (rule set_frame_level [OF Suc.prems(1) lp left])
      fix s1 lv1
      assume s1: "(let a = ?a in if mem s a AND PF_PRES = 0 then do {
          (newpt, s) \<leftarrow> pge_alloc s;
          let s = s\<lparr>mem := (mem s)
            (a := (newpt - page_base) OR PF_VALID OR PF_PRES OR PF_WRITE OR PF_USER)\<rparr>;
          _ \<leftarrow> deref newpt;
          Some (s\<lparr>mem := clear_page newpt (mem s)\<rparr>)
        } else Some s) = Some s1" "tables lv1 s1" "grows lv (mem s) lv1 (mem s1)"
        "pcx_root s1 = pcx_root s" "mem s1 ?a AND PF_PRES \<noteq> 0" "pages_left s - 1 \<le> pages_left s1"
        "descends (mem s1 ?a) \<longrightarrow> lv1 (next_table (mem s1 ?a)) = lv pt - 1"
      have body: "set_frame_loop addr (Suc k) pt s =
          (if mem s1 ?a AND PF_LARGE \<noteq> 0 then Some (None, pcx_unlock s1)
           else set_frame_loop addr k (next_table (mem s1 ?a)) s1)"
        using s1(1) Suc unfolding set_frame_loop.simps [of addr "Suc k" pt s] by (simp add: Let_def)
      show ?thesis
      proof (cases "mem s1 ?a AND PF_LARGE = 0")
        case False
        then have "r = None" "t = pcx_unlock s1" using body Suc.prems(4) by simp_all
        moreover have "mem (pcx_unlock s1) = mem s1" "pcx_root (pcx_unlock s1) = pcx_root s1"
          by (simp_all add: pcx_unlock_def)
        ultimately show ?thesis
          using tables_unlock [OF s1(2)] s1(4) upper_grows [OF s1(3)] by (intro exI [of _ lv1]) simp
      next
        case True
        let ?n = "next_table (mem s1 ?a)"
        have "descends (mem s1 ?a)" using True s1(5) by (simp add: descends_def)
        then have ln: "lv1 ?n = k" using s1(7) Suc.prems(2) by simp
        have k: "1 \<le> k" using Suc by simp
        have "set_frame_loop addr k ?n s1 = Some (r, t)" using body True Suc.prems(4) by simp
        from Suc.IH [OF s1(2) ln k this] obtain lv' where lv': "tables lv' t"
          "upper lv1 (mem s1) lv' (mem t)" "pcx_root t = pcx_root s1" "\<forall>x. r = Some x \<longrightarrow> lv' x = 1"
          by blast
        show ?thesis
          using lv' s1(4) upper_trans [OF upper_grows [OF s1(3)] lv'(2)] by (intro exI [of _ lv']) simp
      qed
    qed
  qed
qed

lemma paging_inv_set_frame:
  assumes "pcx_set_frame 0 addr z fr flags s = Some (e, t)" "paging_inv s"
  shows "paging_inv t"
proof (cases "z AND 0xFFF \<noteq> 0 \<or> addr AND 0xFFF \<noteq> 0")
  case True
  then show ?thesis using assms by (simp add: pcx_set_frame_def)
next
  case False
  from assms(2) obtain lv where lv: "tables lv s" "lv (pcx_root s) = 4" "window (mem s) (pcx_root s)"
    by (auto simp: paging_inv_def)
  from assms(1) False obtain r u where u: "set_frame_loop addr 4 (pcx_root s) s = Some (r, u)"
    "t = (case r of None \<Rightarrow> u | Some pt \<Rightarrow> u\<lparr>mem := (mem u)(pte_addr 1 addr pt := fr OR flags)\<rparr>)"
    by (auto simp: pcx_set_frame_def pcx_arg_def bind_eq_Some_conv split: option.splits)
  from set_frame_loop_keeps [OF lv(1,2) _ u(1)] obtain lv' where lv': "tables lv' u"
    "upper lv (mem s) lv' (mem u)" "pcx_root u = pcx_root s" "\<forall>x. r = Some x \<longrightarrow> lv' x = 1" by auto
  show ?thesis
  proof (cases r)
    case None
    then show ?thesis using paging_inv_upper [OF lv lv'(1-3)] u(2) by simp
  next
    case (Some x)
    let ?m = "(mem u)(x + 8 * pt_index 1 addr := fr OR flags)"
    have t: "t = u\<lparr>mem := ?m\<rparr>" using u(2) Some by (simp add: pte_addr_def)
    have tree: "pt_tree lv' (mem u)" using lv'(1) by (simp add: tables_def)
    have x: "lv' x = 1" using lv'(4) Some by simp
    note W = leaf_write_tree(1) [OF tree x pt_index_less, of 1 addr "fr OR flags"]
    have keep: "?m (q + 8 * k) = mem u (q + 8 * k)" if "1 < lv' q" "k < 512" for q k
      using that by (rule leaf_write_tree(2) [OF tree x pt_index_less])
    have "pages_ok t" "brk t = brk u"
      using lv'(1) by (simp_all add: t tables_def pages_ok_def pmm_ok_def brk_def)
    then have tt: "tables lv' t" using W lv'(1) by (simp add: t tables_def)
    have "upper lv' (mem u) lv' (mem t)" using keep by (simp add: upper_def t del: fun_upd_apply)
    from upper_trans [OF lv'(2) this] have up: "upper lv (mem s) lv' (mem t)" .
    show ?thesis by (rule paging_inv_upper [OF lv tt up]) (simp add: t lv'(3))
  qed
qed

interpretation kernel_window: paging_property paging_inv
proof unfold_locales
  fix s t :: kernel
  assume v: "pg_view t = pg_view s" "paging_inv s"
  then have "pages_ok t = pages_ok s" "brk t = brk s" "pcx_root t = pcx_root s" "mem t = mem s"
    using pmm_ok_view [of t s] brk_view [of t s] by (simp_all add: pg_view_def pages_ok_def)
  then show "paging_inv t" using paging_inv_same [OF v(2)] paging_inv_pages [OF v(2)] by simp
next
  fix s t :: kernel and p assume "pmm_alloc s = Some (p, t)" "paging_inv s"
  then show "paging_inv t" by (rule paging_inv_pmm_alloc)
next
  fix s t :: kernel and p assume "pge_alloc s = Some (p, t)" "paging_inv s"
  then show "paging_inv t" by (rule paging_inv_pge_alloc)
next
  fix s t :: kernel and addr z fr flags e
  assume "pcx_set_frame 0 addr z fr flags s = Some (e, t)" "paging_inv s"
  then show "paging_inv t" by (rule paging_inv_set_frame)
qed

end
