(* ===== verification/Boot_Paging.thy ===== *)
theory Boot_Paging
  imports Window Gates
begin

text \<open>
  \<open>pcx_init\<close> builds the tree of page tables with the kernel's window in it, the rest of
  \<open>init\<close> leaves it alone, and so does everything that the running system does.
\<close>

subsection \<open>Filling tables\<close>

lemma of_nat_cell: "i < 512 \<Longrightarrow> (of_nat i :: u64) < 512"
  by (simp add: word_less_nat_alt unat_of_nat)

lemma of_nat_cell_eq:
  assumes "i < 512" "j < 512"
  shows "(of_nat i :: u64) = of_nat j \<longleftrightarrow> i = j"
  using assms by (simp add: word_unat_eq_iff unat_of_nat)

lemma cell_index:
  assumes "k < (512 :: u64)"
  obtains i where "i < 512" "k = of_nat i"
proof (rule that [of "unat k"])
  show "unat k < 512" using assms by (simp add: word_less_nat_alt)
qed simp

lemma write_words_page:
  assumes "take_bit 12 p = (0 :: u64)" "take_bit 12 q = 0" "k < 512" "\<forall>i \<in> set is. i < 512" "distinct is"
  shows "write_words p f is m (q + 8 * k) =
    (if q = p \<and> k \<in> of_nat ` set is then f (unat k) else m (q + 8 * k))"
  using assms(4,5)
proof (induction "is" arbitrary: m)
  case Nil
  then show ?case by (simp add: write_words_def)
next
  case (Cons i "is")
  have i: "i < 512" "(of_nat i :: u64) < 512" "unat (of_nat i :: u64) = i"
    using Cons.prems by (simp_all add: of_nat_cell unat_of_nat)
  have nin: "(of_nat i :: u64) \<notin> of_nat ` set is" using Cons.prems of_nat_cell_eq [OF i(1)] by auto
  have step: "write_words p f (i # is) m = write_words p f is (m(p + 8 * of_nat i := f i))"
    by (simp add: write_words_def)
  have tail: "\<forall>i \<in> set is. i < 512" "distinct is" using Cons.prems by simp_all
  show ?case
    unfolding step Cons.IH [OF tail] fun_upd_apply cell_eq [OF assms(2,1,3) i(2)]
    using nin i(3) by auto
qed

subsection \<open>The upper half of the root table\<close>

text \<open>What holds once an entry of the upper half has been filled.\<close>

definition kernel_table :: "(ptr \<Rightarrow> nat) \<Rightarrow> (ptr \<Rightarrow> u64) \<Rightarrow> ptr \<Rightarrow> nat \<Rightarrow> bool" where
  "kernel_table lv m root i \<longleftrightarrow> (\<exists>n. m (root + 8 * of_nat i) = (n - page_base) OR (PF_PRES OR PF_WRITE) \<and>
     page_base \<le> n \<and> lv n = 3 \<and> (\<forall>k < 512. m (n + 8 * k) = 0))"

lemma upper_tables:
  assumes "tables lv s" "lv (pcx_root s) = 4" "distinct is" "\<forall>i \<in> set is. i < 512"
    and "\<forall>i \<in> set is. mem s (pcx_root s + 8 * of_nat i) AND PF_PRES = 0" "length is \<le> pages_left s"
  shows "\<exists>t lv'. pcx_init_upper is s = Some t \<and> tables lv' t \<and> pcx_root t = pcx_root s \<and>
    pages_left t = pages_left s - length is \<and> lv' (pcx_root s) = 4 \<and>
    (\<forall>i. i < 512 \<and> kernel_table lv (mem s) (pcx_root s) i \<and> i \<notin> set is \<or> i \<in> set is \<longrightarrow>
      kernel_table lv' (mem t) (pcx_root s) i)"
  using assms
proof (induction "is" arbitrary: s lv)
  case Nil
  then show ?case by auto
next
  case (Cons i "is")
  let ?root = "pcx_root s" and ?j = "of_nat i :: u64" and ?e = "(brk s - page_base) OR (PF_PRES OR PF_WRITE)"
  let ?lv = "lv(brk s := 3)"
  have i: "i < 512" "?j < 512" using Cons.prems(4) by (simp_all add: of_nat_cell)
  have root: "1 < lv ?root" and free: "mem s (?root + 8 * ?j) AND PF_PRES = 0" and left: "0 < pages_left s"
    using Cons.prems(2,5,6) by simp_all
  have pok: "pages_ok s" using Cons.prems(1) by (simp add: tables_def)
  show ?case
  proof (rule tables_add [OF Cons.prems(1) root i(2) free left kernel_link_flags])
    fix t m
    assume t: "pge_alloc s = Some (brk s, t)" "brk s \<noteq> 0" "lv (brk s) = 0"
      "clear_page (brk s) ((mem t)(?root + 8 * ?j := ?e)) = m"
      "tables (lv(brk s := lv ?root - 1)) (t\<lparr>mem := m\<rparr>)" "m (?root + 8 * ?j) = ?e"
      "\<And>k. k < 512 \<Longrightarrow> m (brk s + 8 * k) = 0"
      "\<And>q k. lv q \<noteq> 0 \<Longrightarrow> k < 512 \<Longrightarrow> q \<noteq> ?root \<or> k \<noteq> ?j \<Longrightarrow> m (q + 8 * k) = mem s (q + 8 * k)"
      "pages_left (t\<lparr>mem := m\<rparr>) = pages_left s - 1" "pcx_root t = ?root"
    let ?u = "t\<lparr>mem := m\<rparr>"
    have lroot: "?lv ?root = 4" using Cons.prems(2) t(3) by auto
    have tu: "tables ?lv ?u" using t(5) Cons.prems(2) by simp
    have other: "m (?root + 8 * of_nat k) = mem s (?root + 8 * of_nat k)" if "k < 512" "k \<noteq> i" for k
      using t(8) [of ?root "of_nat k"] that root of_nat_cell of_nat_cell_eq [OF that(1) i(1)] by simp
    have free': "\<forall>k \<in> set is. mem ?u (pcx_root ?u + 8 * of_nat k) AND PF_PRES = 0"
    proof
      fix k assume k: "k \<in> set is"
      then have "k < 512" "k \<noteq> i" "mem s (?root + 8 * of_nat k) AND PF_PRES = 0"
        using Cons.prems(3-5) by auto
      then show "mem ?u (pcx_root ?u + 8 * of_nat k) AND PF_PRES = 0" using other t(10) by simp
    qed
    have ru: "pcx_root ?u = ?root" using t(10) by simp
    have a: "?lv (pcx_root ?u) = 4" "distinct is" "\<forall>i \<in> set is. i < 512" "length is \<le> pages_left ?u"
      using Cons.prems(3,4,6) lroot t(9,10) by simp_all
    obtain v lv' where v:
      "pcx_init_upper is ?u = Some v" "tables lv' v" "pcx_root v = ?root"
      "pages_left v = pages_left ?u - length is" "lv' ?root = 4"
      "\<And>k. k < 512 \<and> kernel_table ?lv m ?root k \<and> k \<notin> set is \<or> k \<in> set is \<Longrightarrow> kernel_table lv' (mem v) ?root k"
      using Cons.IH [OF tu a(1-3) free' a(4)] unfolding ru by (auto simp del: fun_upd_apply)
    have new: "kernel_table ?lv m ?root i"
      using t(6,7) brk_page(2) [OF pok] by (auto simp: kernel_table_def intro: exI [of _ "brk s"])
    have keep: "kernel_table ?lv m ?root k" if "k < 512" "k \<noteq> i" "kernel_table lv (mem s) ?root k" for k
    proof -
      from that(3) obtain n where n: "mem s (?root + 8 * of_nat k) = (n - page_base) OR (PF_PRES OR PF_WRITE)"
        "page_base \<le> n" "lv n = 3" "\<forall>k < 512. mem s (n + 8 * k) = 0" by (auto simp: kernel_table_def)
      have "n \<noteq> ?root" "n \<noteq> brk s" using n(3) Cons.prems(2) t(3) by auto
      then show ?thesis using n other [OF that(1,2)] t(8) [of n] by (auto simp: kernel_table_def intro!: exI [of _ n])
    qed
    have "pcx_init_upper (i # is) s = Some v" using t(1,2,4,10) v(1) by (simp add: Let_def)
    moreover have "kernel_table lv' (mem v) ?root k"
      if "k < 512 \<and> kernel_table lv (mem s) ?root k \<and> k \<notin> set (i # is) \<or> k \<in> set (i # is)" for k
    proof (cases "k \<in> set is")
      case False
      then show ?thesis using v(6) [of k] new keep [of k] that i(1) by auto
    qed (use v(6) in blast)
    moreover have "pages_left v = pages_left s - length (i # is)" using v(4) t(9) by simp
    ultimately show ?thesis using v(2,3,5) by (intro exI [of _ v] exI [of _ lv']) auto
  qed
qed

subsection \<open>The tables that \<open>pcx_init\<close> builds\<close>

text \<open>The table behind an entry, as \<open>pcx_init\<close> computes it.\<close>

lemma or_flags_add:
  assumes "take_bit 12 x = (0 :: u64)"
  shows "x OR 3 = x + 3" "(x OR 3) AND NOT 0xFFF = x"
proof -
  note b = aligned_bit [OF assms]
  have m: "(3 :: u64) = mask 2" "(0xFFF :: u64) = mask 12" by (simp_all add: mask_eq_exp_minus_1)
  have "x AND 3 = 0" unfolding m by (rule bit_word_eqI) (use b in \<open>auto simp: bit_simps\<close>)
  then show "x OR 3 = x + 3" using word_plus_and_or [of x 3] by simp
  show "(x OR 3) AND NOT 0xFFF = x"
    unfolding m by (rule bit_word_eqI) (use b in \<open>auto simp: bit_simps\<close>)
qed

lemma pinion_pt3_entry:
  assumes "take_bit 12 n = 0"
  shows "(((n - page_base) OR (PF_PRES OR PF_WRITE)) + page_base) AND NOT 0xFFF = n"
proof -
  have b: "take_bit 12 page_base = 0" by (simp add: page_base_def)
  have "take_bit 12 (n - page_base) = 0" by (rule page_aligned_arith(2) [OF assms b])
  note x = or_flags_add(1) [OF this]
  have "((n - page_base) OR 3) + page_base = n OR 3" using x or_flags_add(1) [OF assms] by simp
  then show ?thesis using or_flags_add(2) [OF assms] by (simp add: PF_PRES_def PF_WRITE_def)
qed

text \<open>The last step: the table of large pages is filled and linked.\<close>

lemma link_window:
  assumes tab: "tables lv s" "lv root = 4" "kernel_table lv (mem s) root 511" and left: "0 < pages_left s"
    and t: "pge_alloc s = Some (P, t)"
  defines "m \<equiv> write_words P pinion_pt2_entry [0..<512] (mem t)"
  defines "p3 \<equiv> (m (root + 8 * 511) + page_base) AND NOT 0xFFF"
  defines "m' \<equiv> m(p3 + 8 * 511 := (P - page_base) OR (PF_PRES OR PF_WRITE))"
  shows "P \<noteq> 0" "pcx_root t = pcx_root s" "tables (lv(P := 2)) (t\<lparr>mem := m'\<rparr>)" "window m' root"
    "(lv(P := 2)) root = 4"
proof -
  have tree: "pt_tree lv (mem s)" and pok: "pages_ok s" and below: "\<And>q. lv q \<noteq> 0 \<Longrightarrow> unat q < unat (brk s)"
    using tab(1) by (simp_all add: tables_def)
  note al = pt_treeD(1) [OF tree]
  from pge_alloc_table [OF pok left] t have u: "P = brk s" "pages_ok t" "unat (brk t) = unat (brk s) + 0x1000"
    "mem t = (mem s)(P := 0)" "pcx_root t = pcx_root s" by auto
  note B = brk_page [OF pok, folded u(1)]
  show "P \<noteq> 0" by (rule B(3))
  show "pcx_root t = pcx_root s" by (rule u(5))
  have lP: "lv P = 0" using below [of P] u(1) by auto
  then show "(lv(P := 2)) root = 4" using tab(2) by auto
  have filled: "m (q + 8 * k) = (if q = P then pinion_pt2_entry (unat k) else mem s (q + 8 * k))"
    if "take_bit 12 q = 0" "k < 512" for q k
  proof -
    have k: "k \<in> of_nat ` set [0..<512]"
    proof (rule cell_index [OF that(2)])
      fix i :: nat assume "i < 512" "k = of_nat i"
      then show ?thesis by (auto simp del: upt_rec_numeral)
    qed
    have "q + 8 * k = P \<longleftrightarrow> q = P \<and> k = 0"
      using cell_eq [OF that(1) B(1) that(2), of 0] by simp
    then show ?thesis
      using write_words_page [OF B(1) that, of "[0..<512]" pinion_pt2_entry "mem t"] k
      by (auto simp: m_def u(4) simp del: upt_rec_numeral)
  qed
  from tab(3) obtain n where n: "mem s (root + 8 * 511) = (n - page_base) OR (PF_PRES OR PF_WRITE)"
    "page_base \<le> n" "lv n = 3" by (auto simp: kernel_table_def)
  have nal: "take_bit 12 n = 0" and ral: "take_bit 12 root = 0" using al tab(2) n(3) by simp_all
  have ne: "n \<noteq> P" "root \<noteq> P" "n \<noteq> root" using n(3) lP tab(2) by auto
  have "m (root + 8 * 511) = mem s (root + 8 * 511)" using filled [OF ral, of 511] ne(2) by simp
  then have p3: "p3 = n" using n(1) pinion_pt3_entry [OF nal] by (simp add: p3_def)
  let ?e = "(P - page_base) OR (PF_PRES OR PF_WRITE)"
  have cell: "m' (q + 8 * k) = (if q = n \<and> k = 511 then ?e
      else if q = P then pinion_pt2_entry (unat k) else mem s (q + 8 * k))"
    if "take_bit 12 q = 0" "k < 512" for q k
    using filled [OF that] cell_eq [OF that(1) nal that(2), of 511] by (auto simp: m'_def p3)
  have e: "descends ?e" "next_table ?e = P"
    using table_entry [OF window_frame [OF B(1,2)] kernel_link_flags] by simp_all
  have root: "descends (mem s (root + 8 * 511))" "next_table (mem s (root + 8 * 511)) = n"
    using table_entry [OF window_frame [OF nal n(2)] kernel_link_flags]
    by (simp_all only: n(1) diff_add_cancel)
  have n1: "1 < lv n" "(511 :: u64) < 512" using n(3) by simp_all
  have "pt_tree (lv(P := lv n - 1)) m'"
  proof (rule link_table [OF tree n1 lP B(1) e(2)])
    fix q k assume "lv q \<noteq> 0" "k < (512 :: u64)"
    then show "m' (q + 8 * k) = (if q = n \<and> k = 511 then ?e else mem s (q + 8 * k))"
      using cell [OF al] lP by auto
  next
    fix k :: u64 assume "k < 512"
    then show "\<not> descends (m' (P + 8 * k))" using cell [OF B(1)] ne(1) pt2_entry_present(3) by simp
  qed
  then have "pt_tree (lv(P := 2)) m'" using n(3) by simp
  moreover have "pages_ok (t\<lparr>mem := m'\<rparr>)" "brk (t\<lparr>mem := m'\<rparr>) = brk t"
    using u(2) by (simp_all add: pages_ok_def pmm_ok_def brk_def)
  moreover have "unat q < unat (brk t)" if "(lv(P := 2)) q \<noteq> 0" for q
    using that below [of q] u(1,3) by (auto split: if_splits)
  ultimately show "tables (lv(P := 2)) (t\<lparr>mem := m'\<rparr>)" by (simp add: tables_def)
  have "m' (root + 8 * 511) = mem s (root + 8 * 511)" "m' (n + 8 * 511) = ?e"
    using cell [OF ral n1(2)] cell [OF nal n1(2)] ne by auto
  moreover have "m' (P + 8 * of_nat i) = pinion_pt2_entry i" if "i < 512" for i
    using cell [OF B(1) of_nat_cell [OF that]] ne(1) that by (simp add: unat_of_nat)
  ultimately show "window m' root"
    using n nal B(1,2) unfolding window_def kernel_link_def window_page_def
    by (intro exI [of _ n] exI [of _ P]) simp
qed

lemma pcx_init_tables:
  assumes "pages_ok s" "258 \<le> pages_left s"
  shows "\<exists>t. pcx_init s = Some t \<and> paging_inv t"
proof -
  let ?R = "brk s"
  note B = brk_page [OF assms(1)]
  have "0 < pages_left s" using assms(2) by simp
  then obtain s1 where s1: "pge_alloc s = Some (?R, s1)" "pages_ok s1" "unat (brk s1) = unat ?R + 0x1000"
    "pages_left s1 = pages_left s - 1" using pge_alloc_table [OF assms(1)] by metis
  let ?s2 = "s1\<lparr>pcx_root := ?R, mem := clear_page ?R (mem s1)\<rparr>"
  let ?lv = "(\<lambda>q. 0 :: nat)(?R := 4)"
  have zero: "mem ?s2 (?R + 8 * k) = 0" if "k < 512" for k
    using clear_page_cell [OF B(1,1) that] by simp
  have "pt_tree ?lv (mem ?s2)"
  proof (rule pt_treeI)
    show "take_bit 12 p = 0" if "?lv p \<noteq> 0" for p using that B(1) by (auto split: if_splits)
    show "?lv (next_table (mem ?s2 (p + 8 * j))) = ?lv p - 1"
      if "1 < ?lv p" "j < 512" "descends (mem ?s2 (p + 8 * j))" for p j
      using that zero by (auto simp: descends_def split: if_splits)
    show "p = q \<and> j = k" if "1 < ?lv p" "1 < ?lv q" "j < 512" "k < 512" "descends (mem ?s2 (p + 8 * j))"
      "descends (mem ?s2 (q + 8 * k))" "next_table (mem ?s2 (p + 8 * j)) = next_table (mem ?s2 (q + 8 * k))"
      for p j q k
      using that zero by (auto simp: descends_def split: if_splits)
  qed
  moreover have "pages_ok ?s2" "brk ?s2 = brk s1" "pages_left ?s2 = pages_left s1"
    using s1(2) by (simp_all add: pages_ok_def pmm_ok_def brk_def pages_left_def)
  ultimately have tab: "tables ?lv ?s2" "pages_left ?s2 = pages_left s - 1"
    using s1(3,4) by (auto simp: tables_def)
  have len: "length [256..<512] = 256" by (simp only: length_upt)
  have mem: "set [256..<512 :: nat] = {256..<512}" by (rule set_upt)
  have "\<forall>i \<in> set [256..<512]. mem ?s2 (pcx_root ?s2 + 8 * of_nat i) AND PF_PRES = 0"
    unfolding mem using zero of_nat_cell by simp
  note free = this
  have root: "?lv (pcx_root ?s2) = 4" "pcx_root ?s2 = ?R" by simp_all
  have bound: "\<forall>i \<in> set [256..<512]. i < (512 :: nat)" unfolding mem by simp
  have "length [256..<512] \<le> pages_left ?s2" unfolding len tab(2) using assms(2) by simp
  from upper_tables [OF tab(1) root(1) distinct_upt bound free this] obtain s3 lv3 where s3:
    "pcx_init_upper [256..<512] ?s2 = Some s3" "tables lv3 s3" "pcx_root s3 = ?R" "lv3 ?R = 4"
    "pages_left s3 = pages_left s - 257" "\<forall>i \<in> set [256..<512]. kernel_table lv3 (mem s3) ?R i"
    unfolding len tab(2) root(2) by (auto simp del: upt_rec_numeral fun_upd_apply)
  have "(511 :: nat) \<in> set [256..<512]" unfolding mem by simp
  with s3(6) have k511: "kernel_table lv3 (mem s3) ?R 511" by blast
  have left: "0 < pages_left s3" using s3(5) assms(2) by simp
  have "pages_ok s3" using s3(2) by (simp add: tables_def)
  from pge_alloc_table [OF this left] obtain P s4 where s4: "pge_alloc s3 = Some (P, s4)" by metis
  note L = link_window [OF s3(2,4) k511 left s4]
  have root4: "pcx_root s4 = ?R" using L(2) s3(3) by simp
  let ?m = "write_words P pinion_pt2_entry [0..<512] (mem s4)"
  let ?m' = "?m(((?m (?R + 8 * 511) + page_base) AND NOT 0xFFF) + 8 * 511 :=
    (P - page_base) OR (PF_PRES OR PF_WRITE))"
  have "pcx_init s = Some (pcx_switch ?R (s4\<lparr>mem := ?m'\<rparr>))"
    using s1(1) s3(1) s4 L(1) B(3) root4
    by (simp add: pcx_init_def Let_def or.assoc del: upt_rec_numeral)
  moreover have "paging_inv (s4\<lparr>mem := ?m'\<rparr>)"
    using L(3-5) root4 by (auto simp: paging_inv_def simp del: fun_upd_apply upt_rec_numeral)
  then have "paging_inv (pcx_switch ?R (s4\<lparr>mem := ?m'\<rparr>))"
    by (rule kernel_window.view [rotated]) (simp_all add: pcx_switch_def)
  ultimately show ?thesis by blast
qed

lemma pcx_init_window:
  assumes "pages_ok s" "258 \<le> pages_left s" "pcx_init s = Some t"
  shows "paging_inv t"
  using pcx_init_tables [OF assms(1,2)] assms(3) by simp

subsection \<open>The steps of \<open>pcx_init\<close>\<close>

text \<open>A view of the state that allocation of pages does not change is kept by \<open>pge_alloc\<close>.\<close>

lemma pge_alloc_view:
  assumes "pge_alloc s = Some (p, t)"
    and "\<And>s q u. pmm_alloc s = Some (q, u) \<Longrightarrow> V u = V s"
    and "\<And>s m. V (s\<lparr>pge_lock := m\<rparr>) = V s" "\<And>s q. V (s\<lparr>pge_list := q\<rparr>) = V s"
      "\<And>s m. V (s\<lparr>mem := m\<rparr>) = V s"
  shows "V t = V s"
proof -
  from assms(1) obtain m where m: "mutex_acquire (pge_lock s) = Some m"
    by (auto simp: pge_alloc_def allocator_alloc_def pge_allocator_def bind_eq_Some_conv)
  show ?thesis
  proof (cases "pge_list s = 0")
    case True
    with assms(1) m obtain q u where u: "pmm_alloc (s\<lparr>pge_lock := m\<rparr>) = Some (q, u)"
      by (auto simp: pge_alloc_def allocator_alloc_def pge_allocator_def bind_eq_Some_conv)
    with assms(1) m True have "V t = V u"
      by (auto simp: pge_alloc_def allocator_alloc_def pge_allocator_def allocator_pop_def
          allocator_release_def Let_def assms(3-5) split: if_splits)
    then show ?thesis using assms(2) [OF u] assms(3) by simp
  next
    case False
    then show ?thesis
      using assms(1) m by (auto simp: pge_alloc_def allocator_alloc_def pge_allocator_def
          allocator_pop_def allocator_release_def Let_def assms(3-5))
  qed
qed

lemma pcx_init_steps:
  assumes "pcx_init s = Some t"
  obtains root s1 s2 p s3 m where "pge_alloc s = Some (root, s1)"
    "pcx_init_upper [256..<512] (s1\<lparr>pcx_root := root, mem := clear_page root (mem s1)\<rparr>) = Some s2"
    "pge_alloc s2 = Some (p, s3)" "t = pcx_switch (pcx_root s3) (s3\<lparr>mem := m\<rparr>)"
proof -
  obtain root s1 where a1: "pge_alloc s = Some (root, s1)"
    using assms by (cases "pge_alloc s") (auto simp: pcx_init_def simp del: upt_rec_numeral)
  let ?s1 = "s1\<lparr>pcx_root := root, mem := clear_page root (mem s1)\<rparr>"
  have nz: "root \<noteq> 0" using assms a1 by (auto simp: pcx_init_def deref_def simp del: upt_rec_numeral)
  obtain s2 where a2: "pcx_init_upper [256..<512] ?s1 = Some s2"
    using assms a1 nz
    by (cases "pcx_init_upper [256..<512] ?s1") (simp_all add: pcx_init_def Let_def del: upt_rec_numeral)
  obtain p s3 where a3: "pge_alloc s2 = Some (p, s3)"
    using assms a1 nz a2
    by (cases "pge_alloc s2") (auto simp: pcx_init_def Let_def simp del: upt_rec_numeral)
  have np: "p \<noteq> 0"
    using assms a1 nz a2 a3 by (cases "p = 0") (simp_all add: pcx_init_def Let_def del: upt_rec_numeral)
  obtain m where "t = pcx_switch (pcx_root s3) (s3\<lparr>mem := m\<rparr>)"
    using assms a1 nz a2 a3 np by (simp add: pcx_init_def Let_def del: upt_rec_numeral) metis
  then show ?thesis using that a1 a2 a3 by metis
qed

subsection \<open>The rest of initialisation\<close>

text \<open>Words of a page handed out after the tables.\<close>

lemma cell_above:
  assumes "take_bit 12 p = (0 :: u64)" "k < 512"
  shows "unat p \<le> unat (p + 8 * k)"
  using unat_cell(1) [OF assms] by simp

lemma idt_fold_memory:
  assumes "take_bit 12 (idt s) = 0" "\<forall>v \<in> set vs. v < 256" "unat a < unat (idt s)"
  shows "mem (fold (\<lambda>v. idt_set_vector ty (h v) v) vs s) a = mem s a"
  using assms
proof (induction vs arbitrary: s)
  case Nil
  then show ?case by simp
next
  case (Cons v vs)
  have e: "idt s + 16 * of_nat v = idt s + 8 * of_nat (2 * v)"
    "idt s + 16 * of_nat v + 8 = idt s + 8 * of_nat (2 * v + 1)" by (simp_all add: algebra_simps)
  have "2 * v < 512" "2 * v + 1 < 512" using Cons.prems(2) by simp_all
  note c = cell_above [OF Cons.prems(1) of_nat_cell [OF this(1)]] cell_above [OF Cons.prems(1) of_nat_cell [OF this(2)]]
  note c [folded e]
  with Cons.prems(3) have "a \<noteq> idt s + 16 * of_nat v" "a \<noteq> idt s + 16 * of_nat v + 8"
    by (metis not_less)+
  then have "mem (idt_set_vector ty (h v) v s) a = mem s a" by (simp add: idt_set_vector_def Let_def)
  then show ?case using Cons.IH [of "idt_set_vector ty (h v) v s"] Cons.prems by simp
qed

lemma paging_inv_idt_init:
  assumes "paging_inv s" "idt_init handler s = Some t"
  shows "paging_inv t"
proof -
  obtain page u where a: "pge_alloc s = Some (page, u)" "page \<noteq> 0"
    using assms(2) by (auto simp: idt_init_def deref_def split: bind_splits if_splits)
  define u0 where "u0 = u\<lparr>idt := page\<rparr>"
  define u1 where "u1 = fold (\<lambda>v. idt_set_vector 0x8F01 (handler v) v) fault_vectors u0"
  define u2 where "u2 = fold (\<lambda>v. idt_set_vector 0x8E01 (handler v) v) [32..<255] u1"
  define u3 where "u3 = fold (\<lambda>v. idt_set_vector 0x8F01 (handler v) v) [255] u2"
  have t: "t = u3"
    using assms(2) a unfolding idt_init_def u0_def u1_def u2_def u3_def idt_set_trap_vector_def
      idt_set_irq_vector_def by (simp del: upt_rec_numeral split: bind_splits)
  have pok: "pages_ok s" by (rule paging_inv_pages [OF assms(1)])
  have "pages_left s \<noteq> 0" using pages_exhausted(2) [OF pok] a by auto
  then have "0 < pages_left s" by simp
  from pge_alloc_table [OF pok this] a(1) have u: "page = brk s" "pages_ok u"
    "unat (brk u) = unat (brk s) + 0x1000" "mem u = (mem s)(page := 0)" "pcx_root u = pcx_root s" by auto
  note B = brk_page(1) [OF pok]
  have i: "idt u0 = brk s" "idt u1 = brk s" "idt u2 = brk s" by (simp_all add: u0_def u1_def u2_def u(1))
  have "mem u3 a = mem u2 a" "mem u2 a = mem u1 a" "mem u1 a = mem u0 a" if "unat a < unat (brk s)" for a
    unfolding u1_def u2_def u3_def
    by (rule idt_fold_memory; use that i B in \<open>simp add: u1_def u2_def fault_vectors_def del: upt_rec_numeral\<close>)+
  then have m: "mem t a = mem s a" if "unat a < unat (brk s)" for a
    using that u(1,4) by (auto simp: t u0_def)
  have frame: "pages_ok (fold (\<lambda>v. idt_set_vector ty (h v) v) vs x) = pages_ok x \<and>
    brk (fold (\<lambda>v. idt_set_vector ty (h v) v) vs x) = brk x \<and>
    pcx_root (fold (\<lambda>v. idt_set_vector ty (h v) v) vs x) = pcx_root x" for ty h vs x
    by (induction vs arbitrary: x)
       (simp_all add: idt_set_vector_def Let_def pages_ok_def pmm_ok_def brk_def)
  have "pages_ok u3 = pages_ok u2 \<and> brk u3 = brk u2 \<and> pcx_root u3 = pcx_root u2"
    "pages_ok u2 = pages_ok u1 \<and> brk u2 = brk u1 \<and> pcx_root u2 = pcx_root u1"
    "pages_ok u1 = pages_ok u0 \<and> brk u1 = brk u0 \<and> pcx_root u1 = pcx_root u0"
    unfolding u1_def u2_def u3_def by (rule frame)+
  moreover have "pages_ok u0 = pages_ok u" "brk u0 = brk u" "pcx_root u0 = pcx_root u"
    by (simp_all add: u0_def pages_ok_def pmm_ok_def brk_def)
  ultimately have "pages_ok t" "brk t = brk u" "pcx_root t = pcx_root s" using t u(2,5) by simp_all
  then show ?thesis using m u(3) by (intro paging_inv_below [OF assms(1)]) simp_all
qed

lemma paging_inv_ccb_new:
  assumes "paging_inv s" "ccb_list s = 0" "ccb_new s = Some t"
  shows "paging_inv t"
proof -
  obtain m n q u where v: "pmm_alloc (s\<lparr>ccb_table_lock := m, ccb_lock := n\<rparr>) = Some (q, u)" "q \<noteq> 0"
    "pg_view t = pg_view (u\<lparr>mem := (mem u)(q := ccb_list u)\<rparr>)"
    using assms(2,3)
    by (auto simp: ccb_new_def ccb_alloc_def allocator_alloc_def ccb_allocator_def allocator_pop_def
        allocator_release_def Let_def bind_eq_Some_conv deref_def pg_view_def pmm_view_def split: if_splits)
  let ?v = "s\<lparr>ccb_table_lock := m, ccb_lock := n\<rparr>"
  have pv: "pg_view ?v = pg_view s" by (simp add: pg_view_def pmm_view_def)
  have iv: "paging_inv ?v" by (rule kernel_window.view [OF pv assms(1)])
  have iu: "paging_inv u" by (rule kernel_window.alloc_page [OF v(1) iv])
  have ok: "pmm_ok ?v" using paging_inv_pages [OF iv] by (simp add: pages_ok_def)
  have room: "pmm_alloc_base ?v \<noteq> pmm_alloc_limit ?v"
    using pmm_alloc_exhausted [OF pmm_ok_mutex [OF ok]] v(1,2) by auto
  have u: "q = brk ?v" "u = ?v\<lparr>pmm_alloc_base := pmm_alloc_base ?v + 0x1000, pmm_mutex := 0\<rparr>"
    using pmm_alloc_page [OF pmm_ok_mutex [OF ok] room] v(1) by simp_all
  have bu: "unat (brk u) = unat (brk ?v) + 0x1000" unfolding u(2) by (rule pmm_alloc_step(2) [OF ok room])
  let ?w = "u\<lparr>mem := (mem u)(q := ccb_list u)\<rparr>"
  have "pages_ok ?w" "brk ?w = brk u" "pcx_root ?w = pcx_root ?v"
    using paging_inv_pages [OF iu] by (simp_all add: pages_ok_def pmm_ok_def brk_def u(2))
  moreover have "mem ?w a = mem ?v a" if "unat a < unat (brk ?v)" for a
    using that u by auto
  ultimately have "paging_inv ?w" using bu by (intro paging_inv_below [OF iv]) simp_all
  then show ?thesis by (rule kernel_window.view [OF v(3)])
qed

lemma paging_inv_vector_page:
  assumes "paging_inv s" "interrupt_add_vector_page vec vt s = Some t"
  shows "paging_inv t"
proof -
  from assms(2) obtain p u where u: "pge_alloc s = Some (p, u)" "pg_view t = pg_view u"
    by (auto simp: interrupt_add_vector_page_def Let_def bind_eq_Some_conv pg_view_def pmm_view_def
        split: if_splits)
  show ?thesis by (rule kernel_window.view [OF u(2) kernel_window.alloc_table [OF u(1) assms(1)]])
qed

lemma init_paging:
  assumes "boot_state s" "boot_room mm s" "init_kernel handler mm s = Some t"
  shows "paging_inv t"
proof -
  have "pmm_init mm s \<noteq> None" using assms(3) by (auto simp: init_kernel_def bind_eq_Some_conv)
  from boot_pmm_init [OF assms(1,2) this] obtain s1 where s1: "pmm_init mm s = Some s1" "early 264 s1"
    "ccb_table s1 = 0" "ccb_table_lock s1 = 0" by blast
  have "early (258 + 6) s1" using s1(2) by simp
  from boot_pcx_init [OF this] obtain s2 where s2: "pcx_init s1 = Some s2" "early 6 s2" "boot_frame s1 s2"
    by blast
  have "early (Suc 5) s2" using s2(2) by simp
  from boot_idt_init [OF this] obtain s3 where s3: "idt_init handler s2 = Some s3" "early 5 s3"
    "boot_frame s2 s3" by blast
  from assms(3) s1(1) s2(1) s3(1) obtain s4 s5 s6 p s7 s8 where s4: "ccb_new s3 = Some s4"
    "interrupt_add_vector_page 0x0080 pinion_vector_page_vtable s4 = Some s5"
    "interrupt_add_vector_page 0x0100 irq_vector_page_vtable s5 = Some s6"
    "tcb_new s6 = Some (p, s7)" "scheduler_add_tcb p s7 = Some s8" "scheduler_schedule s8 = Some t"
    by (auto simp: init_kernel_def bind_eq_Some_conv)
  have e: "mem_inv [] s1" "unat (pmm_alloc_base s1) + 264 * 0x1000 \<le> unat (pmm_alloc_limit s1)"
    using s1(2) by (simp_all add: early_def)
  have pok: "pages_ok s1" using e(1) by (auto simp: mem_inv_def pages_ok_def)
  have "264 \<le> pages_left s1" using e(2) by (simp add: pages_left_def less_eq_div_iff_mult_less_eq)
  then have left: "258 \<le> pages_left s1" by simp
  have p2: "paging_inv s2" by (rule pcx_init_window [OF pok left s2(1)])
  have p3: "paging_inv s3" by (rule paging_inv_idt_init [OF p2 s3(1)])
  have "ccb_list s3 = 0" using s3(2) by (simp add: early_def)
  from paging_inv_ccb_new [OF p3 this s4(1)] have p4: "paging_inv s4" .
  have p6: "paging_inv s6"
    by (rule paging_inv_vector_page [OF paging_inv_vector_page [OF p4 s4(2)] s4(3)])
  have "paging_inv s7" by (rule kernel_window.tcb_new [OF s4(4) p6])
  moreover have "pg_view t = pg_view s7" using pg_scheduler(2) [OF s4(5)] pg_schedule [OF s4(6)] by simp
  ultimately show ?thesis using kernel_window.view by blast
qed

lemma paging_inv_window:
  assumes "paging_inv s" "page_base \<le> v"
  shows "pcx_get_trans 0 v s = Some (window_phys v, pcx_unlock s)"
    "\<exists>f. pcx_get_flags 0 v s = Some (f, pcx_unlock s) \<and> f AND PF_PRES \<noteq> 0 \<and> f AND PF_USER = 0"
  using assms window_trans window_closed
  by (auto simp: paging_inv_def pcx_get_trans_def pcx_get_flags_def pcx_arg_def)

end
