(* ===== verification/Hardware_Walk.thy ===== *)
theory Hardware_Walk
  imports Boot_Paging
begin

text \<open>
  Page tables as the processor reads them: entries hold physical addresses. The tables that
  \<open>unfold/long.s\<close> enters long mode with and those that \<open>pcx_init\<close> builds agree on the kernel's
  window, so the switch from the one to the other does not move the code that executes it.
\<close>

subsection \<open>The walk of the processor\<close>

text \<open>
  A frame has bits 12 to 51 of an entry, in a large page those from its size on. Entries of
  levels 3 and 2 can be large.
\<close>

definition hw_frame :: "nat \<Rightarrow> u64" where
  "hw_frame i = mask 52 AND NOT (mask (level_shift i))"

fun hw_walk :: "(u64 \<Rightarrow> u64) \<Rightarrow> u64 \<Rightarrow> nat \<Rightarrow> u64 \<Rightarrow> u64 option" where
  "hw_walk pm v 0 pt = None"
| "hw_walk pm v (Suc k) pt =
     (let e = pm (pte_addr (Suc k) v pt) in
      if e AND PF_PRES = 0 then None
      else if k = 0 \<or> k \<le> 2 \<and> e AND PF_LARGE \<noteq> 0 then
        Some ((e AND hw_frame (Suc k)) + (v AND mask (level_shift (Suc k))))
      else hw_walk pm v k (e AND hw_frame 1))"

declare hw_walk.simps [simp del]

lemma hw_walk_table:
  assumes "pt_index (Suc k) v = j" "pm (p + 8 * j) = e" "descends e" "e AND hw_frame 1 = q" "0 < k"
  shows "hw_walk pm v (Suc k) p = hw_walk pm v k q"
  using assms by (simp add: hw_walk.simps pte_addr_def descends_def)

lemma hw_walk_large:
  assumes "pt_index 2 v = j" "pm (p + 8 * j) = e" "e AND PF_PRES \<noteq> 0" "e AND PF_LARGE \<noteq> 0"
  shows "hw_walk pm v 2 p = Some ((e AND hw_frame 2) + (v AND mask 21))"
proof -
  have "(2 :: nat) = Suc 1" by simp
  then show ?thesis using assms by (simp only:) (simp add: hw_walk.simps pte_addr_def level_shift_def)
qed

text \<open>The bits of a frame that the processor and the kernel's code keep.\<close>

lemma hw_frame_bits:
  assumes "take_bit (level_shift i) x = (0 :: u64)" "unat x < 2 ^ 52" "f AND hw_frame i = 0"
  shows "(x OR f) AND hw_frame i = x"
proof (rule bit_word_eqI)
  fix n assume n: "n < LENGTH(64)"
  have lo: "level_shift i \<le> n" if "bit x n" using aligned_bit [OF assms(1), of n] that by (metis not_le)
  have hi: "n < 52" if b: "bit x n"
  proof -
    have "x = take_bit 52 x" using assms(2) by (simp add: word_unat_eq_iff unsigned_take_bit_eq take_bit_nat_eq_self)
    then have "bit x n = bit (take_bit 52 x) n" by simp
    then show ?thesis using b by (simp add: bit_take_bit_iff)
  qed
  have f: "\<not> bit (f AND hw_frame i) n" using assms(3) by simp
  show "bit ((x OR f) AND hw_frame i) n = bit x n"
    using lo hi f n by (auto simp: hw_frame_def bit_simps)
qed

lemma kernel_link_hw:
  assumes "window_page p"
  shows "kernel_link p AND hw_frame 1 = p - page_base"
  unfolding kernel_link_def
proof (rule hw_frame_bits)
  have "take_bit 12 page_base = 0" by (simp add: page_base_def)
  then show "take_bit (level_shift 1) (p - page_base) = 0"
    using page_aligned_arith(2) assms by (simp add: window_page_def level_shift_def)
  have "unat (p - page_base) = unat p - unat page_base"
    by (rule unat_sub) (use assms in \<open>simp add: window_page_def\<close>)
  moreover have "unat p < 2 ^ 64" using unsigned_less [of p] by simp
  ultimately show "unat (p - page_base) < 2 ^ 52" by (simp add: page_base_def)
  show "(PF_PRES OR PF_WRITE) AND hw_frame 1 = 0"
    by (simp add: hw_frame_def level_shift_def PF_PRES_def PF_WRITE_def mask_eq_exp_minus_1)
qed

text \<open>The kernel's window: the processor translates as \<open>pmm_vaddr\<close> expects.\<close>

definition phys_words :: "(ptr \<Rightarrow> u64) \<Rightarrow> u64 \<Rightarrow> u64" where
  "phys_words m a = m (a + page_base)"

lemma pt2_entry_hw:
  assumes "i < 512"
  shows "pinion_pt2_entry i AND hw_frame 2 = window_frame_of i"
  unfolding pt2_entry_split
proof (rule hw_frame_bits)
  have d: "2 ^ 21 dvd unat (window_frame_of i)"
    using window_frame_unat [OF assms] by (simp add: dvd_add dvd_mult)
  show "take_bit (level_shift 2) (window_frame_of i) = 0"
  proof -
    have "unat (take_bit 21 (window_frame_of i)) = unat (window_frame_of i) mod 2 ^ 21"
      by (simp only: unsigned_take_bit_eq take_bit_nat_def)
    also have "\<dots> = 0" using d by (simp only: dvd_eq_mod_eq_0)
    finally have "take_bit 21 (window_frame_of i) = 0" by (simp only: unsigned_eq_0_iff)
    then show ?thesis by (simp add: level_shift_def)
  qed
  show "unat (window_frame_of i) < 2 ^ 52" using window_frame_unat [OF assms] assms by simp
  show "window_flags i AND hw_frame 2 = 0"
    by (simp add: window_flags_def hw_frame_def level_shift_def pf_defs mask_eq_exp_minus_1)
qed

lemma window_hw:
  assumes "window m root" "page_base \<le> v"
  shows "hw_walk (phys_words m) v 4 (root - page_base) = Some (window_phys v)"
proof -
  from windowE [OF assms(1)] obtain p3 p2 where w: "window_page p3" "m (root + 8 * 511) = kernel_link p3"
    "window_page p2" "m (p3 + 8 * 511) = kernel_link p2"
    "\<And>i. i < 512 \<Longrightarrow> m (p2 + 8 * of_nat i) = pinion_pt2_entry i" by metis
  note I = window_indices [OF assms(2)]
  let ?i = "unat (v - page_base) div 2 ^ 21"
  have n: "(4 :: nat) = Suc 3" "(3 :: nat) = Suc 2" by simp_all
  have pw: "phys_words m (q - page_base + k) = m (q + k)" for q k
    by (simp add: phys_words_def)
  have "hw_walk (phys_words m) v 4 (root - page_base) = hw_walk (phys_words m) v 3 (p3 - page_base)"
    unfolding n(1)
    by (rule hw_walk_table [OF I(1) [unfolded n(1)] _ kernel_link_entry(1) [OF w(1)] kernel_link_hw [OF w(1)]])
      (simp only: pw w(2), simp)
  also have "\<dots> = hw_walk (phys_words m) v 2 (p2 - page_base)"
    unfolding n(2)
    by (rule hw_walk_table [OF I(2) [unfolded n(2)] _ kernel_link_entry(1) [OF w(3)] kernel_link_hw [OF w(3)]])
      (simp only: pw w(4), simp)
  also have "\<dots> = Some ((pinion_pt2_entry ?i AND hw_frame 2) + (v AND mask 21))"
    by (rule hw_walk_large [OF I(3) _ pt2_entry_present(1,2)]) (simp only: pw w(5) [OF I(4)])
  also have "pinion_pt2_entry ?i AND hw_frame 2 = pinion_pt2_entry ?i AND NOT PF_BITS"
    using pt2_entry_hw [OF I(4)] pt2_entry_frame [OF I(4)] by simp
  also have "Some ((pinion_pt2_entry ?i AND NOT PF_BITS) + (v AND mask 21)) = Some (window_phys v)"
    using window_walk(1) [OF assms] window_trans [OF assms] by simp
  finally show ?thesis .
qed

subsection \<open>The tables of \<open>long.s\<close>\<close>

text \<open>The four tables of the section \<open>.pagedata\<close>, which the linker aligns to pages.\<close>

definition long_pt4 :: "u64 \<Rightarrow> u64 \<Rightarrow> u64 list" where
  "long_pt4 pt30 pt31 = [pt30 + 3] @ replicate 510 0 @ [pt31 + 3]"

definition long_pt30 :: "u64 \<Rightarrow> u64 list" where
  "long_pt30 pt2 = [pt2 + 3] @ replicate 511 0"

definition long_pt31 :: "u64 \<Rightarrow> u64 list" where
  "long_pt31 pt2 = replicate 511 0 @ [pt2 + 3]"

definition long_pt2 :: "u64 list" where
  "long_pt2 = map (\<lambda>i. push_bit 21 (of_nat i) OR 0x83) [0..<512]"

definition stored :: "(u64 \<Rightarrow> u64) \<Rightarrow> u64 \<Rightarrow> u64 list \<Rightarrow> bool" where
  "stored m p ws \<longleftrightarrow> (\<forall>i < length ws. m (p + 8 * of_nat i) = ws ! i)"

definition low_page :: "u64 \<Rightarrow> bool" where
  "low_page p \<longleftrightarrow> take_bit 12 p = 0 \<and> unat p < 2 ^ 32"

definition long_tables :: "(u64 \<Rightarrow> u64) \<Rightarrow> u64 \<Rightarrow> bool" where
  "long_tables m pt4 \<longleftrightarrow> (\<exists>pt30 pt31 pt2. low_page pt30 \<and> low_page pt31 \<and> low_page pt2 \<and>
     stored m pt4 (long_pt4 pt30 pt31) \<and> stored m pt30 (long_pt30 pt2) \<and>
     stored m pt31 (long_pt31 pt2) \<and> stored m pt2 long_pt2)"

text \<open>Memory with the words \<open>ws\<close> at the page \<open>p\<close>.\<close>

definition place_words :: "u64 \<Rightarrow> u64 list \<Rightarrow> (u64 \<Rightarrow> u64) \<Rightarrow> u64 \<Rightarrow> u64" where
  "place_words p ws m a = (if unat (a - p) < 8 * length ws then ws ! (unat (a - p) div 8) else m a)"

lemma long_pt_lengths [simp]:
  "length (long_pt4 a b) = 512" "length (long_pt30 c) = 512" "length (long_pt31 d) = 512" "length long_pt2 = 512"
  by (simp_all add: long_pt4_def long_pt30_def long_pt31_def long_pt2_def del: upt_rec_numeral)

lemma place_words_stored:
  assumes "length ws = 512"
  shows "stored (place_words p ws m) p ws"
  unfolding stored_def place_words_def
proof (intro allI impI)
  fix i assume i: "i < length ws"
  have "unat (p + 8 * of_nat i - p) = 8 * i" using i assms by (simp add: unat_word_ariths unat_of_nat)
  then show "(if unat (p + 8 * of_nat i - p) < 8 * length ws then ws ! (unat (p + 8 * of_nat i - p) div 8)
      else m (p + 8 * of_nat i)) = ws ! i" using i by simp
qed

lemma place_words_other:
  assumes "length ws = 512" "length vs = 512" "take_bit 12 p = 0" "take_bit 12 q = 0" "p \<noteq> q" "stored m q vs"
  shows "stored (place_words p ws m) q vs"
  unfolding stored_def
proof (intro allI impI)
  fix i assume i: "i < length vs"
  have k: "(of_nat i :: u64) < 512" using i assms(2) of_nat_cell by simp
  have "\<not> unat (q + 8 * of_nat i - p) < 8 * length ws"
    using cell_in_page [OF assms(4,3) k] assms(1,5) by (simp add: word_less_nat_alt)
  then show "place_words p ws m (q + 8 * of_nat i) = vs ! i"
    using assms(6) i by (simp add: place_words_def stored_def)
qed

lemma low_link:
  assumes "low_page p"
  shows "descends (p + 3)" "(p + 3) AND hw_frame 1 = p"
proof -
  have al: "take_bit 12 p = 0" "unat p < 2 ^ 63" "unat p < 2 ^ 52" using assms by (simp_all add: low_page_def)
  have e: "p + 3 = p OR (PF_PRES OR PF_WRITE)"
    using or_flags_add(1) [OF al(1)] by (simp add: PF_PRES_def PF_WRITE_def)
  show "descends (p + 3)"
    unfolding e by (rule table_entry(1) [OF low_frame [OF al(1,2)] kernel_link_flags])
  show "(p + 3) AND hw_frame 1 = p"
    unfolding e
    by (rule hw_frame_bits) (use al in \<open>simp_all add: level_shift_def hw_frame_def PF_PRES_def PF_WRITE_def mask_eq_exp_minus_1\<close>)
qed

lemma long_pt2_nth: "i < 512 \<Longrightarrow> long_pt2 ! i = push_bit 21 (of_nat i) OR 0x83"
  by (simp add: long_pt2_def del: upt_rec_numeral)

lemma long_pt2_entry:
  assumes "i < 512"
  shows "long_pt2 ! i AND hw_frame 2 = push_bit 21 (of_nat i)"
    "long_pt2 ! i AND PF_PRES \<noteq> 0" "long_pt2 ! i AND PF_LARGE \<noteq> 0"
proof -
  have u: "unat (push_bit 21 (of_nat i) :: u64) < 2 ^ 52"
    using assms by (simp add: push_bit_eq_mult unat_word_ariths unat_of_nat)
  have z: "take_bit 21 (push_bit 21 (of_nat i) :: u64) = 0"
    by (rule bit_word_eqI) (simp add: bit_simps)
  show "long_pt2 ! i AND hw_frame 2 = push_bit 21 (of_nat i)"
    unfolding long_pt2_nth [OF assms]
    by (rule hw_frame_bits) (use u z in \<open>simp_all add: level_shift_def hw_frame_def mask_eq_exp_minus_1\<close>)
  have "bit (0x83 :: u64) 0" "bit (0x83 :: u64) 7" by simp_all
  then have "bit (long_pt2 ! i) 0" "bit (long_pt2 ! i) 7"
    unfolding long_pt2_nth [OF assms] by (simp_all only: bit_or_iff simp_thms)
  then show "long_pt2 ! i AND PF_PRES \<noteq> 0" "long_pt2 ! i AND PF_LARGE \<noteq> 0" by (simp_all add: flag_bits)
qed

text \<open>What the walk comes to once the table of large pages is reached.\<close>

lemma long_large:
  assumes "stored m pt2 long_pt2" "pt_index 2 v = of_nat (x div 2 ^ 21)" "x < 2 ^ 30"
    "unat (v AND mask 21) = x mod 2 ^ 21"
  shows "hw_walk m v 2 pt2 = Some (of_nat x)"
proof -
  have i: "x div 2 ^ 21 < 512" using assms(3) by simp
  have len: "length long_pt2 = 512" by (simp add: long_pt2_def)
  have "m (pt2 + 8 * of_nat (x div 2 ^ 21)) = long_pt2 ! (x div 2 ^ 21)"
    using assms(1) i len by (simp add: stored_def)
  from hw_walk_large [where pm = m, OF assms(2) this long_pt2_entry(2,3) [OF i]]
  have "hw_walk m v 2 pt2 = Some (push_bit 21 (of_nat (x div 2 ^ 21)) + (v AND mask 21))"
    by (simp only: long_pt2_entry(1) [OF i])
  moreover have "push_bit 21 (of_nat (x div 2 ^ 21)) + (v AND mask 21) = of_nat x"
  proof -
    have "unat (push_bit 21 (of_nat (x div 2 ^ 21)) :: u64) = x div 2 ^ 21 * 2 ^ 21"
      using i by (simp add: push_bit_eq_mult unat_word_ariths unat_of_nat)
    then have "unat (push_bit 21 (of_nat (x div 2 ^ 21)) + (v AND mask 21)) = x div 2 ^ 21 * 2 ^ 21 + x mod 2 ^ 21"
      using assms(3,4) by (simp add: unat_word_ariths)
    also have "\<dots> = unat (of_nat x :: u64)" using assms(3) by (simp add: unat_of_nat)
    finally show ?thesis by (simp only: word_unat_eq_iff)
  qed
  ultimately show ?thesis by simp
qed

lemma long_window:
  assumes "long_tables m pt4" "page_base \<le> v"
  shows "hw_walk m v 4 pt4 = Some (v - page_base)"
proof -
  from assms(1) obtain pt30 pt31 pt2 where t: "low_page pt31" "low_page pt2"
    "stored m pt4 (long_pt4 pt30 pt31)" "stored m pt31 (long_pt31 pt2)" "stored m pt2 long_pt2"
    by (auto simp: long_tables_def)
  note I = window_indices [OF assms(2)]
  have n: "(4 :: nat) = Suc 3" "(3 :: nat) = Suc 2" by simp_all
  have e4: "m (pt4 + 8 * 511) = pt31 + 3"
    using t(3) by (auto simp: stored_def long_pt4_def nth_append dest: spec [of _ 511])
  have e3: "m (pt31 + 8 * 511) = pt2 + 3"
    using t(4) by (auto simp: stored_def long_pt31_def nth_append dest: spec [of _ 511])
  have "hw_walk m v 4 pt4 = hw_walk m v 3 pt31"
    unfolding n(1) by (rule hw_walk_table [where pm = m, OF I(1) [unfolded n(1)] e4 low_link [OF t(1)]]) simp
  also have "\<dots> = hw_walk m v 2 pt2"
    unfolding n(2) by (rule hw_walk_table [where pm = m, OF I(2) [unfolded n(2)] e3 low_link [OF t(2)]]) simp
  also have "\<dots> = Some (of_nat (unat (v - page_base)))"
  proof (rule long_large [OF t(5) I(3) _ I(5)])
    show "unat (v - page_base) < 2 ^ 30" using window_unat [OF assms(2)] by metis
  qed
  finally show ?thesis by simp
qed

lemma long_identity:
  assumes "long_tables m pt4" "v < 0x40000000"
  shows "hw_walk m v 4 pt4 = Some v"
proof -
  from assms(1) obtain pt30 pt31 pt2 where t: "low_page pt30" "low_page pt2"
    "stored m pt4 (long_pt4 pt30 pt31)" "stored m pt30 (long_pt30 pt2)" "stored m pt2 long_pt2"
    by (auto simp: long_tables_def)
  have x: "unat v < 2 ^ 30" using assms(2) by (simp add: word_less_nat_alt)
  have i: "pt_index 4 v = 0" "pt_index 3 v = 0" "pt_index 2 v = of_nat (unat v div 2 ^ 21)"
  proof -
    have "unat (pt_index 4 v) = 0" "unat (pt_index 3 v) = 0" "unat (pt_index 2 v) = unat v div 2 ^ 21"
      using x by (simp_all add: pt_index_unat level_shift_def)
    moreover have "pt_index 2 v = of_nat (unat (pt_index 2 v))" by simp
    ultimately show "pt_index 4 v = 0" "pt_index 3 v = 0" "pt_index 2 v = of_nat (unat v div 2 ^ 21)"
      by (simp_all only: unsigned_eq_0_iff)
  qed
  have n: "(4 :: nat) = Suc 3" "(3 :: nat) = Suc 2" by simp_all
  have e4: "m (pt4 + 8 * 0) = pt30 + 3"
    using t(3) by (auto simp: stored_def long_pt4_def dest: spec [of _ 0])
  have e3: "m (pt30 + 8 * 0) = pt2 + 3"
    using t(4) by (auto simp: stored_def long_pt30_def dest: spec [of _ 0])
  have "hw_walk m v 4 pt4 = hw_walk m v 3 pt30"
    unfolding n(1) by (rule hw_walk_table [where pm = m, OF i(1) [unfolded n(1)] e4 low_link [OF t(1)]]) simp
  also have "\<dots> = hw_walk m v 2 pt2"
    unfolding n(2) by (rule hw_walk_table [where pm = m, OF i(2) [unfolded n(2)] e3 low_link [OF t(2)]]) simp
  also have "\<dots> = Some (of_nat (unat v))"
  proof (rule long_large [OF t(5) i(3) x])
    have "v AND mask 21 = v mod 2 ^ 21" by (simp only: take_bit_eq_mask [symmetric] take_bit_eq_mod)
    then show "unat (v AND mask 21) = unat v mod 2 ^ 21" by (simp add: unat_mod_distrib)
  qed
  finally show ?thesis by simp
qed

subsection \<open>The switch\<close>

lemma pmm_alloc_area: "pmm_alloc s = Some (p, t) \<Longrightarrow> pmm_base t = pmm_base s \<and> pcx_root t = pcx_root s"
  by (auto simp: pmm_alloc_def Let_def bind_eq_Some_conv split: if_splits)

lemma pge_alloc_area:
  assumes "pge_alloc s = Some (p, t)"
  shows "pmm_base t = pmm_base s \<and> pcx_root t = pcx_root s"
  using pge_alloc_view [OF assms, of "\<lambda>s. (pmm_base s, pcx_root s)"] pmm_alloc_area by simp

lemma upper_area: "pcx_init_upper is s = Some t \<Longrightarrow> pmm_base t = pmm_base s \<and> pcx_root t = pcx_root s"
proof (induction "is" arbitrary: s)
  case (Cons i "is")
  then show ?case by (fastforce simp: Let_def bind_eq_Some_conv dest: pge_alloc_area)
qed simp

lemma pcx_init_cr3:
  assumes "pcx_init s = Some t"
  shows "cr3 t = pcx_root t - pmm_base s"
proof (rule pcx_init_steps [OF assms])
  fix root s1 s2 p s3 m
  assume a: "pge_alloc s = Some (root, s1)"
    "pcx_init_upper [256..<512] (s1\<lparr>pcx_root := root, mem := clear_page root (mem s1)\<rparr>) = Some s2"
    "pge_alloc s2 = Some (p, s3)" "t = pcx_switch (pcx_root s3) (s3\<lparr>mem := m\<rparr>)"
  have "pmm_base s3 = pmm_base s"
    using pge_alloc_area [OF a(1)] upper_area [OF a(2)] pge_alloc_area [OF a(3)] by simp
  then show ?thesis by (simp add: a(4) pcx_switch_def)
qed

lemma pcx_init_switch:
  assumes "pages_ok s" "258 \<le> pages_left s" "pmm_base s = page_base"
  obtains t where "pcx_init s = Some t"
    "\<And>v. page_base \<le> v \<Longrightarrow> v - page_base < 0x20000000 \<Longrightarrow>
       hw_walk (phys_words (mem t)) v 4 (cr3 t) = Some (v - page_base)"
proof -
  from pcx_init_tables [OF assms(1,2)] obtain t where t: "pcx_init s = Some t" "paging_inv t" by blast
  then have "window (mem t) (pcx_root t)" by (auto simp: paging_inv_def)
  from window_hw [OF this] have "hw_walk (phys_words (mem t)) v 4 (cr3 t) = Some (v - page_base)"
    if "page_base \<le> v" "v - page_base < 0x20000000" for v
    using pcx_init_cr3 [OF t(1)] assms(3) that by (simp add: window_phys_def Let_def)
  with t(1) show ?thesis by (rule that)
qed

end
