(* ===== verification/Processor.thy ===== *)
theory Processor
  imports Entry_Code Hardware_Walk Acpi
begin

text \<open>
  The set-up of the processor: segment descriptors and the entry of \<open>start.s\<close> and \<open>long.s\<close>,
  the task state segment, the \<open>gs\<close> bases and the local APIC in \<open>ccb_new\<close> of \<open>ccb.s\<close>, the
  programming of the local APIC in \<open>init\<close>, and \<open>apic_init\<close> of \<open>interrupt.s\<close>.
\<close>

subsection \<open>Segment descriptors\<close>

definition gdt :: "u64 list" where
  "gdt =
    [0x0000000000000000, 0x0020980000000000, 0x0020920000000000, 0x0020F80000000000,
     0x0020F20000000000, 0, 0, 0, 0, 0, 0, 0, 0, 0, 0, 0,
     0x0000890000000067, 0x0000000000000000]"

definition gdt_limit :: nat where
  "gdt_limit = (8 * 16 + 16 * 1) - 1"

text \<open>A descriptor as the processor reads it.\<close>

definition desc_present :: "u64 \<Rightarrow> bool" where "desc_present d = bit d 47"
definition desc_dpl :: "u64 \<Rightarrow> u64" where "desc_dpl d = drop_bit 45 d AND 3"
definition desc_type :: "u64 \<Rightarrow> u64" where "desc_type d = drop_bit 40 d AND 0x1F"
definition desc_long :: "u64 \<Rightarrow> bool" where "desc_long d = bit d 53"
definition desc_limit :: "u64 \<Rightarrow> u64" where
  "desc_limit d = (d AND 0xFFFF) OR push_bit 16 (drop_bit 48 d AND 0xF)"
definition desc_base :: "u64 \<Rightarrow> u64 \<Rightarrow> u64" where
  "desc_base lo hi = (drop_bit 16 lo AND 0xFFFFFF) OR push_bit 24 (drop_bit 56 lo AND 0xFF)
     OR push_bit 32 (hi AND 0xFFFFFFFF)"

text \<open>The descriptor a selector names; its low three bits are not part of the index.\<close>

definition selected :: "u64 list \<Rightarrow> u16 \<Rightarrow> u64" where
  "selected g sel = g ! unat (drop_bit 3 sel)"

subsection \<open>The task state segment\<close>

text \<open>\<open>ccb_new\<close> stores the base of the TSS into the descriptor in four pieces.\<close>

definition set_tss_low :: "u64 \<Rightarrow> u64 \<Rightarrow> u64" where
  "set_tss_low base w = (w AND NOT 0xFF0000FFFFFF0000) OR push_bit 16 (base AND 0xFFFF)
     OR push_bit 32 (drop_bit 16 base AND 0xFF) OR push_bit 56 (drop_bit 24 base AND 0xFF)"

definition set_tss_high :: "u64 \<Rightarrow> u64 \<Rightarrow> u64" where
  "set_tss_high base w = (w AND NOT 0xFFFFFFFF) OR drop_bit 32 base"

definition set_tss :: "nat \<Rightarrow> u64 \<Rightarrow> u64 list \<Rightarrow> u64 list" where
  "set_tss n base g = g[16 + 2 * n := set_tss_low base (g ! (16 + 2 * n)),
     17 + 2 * n := set_tss_high base (g ! (17 + 2 * n))]"

definition tss_selector :: "nat \<Rightarrow> u16" where
  "tss_selector n = push_bit 4 (of_nat n) + 0x80"

lemma tss_masks:
  "(0xFFFF :: u64) = mask 16" "(0xFFFFFF :: u64) = mask 24" "(0xFF :: u64) = mask 8"
  "(0xFFFFFFFF :: u64) = mask 32" "(0xF :: u64) = mask 4" "(0x1F :: u64) = mask 5" "(3 :: u64) = mask 2"
  "(0xFF0000FFFFFF0000 :: u64) = push_bit 56 (mask 8) OR push_bit 16 (mask 24)"
  by (simp_all add: mask_eq_exp_minus_1)

lemma set_tss_low_bit:
  assumes "n < 64"
  shows "bit (set_tss_low base w) n =
    (if n < 16 then bit w n else if n < 40 then bit base (n - 16) else if n < 56 then bit w n
     else bit base (n - 32))"
proof -
  consider "n < 16" | "16 \<le> n" "n < 32" | "32 \<le> n" "n < 40" | "40 \<le> n" "n < 56" | "56 \<le> n"
    by linarith
  then show ?thesis
    unfolding set_tss_low_def tss_masks(1,3,8) using assms by cases (simp_all add: bit_simps less_diff_conv2)
qed

lemma desc_base_bit:
  assumes "n < 64"
  shows "bit (desc_base lo hi) n =
    (if n < 24 then bit lo (n + 16) else if n < 32 then bit lo (n + 32) else bit hi (n - 32))"
proof -
  consider "n < 24" | "24 \<le> n" "n < 32" | "32 \<le> n" by linarith
  then show ?thesis
    unfolding desc_base_def tss_masks(2-4) using assms by cases (simp_all add: bit_simps less_diff_conv2 add.commute)
qed

lemma tss_base: "desc_base (set_tss_low base w) (set_tss_high base w') = base"
proof (rule bit_word_eqI)
  fix n assume n: "n < LENGTH(64)"
  then have n64: "n < 64" by simp
  have h: "bit (set_tss_high base w') (n - 32) = bit base n" if "32 \<le> n"
    unfolding set_tss_high_def tss_masks(4) using that n64 by (simp add: bit_simps less_diff_conv2)
  show "bit (desc_base (set_tss_low base w) (set_tss_high base w')) n = bit base n"
    unfolding desc_base_bit [OF n64] using n64 h by (auto simp: set_tss_low_bit)
qed

lemma tss_kind:
  "desc_present (set_tss_low base w) = desc_present w" "desc_type (set_tss_low base w) = desc_type w"
  "desc_limit (set_tss_low base w) = desc_limit w" "desc_dpl (set_tss_low base w) = desc_dpl w"
proof -
  show "desc_present (set_tss_low base w) = desc_present w"
    by (simp add: desc_present_def set_tss_low_bit)
  show "desc_type (set_tss_low base w) = desc_type w"
    unfolding desc_type_def tss_masks(6)
    by (rule bit_word_eqI) (auto simp: bit_and_iff bit_mask_iff bit_drop_bit_eq set_tss_low_bit)
  show "desc_dpl (set_tss_low base w) = desc_dpl w"
    unfolding desc_dpl_def tss_masks(7)
    by (rule bit_word_eqI) (auto simp: bit_and_iff bit_mask_iff bit_drop_bit_eq set_tss_low_bit)
  have "set_tss_low base w AND mask 16 = w AND mask 16"
    by (rule bit_word_eqI) (auto simp: bit_and_iff bit_mask_iff set_tss_low_bit)
  moreover have "drop_bit 48 (set_tss_low base w) AND mask 4 = drop_bit 48 w AND mask 4"
    by (rule bit_word_eqI) (auto simp: bit_and_iff bit_mask_iff bit_drop_bit_eq set_tss_low_bit)
  ultimately show "desc_limit (set_tss_low base w) = desc_limit w"
    unfolding desc_limit_def tss_masks(1,5) by simp
qed

subsection \<open>Registers of the processor\<close>

definition MSR_GS_BASE :: u32 where "MSR_GS_BASE = 0xC0000101"
definition MSR_KERNEL_GS_BASE :: u32 where "MSR_KERNEL_GS_BASE = 0xC0000102"
definition MSR_APIC_BASE :: u32 where "MSR_APIC_BASE = 0x1B"

record processor =
  gdt_table :: "u64 list"
  gdt_register :: "nat option"     \<comment> \<open>the limit, once \<open>lgdt\<close> has been executed\<close>
  data_selector :: u16             \<comment> \<open>in \<open>ds\<close>, \<open>es\<close>, \<open>fs\<close>, \<open>gs\<close> and \<open>ss\<close>\<close>
  task_register :: u16
  msr :: "u32 \<Rightarrow> u64"
  lapic_pointer :: ptr             \<comment> \<open>\<open>[gs:0x3F8]\<close>\<close>

definition gdt_init :: "processor \<Rightarrow> processor" where
  "gdt_init c = c\<lparr>gdt_table := gdt, gdt_register := Some gdt_limit, data_selector := 0x10\<rparr>"

text \<open>The value that enables the local APIC, and the address that \<open>ccb_new\<close> takes from it: moving
  into \<open>edi\<close> clears the upper half that was put there before.\<close>

definition apic_enable :: "u64 \<Rightarrow> u64" where
  "apic_enable v = push_bit 32 (drop_bit 32 v AND 0xF) OR (v AND 0xFFFFF000) OR 0x800"

definition apic_address :: "u64 \<Rightarrow> u64" where
  "apic_address v = v AND 0xFFFFF000"

definition ccb_new_processor :: "nat \<Rightarrow> ptr \<Rightarrow> processor \<Rightarrow> processor" where
  "ccb_new_processor n ccb c =
     (let c = c\<lparr>gdt_table := set_tss n (ccb + 0xC00) (gdt_table c)\<rparr>;
          c = c\<lparr>task_register := tss_selector n\<rparr>;
          c = c\<lparr>msr := (msr c)(MSR_KERNEL_GS_BASE := ccb, MSR_GS_BASE := ccb)\<rparr>;
          v = apic_enable (msr c MSR_APIC_BASE);
          c = c\<lparr>msr := (msr c)(MSR_APIC_BASE := v)\<rparr>
      in c\<lparr>lapic_pointer := pmm_vaddr (apic_address v)\<rparr>)"

lemma apic_enable_address: "apic_address (apic_enable v) = v AND 0xFFFFF000"
proof -
  have m: "(0xFFFFF000 :: u64) = push_bit 12 (mask 20)" "(0xF :: u64) = mask 4" "(0x800 :: u64) = push_bit 11 1"
    by (simp_all add: mask_eq_exp_minus_1)
  have "push_bit 32 (drop_bit 32 v AND mask 4) AND push_bit 12 (mask 20) = (0 :: u64)"
    by (rule bit_word_eqI) (auto simp: bit_simps)
  moreover have "push_bit 11 1 AND push_bit 12 (mask 20) = (0 :: u64)" by (simp add: mask_eq_exp_minus_1)
  ultimately show ?thesis
    unfolding apic_address_def apic_enable_def m by (simp add: bit.conj_disj_distrib2 and.assoc)
qed

text \<open>
  \<open>apic_init\<close>: the local APIC is enabled, its registers are read through the kernel's window,
  and the pointers and the identity go into the control block. The result: the processor, the
  identity and the pointer to the I/O APIC. \<open>None\<close> is the endless loop without an MP table.
\<close>

definition apic_init :: "ptr \<Rightarrow> (ptr \<Rightarrow> u32) \<Rightarrow> bytes \<Rightarrow> processor \<Rightarrow> (processor \<times> u32 \<times> ptr) option" where
  "apic_init baseaddr regs m c =
     (let c = c\<lparr>msr := (msr c)(MSR_APIC_BASE := msr c MSR_APIC_BASE OR 0x800)\<rparr>;
          rax = baseaddr - 0x200000 + 0x3EE00000;
          c = c\<lparr>lapic_pointer := rax\<rparr>;
          eax = regs (rax + 0x20)
      in do {
        (ioapic, es) \<leftarrow> ioapic_init m;
        Some (c, eax, ioapic)
      })"

text \<open>
  It has the local APIC where \<open>ccb_new\<close> found it when the base register has the value the
  processor starts with; otherwise the two differ, since the register is not read here.
\<close>

lemma apic_init_pointer:
  assumes "apic_init (page_base + 0x200000) regs m c = Some (d, i, io)"
    "msr c MSR_APIC_BASE AND 0xFFFFF000 = 0xFEE00000"
  shows "lapic_pointer d = lapic_pointer (ccb_new_processor n p c)" "io = pmm_vaddr 0xFEC00000"
    "bit (msr d MSR_APIC_BASE) 11"
proof -
  have "lapic_pointer (ccb_new_processor n p c) = pmm_vaddr 0xFEE00000"
    using apic_enable_address [of "msr c MSR_APIC_BASE"] assms(2)
    by (simp add: ccb_new_processor_def Let_def MSR_GS_BASE_def MSR_KERNEL_GS_BASE_def MSR_APIC_BASE_def)
  moreover have "pmm_vaddr 0xFEE00000 = page_base + 0x3EE00000"
    by (simp add: pmm_vaddr_def page_base_def)
  moreover have "lapic_pointer d = page_base + 0x3EE00000" "bit (msr d MSR_APIC_BASE) 11"
    using assms(1) by (auto simp: apic_init_def Let_def bit_or_iff bit_numeral_rec split: bind_splits)
  ultimately show "lapic_pointer d = lapic_pointer (ccb_new_processor n p c)" "bit (msr d MSR_APIC_BASE) 11"
    by simp_all
  show "io = pmm_vaddr 0xFEC00000"
    using assms(1) by (auto simp: apic_init_def ioapic_init_def Let_def split: bind_splits if_splits)
qed

subsection \<open>The local APIC\<close>

text \<open>The writes of \<open>init\<close>, in order; one register is read first.\<close>

definition lapic_setup :: "u32 \<Rightarrow> (string \<times> u32) list" where
  "lapic_setup logical_destination =
    [(''destination_format'', 0xFFFFFFFF),
     (''logical_destination'', (logical_destination AND 0xFFFFFF) OR 1),
     (''lvt_timer'', 0x10000),
     (''lvt_performance_monitoring_counters'', 0x400),
     (''lvt_lint0'', 0x10000),
     (''lvt_lint1'', 0x10000),
     (''task_priority'', 0),
     (''spurious_interrupt_vector'', 33 OR 0x100),
     (''timer_initial_count'', 100000),
     (''lvt_timer'', 32 OR 0x20000),
     (''timer_divide_configuration'', 3)]"

definition lapic_writes :: "(string \<times> u32) list \<Rightarrow> (string \<Rightarrow> u32) \<Rightarrow> string \<Rightarrow> u32" where
  "lapic_writes ws regs = fold (\<lambda>(x, w) r. r(x := w)) ws regs"

text \<open>The physical address of a register: the field's offset behind the base of the page.\<close>

definition lapic_register :: "processor \<Rightarrow> string \<Rightarrow> ptr option" where
  "lapic_register c x = map_option (\<lambda>n. lapic_pointer c + of_nat n) (offsetof 8 lapic_regs_struct x)"

text \<open>Fields of an entry of the local vector table, and of the spurious vector register.\<close>

definition lvt_vector :: "u32 \<Rightarrow> nat" where "lvt_vector w = unat (w AND 0xFF)"
definition lvt_masked :: "u32 \<Rightarrow> bool" where "lvt_masked w = bit w 16"
definition lvt_periodic :: "u32 \<Rightarrow> bool" where "lvt_periodic w = bit w 17"
definition apic_software_enabled :: "u32 \<Rightarrow> bool" where "apic_software_enabled w = bit w 8"

subsection \<open>The processor after \<open>ccb_new\<close>\<close>

lemma kernel_segments:
  assumes "c' = ccb_new_processor 0 p (gdt_init c)"
  shows "gdt_register c' = Some gdt_limit" "8 * length (gdt_table c') = Suc gdt_limit"
    "take 16 (gdt_table c') = take 16 gdt" "data_selector c' = 0x10"
    "msr c' MSR_GS_BASE = p" "msr c' MSR_KERNEL_GS_BASE = p"
    "lapic_pointer c' = pmm_vaddr (msr c MSR_APIC_BASE AND 0xFFFFF000)"
  using apic_enable_address [of "msr c MSR_APIC_BASE"]
  by (simp_all add: assms ccb_new_processor_def gdt_init_def gdt_limit_def gdt_def set_tss_def Let_def
      MSR_GS_BASE_def MSR_KERNEL_GS_BASE_def MSR_APIC_BASE_def)

lemma task_descriptor:
  assumes "c' = ccb_new_processor 0 p (gdt_init c)"
  defines "lo \<equiv> selected (gdt_table c') (task_register c')"
    and "hi \<equiv> selected (gdt_table c') (task_register c' + 8)"
  shows "desc_present lo" "desc_type lo = 9" "desc_dpl lo = 0" "desc_limit lo = 103" "desc_base lo hi = p + 0xC00"
proof -
  have "lo = set_tss_low (p + 0xC00) 0x0000890000000067" "hi = set_tss_high (p + 0xC00) 0"
    by (simp_all add: lo_def hi_def assms(1) ccb_new_processor_def gdt_init_def gdt_def set_tss_def
        tss_selector_def selected_def Let_def)
  then show "desc_present lo" "desc_type lo = 9" "desc_dpl lo = 0" "desc_limit lo = 103" "desc_base lo hi = p + 0xC00"
    by (simp_all only: tss_kind tss_base)
      (simp_all add: desc_present_def desc_type_def desc_dpl_def desc_limit_def bit_numeral_rec)
qed

lemma lapic_programmed:
  fixes regs :: "string \<Rightarrow> u32"
  defines "r \<equiv> lapic_writes (lapic_setup (regs ''logical_destination'')) regs"
  shows "lvt_vector (r ''lvt_timer'') = 32" "\<not> lvt_masked (r ''lvt_timer'')" "lvt_periodic (r ''lvt_timer'')"
    "lvt_masked (r ''lvt_lint0'')" "lvt_masked (r ''lvt_lint1'')"
    "lvt_vector (r ''spurious_interrupt_vector'') = 33"
    "apic_software_enabled (r ''spurious_interrupt_vector'')" "r ''task_priority'' = 0"
    "x \<notin> fst ` set (lapic_setup w) \<Longrightarrow> r x = regs x"
  unfolding r_def lapic_writes_def lapic_setup_def
  by (simp_all add: lvt_vector_def lvt_masked_def lvt_periodic_def apic_software_enabled_def)

lemma lapic_page:
  assumes "n < 4096"
  shows "pmm_vaddr (0xFEE00000 + of_nat n) = pmm_vaddr 0xFEE00000 + of_nat n"
    "pmm_vaddr (0xFEE00000 + of_nat n) \<noteq> 0"
proof -
  have "unat (of_nat n :: u64) = n" using assms by (simp add: unat_of_nat)
  then have u: "unat (0xFEE00000 + of_nat n :: u64) = 0xFEE00000 + n"
    using assms by (simp add: unat_word_ariths)
  then have "\<not> 0xFEE00000 + of_nat n < (0x20000000 :: u64)" "0xE0000000 < (0xFEE00000 + of_nat n :: u64)"
    "0xFEE00000 + of_nat n < (0x100000000 :: u64)" using assms by (simp_all add: word_less_nat_alt)
  then have v: "pmm_vaddr (0xFEE00000 + of_nat n) = 0xFFFFFFFFFEE00000 + of_nat n"
    by (simp add: pmm_vaddr_def page_base_def)
  then show "pmm_vaddr (0xFEE00000 + of_nat n) = pmm_vaddr 0xFEE00000 + of_nat n"
    by (simp add: pmm_vaddr_def page_base_def)
  have "unat (0xFFFFFFFFFEE00000 + of_nat n :: u64) = 0xFFFFFFFFFEE00000 + n"
    using assms by (simp add: unat_word_ariths unat_of_nat)
  then show "pmm_vaddr (0xFEE00000 + of_nat n) \<noteq> 0" unfolding v by (metis add_is_0 unsigned_0 zero_neq_numeral)
qed

lemma lapic_reached:
  assumes "window m root" "lapic_pointer c = pmm_vaddr 0xFEE00000" "lapic_register c x = Some a" "n < 1024"
    "offsetof 8 lapic_regs_struct x = Some n"
  shows "hw_walk (phys_words m) a 4 (root - page_base) = Some (0xFEE00000 + of_nat n)"
proof -
  have "n < 4096" using assms(4) by simp
  note L = lapic_page [OF this]
  have "a = pmm_vaddr (0xFEE00000 + of_nat n)" using assms(2,3,5) L(1) by (simp add: lapic_register_def)
  then show ?thesis using window_hw [OF assms(1) window_vaddr(1) [OF L(2)]] window_vaddr(2) [OF L(2)] by simp
qed

lemma lapic_located:
  assumes "(x, w) \<in> set (lapic_setup d)"
  shows "\<exists>n. offsetof 8 lapic_regs_struct x = Some n \<and> (x, n) \<in> set lapic_hardware \<and> n < 1024"
proof -
  have "list_all (\<lambda>x. case offsetof 8 lapic_regs_struct x of None \<Rightarrow> False
      | Some n \<Rightarrow> (x, n) \<in> set lapic_hardware \<and> n < 1024) (map fst (lapic_setup 0))" by code_simp
  moreover have "map fst (lapic_setup 0) = map fst (lapic_setup d)" by (simp add: lapic_setup_def)
  moreover have "x \<in> set (map fst (lapic_setup d))" using assms by force
  ultimately show ?thesis by (auto simp: list_all_iff split: option.splits)
qed

subsection \<open>Entering the kernel\<close>

text \<open>
  \<open>init_enter_long\<close> of \<open>long.s\<close> finds its three arguments on the stack, as the 32-bit calling
  convention puts them there, and \<open>start\<close> passes what it gets in registers to \<open>init\<close>.
\<close>

definition enter64_code :: "instr list" where
  "enter64_code = [Load RAX RSP 4, Load RBX RSP 12, Load RCX RSP 20, Mov_imm RDX 0x3436646C6F666E75]"

definition start_code :: "ptr \<Rightarrow> instr list" where
  "start_code init_stack =
    [Mov_imm RSP (init_stack - 0x18), Store RSP 0x10 RBX, Store RSP 0x08 RCX, Store RSP 0x00 RDX,
     Load RDI RSP 0x00, Load RSI RSP 0x08, Load RDX RSP 0x10]"

definition enter_long :: "ptr \<Rightarrow> cpu \<Rightarrow> cpu" where
  "enter_long init_stack c =
     (let d = exec_all enter64_code c in exec_all (start_code init_stack) (d\<lparr>cpu_rip := gpr d RAX\<rparr>))"

lemma enter_long_arguments:
  assumes "words c (gpr c RSP + 4) = entry" "words c (gpr c RSP + 12) = memory_map"
    "words c (gpr c RSP + 20) = object_list"
  shows "cpu_rip (enter_long k c) = entry" "gpr (enter_long k c) RDI = 0x3436646C6F666E75"
    "gpr (enter_long k c) RSI = object_list" "gpr (enter_long k c) RDX = memory_map"
  using assms by (simp_all add: enter_long_def enter64_code_def start_code_def set_reg_def Let_def)

end
