(* ===== verification/Long_Mode.thy ===== *)
theory Long_Mode
  imports Processor
begin

text \<open>
  From the multiboot loader to the kernel: the header and the entry of \<open>unfold/boot.s\<close>, which
  calls \<open>init\<close> of \<open>unfold\<close> in 32-bit mode, and \<open>init_enter_long\<close> of \<open>unfold/long.s\<close>, which
  turns on paging and long mode, instruction by instruction.
\<close>

subsection \<open>The multiboot header\<close>

definition mboot_header :: "u32 list" where
  "mboot_header = [0x1BADB002, 0x00000003, 0xE4524FFB]"

text \<open>What a loader looks for: the magic number, and a checksum that makes the sum zero.\<close>

definition mboot_valid :: "u32 list \<Rightarrow> bool" where
  "mboot_valid h \<longleftrightarrow> length h = 3 \<and> h ! 0 = 0x1BADB002 \<and> sum_list h = 0"

text \<open>The flags ask for modules on page boundaries (bit 0) and for a memory map (bit 1).\<close>

lemma mboot_header_valid:
  "mboot_valid mboot_header" "bit (mboot_header ! 1) 0" "bit (mboot_header ! 1) 1"
  by (simp_all add: mboot_valid_def mboot_header_def)

subsection \<open>The processor in 32-bit mode\<close>

datatype reg32 = EAX | EBX | ECX | EDX | ESP | EBP

datatype sreg = DS | ES | FS | GS | SS

record cpu32 =
  r32 :: "reg32 \<Rightarrow> u32"
  eip :: u32
  cs32 :: u16
  sregs :: "sreg \<Rightarrow> u16"
  iflag :: bool
  cr0 :: u32
  cr3_32 :: u32
  cr4 :: u32
  msr64 :: "u32 \<Rightarrow> u64"
  gdtr :: "u16 \<times> u32"
  words32 :: "u32 \<Rightarrow> u32"

datatype instr32 =
    Cli32
  | Lgdt u16 u32            \<comment> \<open>limit and base, as assembled at the operand's address\<close>
  | Jmp_far u16 u32
  | Mov_imm32 reg32 u32
  | Mov_sreg sreg reg32
  | Store16 u32 u16
  | Push32 reg32
  | Or32 reg32 u32
  | Mov_from_cr0 reg32 | Mov_to_cr0 reg32
  | Mov_to_cr3 reg32
  | Mov_from_cr4 reg32 | Mov_to_cr4 reg32
  | Rdmsr | Wrmsr

definition set_r32 :: "reg32 \<Rightarrow> u32 \<Rightarrow> cpu32 \<Rightarrow> cpu32" where
  "set_r32 r w c = c\<lparr>r32 := (r32 c)(r := w)\<rparr>"

definition word_pair :: "u32 \<Rightarrow> u32 \<Rightarrow> u64" where
  "word_pair lo hi = ucast lo OR push_bit 32 (ucast hi)"

fun exec32 :: "instr32 \<Rightarrow> cpu32 \<Rightarrow> cpu32" where
  "exec32 Cli32 c = c\<lparr>iflag := False\<rparr>"
| "exec32 (Lgdt limit base) c = c\<lparr>gdtr := (limit, base)\<rparr>"
| "exec32 (Jmp_far sel a) c = c\<lparr>cs32 := sel, eip := a\<rparr>"
| "exec32 (Mov_imm32 r w) c = set_r32 r w c"
| "exec32 (Mov_sreg s r) c = c\<lparr>sregs := (sregs c)(s := ucast (r32 c r))\<rparr>"
| "exec32 (Store16 a w) c =
     c\<lparr>words32 := (words32 c)(a := (words32 c a AND 0xFFFF0000) OR ucast w)\<rparr>"
| "exec32 (Push32 r) c =
     (let a = r32 c ESP - 4 in (set_r32 ESP a c)\<lparr>words32 := (words32 c)(a := r32 c r)\<rparr>)"
| "exec32 (Or32 r w) c = set_r32 r (r32 c r OR w) c"
| "exec32 (Mov_from_cr0 r) c = set_r32 r (cr0 c) c"
| "exec32 (Mov_to_cr0 r) c = c\<lparr>cr0 := r32 c r\<rparr>"
| "exec32 (Mov_to_cr3 r) c = c\<lparr>cr3_32 := r32 c r\<rparr>"
| "exec32 (Mov_from_cr4 r) c = set_r32 r (cr4 c) c"
| "exec32 (Mov_to_cr4 r) c = c\<lparr>cr4 := r32 c r\<rparr>"
| "exec32 Rdmsr c = set_r32 EDX (ucast (drop_bit 32 (msr64 c (r32 c ECX))))
     (set_r32 EAX (ucast (msr64 c (r32 c ECX))) c)"
| "exec32 Wrmsr c = c\<lparr>msr64 := (msr64 c)(r32 c ECX := word_pair (r32 c EAX) (r32 c EDX))\<rparr>"

definition exec_all32 :: "instr32 list \<Rightarrow> cpu32 \<Rightarrow> cpu32" where
  "exec_all32 = fold exec32"

lemma exec_all32_simps [simp]:
  "exec_all32 [] c = c" "exec_all32 (i # is) c = exec_all32 is (exec32 i c)"
  by (simp_all add: exec_all32_def)

lemma word_pair_upd: "word_pair (ucast v OR w) (ucast (drop_bit 32 v)) = v OR ucast (w :: u32)"
  unfolding word_pair_def
  by (rule bit_word_eqI) (auto simp: bit_simps dest: bit_imp_le_length)

subsection \<open>\<open>boot.s\<close>\<close>

definition boot_gdt :: "u64 list" where
  "boot_gdt = [0, word_pair 0x0000FFFF 0x00CF9A00, word_pair 0x0000FFFF 0x00CF9200]"

definition boot_code :: "u32 \<Rightarrow> u32 \<Rightarrow> u32 \<Rightarrow> u32 \<Rightarrow> instr32 list" where
  "boot_code gdt_ptr gdt_base newcs stack_base =
    [Cli32, Mov_imm32 ECX gdt_ptr, Lgdt 0x0017 gdt_base, Jmp_far 0x08 newcs,
     Mov_imm32 ECX 0x10, Mov_sreg DS ECX, Mov_sreg ES ECX, Mov_sreg FS ECX, Mov_sreg GS ECX,
     Mov_sreg SS ECX, Mov_imm32 ESP (stack_base + 0x400), Mov_imm32 EBP (stack_base + 0x400),
     Store16 0xB8000 0x0F61, Push32 EAX, Push32 EBX]"

text \<open>
  \<open>init\<close> gets what the multiboot loader left in \<open>ebx\<close> and \<open>eax\<close> as its arguments, which it
  finds at the top of the stack before the call pushes the return address.
\<close>

lemma boot_arguments:
  assumes "d = exec_all32 (boot_code gdt_ptr gdt_base newcs stack_base) c"
  shows "words32 d (r32 d ESP) = r32 c EBX" "words32 d (r32 d ESP + 4) = r32 c EAX"
    "r32 d ESP = stack_base + 0x3F8" "\<not> iflag d" "cs32 d = 0x08" "sregs d s = 0x10" "gdtr d = (0x17, gdt_base)"
  unfolding assms boot_code_def by (simp_all add: set_r32_def Let_def) (cases s; simp)

text \<open>A segment of 4 GB from address 0.\<close>

definition desc_granular :: "u64 \<Rightarrow> bool" where "desc_granular d = bit d 55"
definition desc_default :: "u64 \<Rightarrow> bool" where "desc_default d = bit d 54"

definition flat_segment :: "u64 \<Rightarrow> bool" where
  "flat_segment d \<longleftrightarrow> desc_present d \<and> desc_dpl d = 0 \<and> desc_base d 0 = 0 \<and> desc_limit d = 0xFFFFF \<and>
     desc_granular d \<and> desc_default d \<and> \<not> desc_long d"

lemmas desc_defs = desc_present_def desc_dpl_def desc_type_def desc_base_def desc_limit_def desc_granular_def
  desc_default_def desc_long_def

lemma boot_segments:
  "flat_segment (selected boot_gdt 0x08)" "desc_type (selected boot_gdt 0x08) = 0x1A"
  "flat_segment (selected boot_gdt 0x10)" "desc_type (selected boot_gdt 0x10) = 0x12"
  "8 * length boot_gdt = 0x17 + 1"
  by (simp_all add: selected_def boot_gdt_def word_pair_def flat_segment_def desc_defs bit_numeral_rec)

subsection \<open>\<open>init_enter_long\<close>\<close>

definition CR4_PAE :: u32 where "CR4_PAE = push_bit 5 1"
definition CR0_PG :: u32 where "CR0_PG = push_bit 31 1"
definition EFER :: u32 where "EFER = 0xC0000080"
definition EFER_LME :: u32 where "EFER_LME = push_bit 8 1"

definition long_gdt :: "u64 list" where
  "long_gdt = [0, 0x0020980000000000, 0x0000900000000000]"

definition init_enter_long_code :: "u32 \<Rightarrow> u32 \<Rightarrow> u32 \<Rightarrow> instr32 list" where
  "init_enter_long_code pt4 gdt64 enter64 =
    [Mov_from_cr4 EAX, Or32 EAX CR4_PAE, Mov_to_cr4 EAX,
     Mov_imm32 ECX EFER, Rdmsr, Or32 EAX EFER_LME, Wrmsr,
     Mov_imm32 EAX pt4, Mov_to_cr3 EAX, Mov_from_cr0 EAX, Or32 EAX CR0_PG, Mov_to_cr0 EAX,
     Lgdt 0x17 gdt64, Jmp_far 0x08 enter64]"

text \<open>Long mode is active when it is enabled and paging with wide entries is on.\<close>

definition long_active :: "cpu32 \<Rightarrow> bool" where
  "long_active c \<longleftrightarrow> bit (msr64 c EFER) 8 \<and> bit (cr4 c) 5 \<and> bit (cr0 c) 31"

lemma enter_long_state:
  assumes "d = exec_all32 (init_enter_long_code pt4 gdt64 enter64) c"
  shows "cr3_32 d = pt4" "cr4 d = cr4 c OR CR4_PAE" "cr0 d = cr0 c OR CR0_PG"
    "msr64 d = (msr64 c)(EFER := msr64 c EFER OR ucast EFER_LME)" "gdtr d = (0x17, gdt64)"
    "cs32 d = 0x08" "eip d = enter64" "words32 d = words32 c" "r32 d ESP = r32 c ESP"
  unfolding assms init_enter_long_code_def
  by (simp_all add: set_r32_def word_pair_upd EFER_def)

lemma enter_long_active: "long_active (exec_all32 (init_enter_long_code pt4 gdt64 enter64) c)"
  unfolding long_active_def enter_long_state [OF refl]
  by (simp add: EFER_LME_def CR4_PAE_def CR0_PG_def bit_simps)

text \<open>The far jump loads a 64-bit code segment.\<close>

lemma long_segment:
  fixes d :: u64
  defines "d \<equiv> selected long_gdt 0x08"
  shows "desc_present d" "desc_long d" "\<not> desc_default d" "desc_dpl d = 0" "desc_type d = 0x18"
    "8 * length long_gdt = 0x17 + 1"
  unfolding d_def by (simp_all add: selected_def long_gdt_def desc_defs bit_numeral_rec)

text \<open>
  Before paging is on, addresses are physical; from the write of \<open>cr0\<close> on they are translated
  through \<open>pt4\<close>. The code, its stack and the tables lie below 1 GB, where nothing changes.
\<close>

definition fetched :: "(u64 \<Rightarrow> u64) \<Rightarrow> cpu32 \<Rightarrow> u32 \<Rightarrow> u64 option" where
  "fetched pm c a = (if bit (cr0 c) 31 then hw_walk pm (ucast a) 4 (ucast (cr3_32 c)) else Some (ucast a))"

lemma enter_long_identity:
  assumes "long_tables pm (ucast pt4)" "a < 0x40000000" "\<not> bit (cr0 c) 31"
    and "is = take n (init_enter_long_code pt4 gdt64 enter64)"
  shows "fetched pm (exec_all32 is c) a = Some (ucast a)"
proof -
  have a: "(ucast a :: u64) < 0x40000000"
    using assms(2) by (simp add: word_less_nat_alt unsigned_ucast_eq take_bit_nat_eq_self)
  have "bit (cr0 (exec_all32 is c)) 31 \<longrightarrow> cr3_32 (exec_all32 is c) = pt4"
  proof (cases "n < 12")
    case True
    then have "n \<in> {0, 1, 2, 3, 4, 5, 6, 7, 8, 9, 10, 11}" by simp presburger
    then have "cr0 (exec_all32 is c) = cr0 c"
      unfolding assms(4) init_enter_long_code_def by (auto simp: set_r32_def)
    then show ?thesis using assms(3) by simp
  next
    case False
    then have "n \<in> {12, 13} \<or> 14 \<le> n" by simp presburger
    then show ?thesis unfolding assms(4) init_enter_long_code_def by (auto simp: set_r32_def)
  qed
  then show ?thesis using long_identity [OF assms(1) a] by (auto simp: fetched_def)
qed

subsection \<open>Into the kernel\<close>

text \<open>
  The registers of 64-bit mode at \<open>enter64\<close>: those of 32-bit mode with upper halves of zero, and
  words of memory that are pairs of 32-bit words. What 32-bit mode does not have is taken from \<open>u\<close>.
\<close>

fun widened :: "reg \<Rightarrow> reg32 option" where
  "widened RAX = Some EAX" | "widened RBX = Some EBX" | "widened RCX = Some ECX"
| "widened RDX = Some EDX" | "widened RSP = Some ESP" | "widened RBP = Some EBP"
| "widened r = None"

definition stack_pair :: "cpu32 \<Rightarrow> u32 \<Rightarrow> u64" where
  "stack_pair c k = word_pair (words32 c (r32 c ESP + k)) (words32 c (r32 c ESP + k + 4))"

definition long_cpu :: "cpu \<Rightarrow> cpu32 \<Rightarrow> cpu" where
  "long_cpu u c = u\<lparr>cpu_rip := ucast (eip c), cpu_cs := ucast (cs32 c),
     gpr := (\<lambda>r. case widened r of None \<Rightarrow> gpr u r | Some q \<Rightarrow> ucast (r32 c q)),
     words := (\<lambda>a. word_pair (words32 c (ucast a)) (words32 c (ucast a + 4)))\<rparr>"

text \<open>The three 64-bit arguments on the stack, above the return address, reach \<open>init\<close> in registers.\<close>

lemma long_cpu_word: "words (long_cpu u c) (gpr (long_cpu u c) RSP + ucast k) = stack_pair c k"
proof -
  have "ucast (ucast (r32 c ESP) + ucast k :: u64) = r32 c ESP + k"
    by (simp add: word_unat_eq_iff unsigned_ucast_eq unat_word_ariths take_bit_eq_mod mod_simps mod_mod_cancel)
  then show ?thesis by (simp add: long_cpu_def stack_pair_def)
qed

lemma long_arguments:
  assumes "d = exec_all32 (init_enter_long_code pt4 gdt64 enter64) c"
  shows "cpu_rip (enter_long k (long_cpu u d)) = stack_pair c 4"
    "gpr (enter_long k (long_cpu u d)) RDI = 0x3436646C6F666E75"
    "gpr (enter_long k (long_cpu u d)) RSI = stack_pair c 20"
    "gpr (enter_long k (long_cpu u d)) RDX = stack_pair c 12"
proof -
  have s: "stack_pair d j = stack_pair c j" for j
    using enter_long_state(8,9) [OF assms] by (simp add: stack_pair_def)
  show "cpu_rip (enter_long k (long_cpu u d)) = stack_pair c 4"
    "gpr (enter_long k (long_cpu u d)) RDI = 0x3436646C6F666E75"
    "gpr (enter_long k (long_cpu u d)) RSI = stack_pair c 20"
    "gpr (enter_long k (long_cpu u d)) RDX = stack_pair c 12"
    using enter_long_arguments [of "long_cpu u d"] long_cpu_word [of u d 4] long_cpu_word [of u d 12]
      long_cpu_word [of u d 20] by (simp_all add: s)
qed

end
