(* ===== verification/Start_Up.thy ===== *)
theory Start_Up
  imports Boot_Paging Loader Config
begin

text \<open>
  The whole of \<open>init\<close>: the configuration is looked for among the objects that the boot loader
  hands over and parsed, the kernel's structures are set up (\<open>init_kernel\<close> of Boot), and the
  first program is loaded. What loading does to the state of the kernel is allocation of
  pages, mapping of frames and the first thread's registers, so it keeps every property that
  survives these (locale \<open>loader_property\<close>). The system starts in the state this leaves.
\<close>

subsection \<open>The configuration\<close>

text \<open>A string in memory, with its terminator.\<close>

partial_function (option) text_at :: "bytes \<Rightarrow> u64 \<Rightarrow> string option" where
  "text_at m a =
     (if m a = 0 then Some [NUL]
      else do {
        cs \<leftarrow> text_at m (a + 1);
        Some (char_of (unat (m a)) # cs)
      })"

definition wr_text :: "u64 \<Rightarrow> string \<Rightarrow> bytes \<Rightarrow> bytes" where
  "wr_text a cs m = fold (\<lambda>i m. m(a + of_nat i := byte_of (cs ! i))) [0..<length cs] m"

text \<open>Before the parser has run, the static variables are zero: there is no entry.\<close>

definition no_config :: config where
  "no_config = \<lparr>pconf = [], config_index = (\<lambda>i. no_item)\<rparr>"

text \<open>The parser works on the text where it lies, so its terminators end up in memory.\<close>

definition init_config :: "u64 \<Rightarrow> bytes \<Rightarrow> (config \<times> bytes) option" where
  "init_config objl m =
     (let i = obj_find m objl ''/boot/pconf'' 0 in
      if i < unat (obj_count m objl) then do {
        let a = obj_base m (obj_entry objl i);
        text \<leftarrow> text_at m a;
        cfg \<leftarrow> config_parse text (\<lambda>i. no_item);
        Some (cfg, wr_text a (pconf cfg) m)
      }
      else Some (no_config, m))"

definition init :: "(nat \<Rightarrow> u64) \<Rightarrow> (string \<Rightarrow> u64) \<Rightarrow> u64 \<Rightarrow> unfold_mmap \<Rightarrow> bytes \<Rightarrow> kernel \<Rightarrow> loader option" where
  "init handler entry object_list memory_map m s = do {
     (cfg, m) \<leftarrow> init_config object_list m;
     s \<leftarrow> init_kernel handler memory_map s;
     load_kernel entry cfg object_list \<lparr>lkern = s, lmem = m, pinion_load_addr = 0\<rparr>
   }"

subsection \<open>What loading keeps\<close>

lemma relocate_kern: "relocate entry b d r l = Some l' \<Longrightarrow> lkern l' = lkern l"
  by (auto simp: relocate_def api_resolve_def Let_def bind_eq_Some_conv split: if_splits)

lemma relocate_all_kern: "relocate_all entry b d i l = Some l' \<Longrightarrow> lkern l' = lkern l"
proof (induct rule: relocate_all.raw_induct [rotated, consumes 1])
  case (1 f entry b d i l l')
  show ?case
  proof (cases "i < dyn_jmprelsz d")
    case True
    then obtain u where "relocate entry b d (dyn_jmprel d + i) l = Some u"
      "f entry b d (i + dyn_relent d) u = Some l'" using 1(2) by (auto simp: bind_eq_Some_conv)
    then show ?thesis using 1(1) relocate_kern by metis
  qed (use 1(2) in simp)
qed

lemma fixup_kern: "fixup_kernel entry b dyn l = Some l' \<Longrightarrow> lkern l' = lkern l"
  by (auto simp: fixup_kernel_def Let_def bind_eq_Some_conv split: if_splits dest: relocate_all_kern)

locale loader_property =
  fixes I :: "kernel \<Rightarrow> bool"
  assumes table: "pge_alloc s = Some (p, t) \<Longrightarrow> I s \<Longrightarrow> I t"
    and unlock: "I s \<Longrightarrow> I (pcx_unlock s)"
    and frame: "pcx_set_frame 0 a z fr fl s = Some (e, t) \<Longrightarrow> I s \<Longrightarrow> I t"
    and registers: "I s \<Longrightarrow> I (upd_tcb (active s) (\<lambda>t. t\<lparr>tcb_rip := a, tcb_rsp := b\<rparr>) s)"
begin

lemma page:
  assumes "load_page v s = Some t" "I s"
  shows "I t"
proof -
  from assms(1) obtain p s1 fr s2 e where s: "pge_alloc s = Some (p, s1)"
    "pcx_get_trans 0 p s1 = Some (fr, s2)" "pcx_set_frame 0 v 0x1000 fr page_flags_rwg s2 = Some (e, t)"
    by (auto simp: load_page_def bind_eq_Some_conv)
  have "s2 = pcx_unlock s1" by (rule pcx_reads(1) [OF s(2)])
  then have "I s2" using unlock [OF table [OF s(1) assms(2)]] by simp
  then show ?thesis by (rule frame [OF s(3)])
qed

lemma pages: "load_pages v i n s = Some t \<Longrightarrow> I s \<longrightarrow> I t"
proof (induct rule: load_pages.raw_induct [rotated, consumes 1])
  case (1 f v i n s t)
  show ?case
  proof (cases "i < n")
    case True
    then obtain u where "load_page (v + i) s = Some u" "f v (i + 0x1000) n u = Some t"
      using 1(2) by (auto simp: bind_eq_Some_conv)
    then show ?thesis using 1(1) page by blast
  qed (use 1(2) in simp)
qed

lemma segment: "load_segment b img h l = Some l' \<Longrightarrow> I (lkern l) \<Longrightarrow> I (lkern l')"
  using pages by (auto simp: load_segment_def Let_def bind_eq_Some_conv split: if_splits)

lemma segments: "load_segments b img i dyn l = Some (d, l') \<Longrightarrow> I (lkern l) \<Longrightarrow> I (lkern l')"
proof (induction b img i dyn l rule: load_segments.induct)
  case (1 b img i dyn l)
  show ?case
  proof (cases "i < unat (e_phnum (read_ehdr (lmem l) img))")
    case False
    then show ?thesis using "1.prems" by (simp add: load_segments.simps [of b img i dyn l] Let_def)
  next
    case True
    let ?h = "img + e_phoff (read_ehdr (lmem l) img) + of_nat i * ucast (e_phentsize (read_ehdr (lmem l) img))"
    from "1.prems"(1) True obtain u where u: "load_segment b img ?h l = Some u"
      "load_segments b img (Suc i) (if p_type (read_phdr (lmem u) ?h) = PT_DYNAMIC
         then img + p_offset (read_phdr (lmem u) ?h) else dyn) u = Some (d, l')"
      by (auto simp: load_segments.simps [of b img i dyn l] Let_def bind_eq_Some_conv)
    have "I (lkern u)" by (rule segment [OF u(1) "1.prems"(2)])
    then show ?thesis using "1.IH" [OF refl True refl u(1) refl u(2)] by blast
  qed
qed

lemma program:
  assumes "load_kernel entry cfg objl l = Some l'" "I (lkern l)"
  shows "I (lkern l')"
proof -
  from assms(1) obtain b img dyn l1 l2 k a stack where s: "load_segments b img 0 0 l = Some (dyn, l1)"
    "fixup_kernel entry b dyn l1 = Some l2" "load_page (stack - 0x1000) (lkern l2) = Some k"
    "lkern l' = upd_tcb (active k) (\<lambda>t. t\<lparr>tcb_rip := a, tcb_rsp := stack\<rparr>) k"
    by (auto simp: load_kernel_def Let_def bind_eq_Some_conv split: if_splits)
  have "I (lkern l2)" using segments [OF s(1) assms(2)] fixup_kern [OF s(2)] by simp
  then have "I k" by (rule page [OF s(3)])
  then show ?thesis unfolding s(4) by (rule registers)
qed

end

interpretation window_loader: loader_property paging_inv
proof unfold_locales
  fix s t :: kernel and p assume "pge_alloc s = Some (p, t)" "paging_inv s"
  then show "paging_inv t" by (rule kernel_window.alloc_table)
next
  fix s :: kernel assume "paging_inv s"
  then show "paging_inv (pcx_unlock s)" by (rule kernel_window.view [rotated]) simp
next
  fix s t :: kernel and a z fr fl e assume "pcx_set_frame 0 a z fr fl s = Some (e, t)" "paging_inv s"
  then show "paging_inv t" by (rule kernel_window.frame)
next
  fix s :: kernel and a b assume "paging_inv s"
  then show "paging_inv (upd_tcb (active s) (\<lambda>t. t\<lparr>tcb_rip := a, tcb_rsp := b\<rparr>) s)"
    by (rule kernel_window.view [rotated]) simp
qed

subsection \<open>The first thread\<close>

definition first_thread :: "kernel \<Rightarrow> bool" where
  "first_thread s \<longleftrightarrow> (\<exists>F. kernel_inv [] F s) \<and> vtables_ok s \<and> active s \<noteq> 0 \<and> live s = {active s} \<and>
     st s (active s) = TCB_STATE_RUNNING \<and> tcb_id (tcbs s (active s)) = 1"

lemma first_thread_quiet:
  assumes "first_thread s" "quiet s t" "\<And>F. mem_inv F s \<Longrightarrow> mem_inv F t"
  shows "first_thread t"
proof -
  from assms(1) obtain F where F: "kernel_inv [] F s" by (auto simp: first_thread_def)
  have "kernel_inv [] F t" by (rule quiet_inv [OF F assms(2) assms(3) [OF kernel_invD(1) [OF F]]])
  moreover have q: "tcbs t = tcbs s" "the_ccb t = the_ccb s" "tcb_table t = tcb_table s"
    "interrupt_vector_page_table t = interrupt_vector_page_table s"
    using assms(2) by (simp_all add: quiet_def)
  moreover have "live t = live s" "vtables_ok t = vtables_ok s"
    using live_cong [of t s] q by (simp_all add: vtables_ok_def)
  ultimately show ?thesis using assms(1) by (auto simp: first_thread_def)
qed

interpretation thread_loader: loader_property first_thread
proof unfold_locales
  fix s t :: kernel and p assume a: "pge_alloc s = Some (p, t)" "first_thread s"
  then obtain F where "mem_inv F s" by (auto simp: first_thread_def dest: kernel_invD(1))
  with a pge_alloc_quiet show "first_thread t" by (blast intro: first_thread_quiet)
next
  fix s :: kernel assume "first_thread s"
  then show "first_thread (pcx_unlock s)"
    using mem_inv_view [OF _ pcx_unlock_quiet(2)] by (rule first_thread_quiet [OF _ pcx_unlock_quiet(1)])
next
  fix s t :: kernel and a z fr fl e assume a: "pcx_set_frame 0 a z fr fl s = Some (e, t)" "first_thread s"
  then obtain F where "mem_inv F s" by (auto simp: first_thread_def dest: kernel_invD(1))
  with a pcx_set_frame_inv show "first_thread t" by (blast intro: first_thread_quiet)
next
  fix s :: kernel and a b assume f: "first_thread s"
  let ?t = "upd_tcb (active s) (\<lambda>t. t\<lparr>tcb_rip := a, tcb_rsp := b\<rparr>) s"
  from f obtain F where "kernel_inv [] F s" by (auto simp: first_thread_def)
  then have "kernel_inv [] F ?t" by (rule kernel_inv_upd_tcb) simp_all
  moreover have "live ?t = live s" "vtables_ok ?t = vtables_ok s"
    using live_cong [of ?t s] by (simp_all add: vtables_ok_def)
  ultimately show "first_thread ?t" using f by (auto simp: first_thread_def)
qed

text \<open>Where the system starts: after initialisation, or when the first program has been loaded too.\<close>

definition started :: "(nat \<Rightarrow> u64) \<Rightarrow> unfold_mmap \<Rightarrow> kernel \<Rightarrow> kernel \<Rightarrow> bool" where
  "started handler mm s k \<longleftrightarrow> init_kernel handler mm s = Some k \<or>
     (\<exists>entry objl m l. init handler entry objl mm m s = Some l \<and> k = lkern l)"

lemma started_keeps:
  assumes "boot_state s" "boot_room mm s" "pmm_init mm s \<noteq> None" "started handler mm s k"
  shows "first_thread k" "paging_inv k"
proof -
  from init_spec [OF assms(1-3), of handler] obtain k0 where k0: "init_kernel handler mm s = Some k0"
    "first_thread k0" by (auto simp: first_thread_def)
  have p0: "paging_inv k0" by (rule init_paging [OF assms(1,2) k0(1)])
  from assms(4) k0(1) have "k = k0 \<or> (\<exists>entry cfg objl m l. load_kernel entry cfg objl
      \<lparr>lkern = k0, lmem = m, pinion_load_addr = 0\<rparr> = Some l \<and> k = lkern l)"
    by (auto simp: started_def init_def bind_eq_Some_conv) blast
  then show "first_thread k" "paging_inv k"
    using k0(2) p0 thread_loader.program window_loader.program by fastforce+
qed

subsection \<open>Reachable states\<close>

definition reached ::
  "(nat \<Rightarrow> u64) \<Rightarrow> unfold_mmap \<Rightarrow> kernel \<Rightarrow> event list \<Rightarrow> machine \<Rightarrow> bool" where
  "reached handler mm s es m \<longleftrightarrow> boot_state s \<and> boot_room mm s \<and> pmm_init mm s \<noteq> None \<and>
     (\<exists>k. started handler mm s k \<and> mrun \<lparr>kern = k, pending = None\<rparr> es m)"

lemma reached_inv:
  assumes "reached handler mm s es m"
  shows "machine_inv m"
proof -
  from assms obtain k where r: "boot_state s" "boot_room mm s" "pmm_init mm s \<noteq> None"
    "started handler mm s k" "mrun \<lparr>kern = k, pending = None\<rparr> es m" by (auto simp: reached_def)
  have "first_thread k" by (rule started_keeps(1) [OF r(1-4)])
  then have "machine_inv \<lparr>kern = k, pending = None\<rparr>"
    by (auto simp: machine_inv_def resumes_def kernel_ok_def first_thread_def)
  with mrun_inv [OF r(5)] show ?thesis by blast
qed

lemma reached_paging:
  assumes "reached handler mm s es m"
  shows "paging_inv (kern m)"
  using assms kernel_window.run started_keeps(2) by (fastforce simp: reached_def)

text \<open>How the first thread starts.\<close>

lemma init_first_registers:
  assumes "init handler entry objl mm m s = Some l"
  obtains cfg img b stack where "config_read_as_ptr ''loader'' ''base'' 0xFFFFFFFF00000000 cfg = Some b"
    "config_read_as_ptr ''loader'' ''stack'' 0xFFFFFFFF80000000 cfg = Some stack"
    "tcb_rip (tcbs (lkern l) (active (lkern l))) = b + e_entry (read_ehdr (lmem l) img)"
    "tcb_rsp (tcbs (lkern l) (active (lkern l))) = stack"
  using assms that
  by (fastforce simp: init_def load_kernel_def Let_def bind_eq_Some_conv split: if_splits)

end
