(* ===== verification/Memory_Maps.thy ===== *)
theory Memory_Maps
  imports Start_Up Pmm_Map
begin

text \<open>
  What threads are told of physical memory. The maps that \<open>pmm_init\<close> makes are never written
  again, neither by the rest of \<open>init\<close> nor by any call, interrupt or fault, so the answers of
  \<open>memory_map_read\<close> follow from the map of the boot loader.
\<close>

subsection \<open>The maps are constant\<close>

definition mem_maps where
  "mem_maps s = (pmm_map_cutoff s, pmm_map_low s, pmm_map_high s)"

lemma mem_maps_upd [simp]:
  "mem_maps (s\<lparr>mem := m\<rparr>) = mem_maps s" "mem_maps (s\<lparr>pcx_root := p\<rparr>) = mem_maps s"
  "mem_maps (s\<lparr>idt := p\<rparr>) = mem_maps s" "mem_maps (s\<lparr>cr3 := p\<rparr>) = mem_maps s"
  "mem_maps (s\<lparr>the_ccb := c\<rparr>) = mem_maps s" "mem_maps (pcx_unlock s) = mem_maps s"
  "mem_maps (upd_tcb p f s) = mem_maps s"
  by (simp_all add: mem_maps_def pcx_unlock_def upd_tcb_def)

lemma maps_pmm_alloc: "pmm_alloc s = Some (p, t) \<Longrightarrow> mem_maps t = mem_maps s"
  by (auto simp: pmm_alloc_def mem_maps_def Let_def bind_eq_Some_conv split: if_splits)

lemma maps_pge_alloc:
  assumes "pge_alloc s = Some (p, t)"
  shows "mem_maps t = mem_maps s"
  by (rule pge_alloc_view [OF assms maps_pmm_alloc]) (simp_all add: mem_maps_def)

lemma maps_set_frame_loop: "set_frame_loop addr i pt s = Some (r, t) \<Longrightarrow> mem_maps t = mem_maps s"
proof (induction addr i pt s arbitrary: r t rule: set_frame_loop.induct)
  case (1 addr i pt s)
  show ?case
  proof (cases "i \<le> 1")
    case True
    with "1.prems" set_frame_loop.simps [of addr i pt s] show ?thesis by simp
  next
    case False
    let ?a = "pte_addr i addr pt"
    from "1.prems"(1) False obtain s1 where s1:
      "(if mem s ?a AND PF_PRES = 0 then do {
          (newpt, s) \<leftarrow> pge_alloc s;
          let s = s\<lparr>mem := (mem s)(?a := (newpt - page_base) OR PF_VALID OR PF_PRES OR PF_WRITE OR PF_USER)\<rparr>;
          _ \<leftarrow> deref newpt;
          Some (s\<lparr>mem := clear_page newpt (mem s)\<rparr>)
        } else Some s) = Some s1"
      and rest: "(if mem s1 ?a AND PF_LARGE \<noteq> 0 then Some (None, pcx_unlock s1)
        else set_frame_loop addr (i - 1) (next_table (mem s1 ?a)) s1) = Some (r, t)"
      unfolding set_frame_loop.simps [of addr i pt s] by (auto simp: Let_def bind_eq_Some_conv)
    have "mem_maps s1 = mem_maps s"
      using s1 by (auto simp: Let_def bind_eq_Some_conv dest: maps_pge_alloc split: if_splits)
    moreover have "mem_maps t = mem_maps s1"
      using "1.IH" [OF False refl s1] rest by (cases "mem s1 ?a AND PF_LARGE \<noteq> 0") auto
    ultimately show ?thesis by simp
  qed
qed

lemma maps_set_frame:
  "pcx_set_frame pcx addr z fr flags s = Some (e, t) \<Longrightarrow> mem_maps t = mem_maps s"
  by (auto simp: pcx_set_frame_def bind_eq_Some_conv dest!: maps_set_frame_loop split: if_splits option.splits)

interpretation maps_fixed: paging_property "\<lambda>s. mem_maps s = M" for M
proof unfold_locales
  fix s t :: kernel assume "pg_view t = pg_view s" "mem_maps s = M"
  then show "mem_maps t = M" by (simp add: pg_view_def mem_maps_def)
qed (simp_all add: maps_pmm_alloc maps_pge_alloc maps_set_frame)

interpretation maps_loader: loader_property "\<lambda>s. mem_maps s = M" for M
  by unfold_locales (simp_all add: maps_pge_alloc maps_set_frame)

subsection \<open>Initialisation\<close>

lemma maps_upper: "pcx_init_upper is s = Some t \<Longrightarrow> mem_maps t = mem_maps s"
proof (induction "is" arbitrary: s)
  case (Cons i "is")
  then show ?case by (fastforce simp: Let_def bind_eq_Some_conv dest: maps_pge_alloc)
qed simp

lemma maps_pcx_init:
  assumes "pcx_init s = Some t"
  shows "mem_maps t = mem_maps s"
proof (rule pcx_init_steps [OF assms])
  fix root s1 s2 p s3 m
  assume a: "pge_alloc s = Some (root, s1)"
    "pcx_init_upper [256..<512] (s1\<lparr>pcx_root := root, mem := clear_page root (mem s1)\<rparr>) = Some s2"
    "pge_alloc s2 = Some (p, s3)" "t = pcx_switch (pcx_root s3) (s3\<lparr>mem := m\<rparr>)"
  have "mem_maps t = mem_maps s3" by (simp add: a(4) pcx_switch_def)
  then show ?thesis using maps_pge_alloc [OF a(1)] maps_upper [OF a(2)] maps_pge_alloc [OF a(3)] by simp
qed

lemma maps_idt_fold: "mem_maps (fold (\<lambda>v. idt_set_vector ty (h v) v) vs s) = mem_maps s"
proof (induction vs arbitrary: s)
  case (Cons v vs)
  have "mem_maps (idt_set_vector ty (h v) v s) = mem_maps s" by (simp add: idt_set_vector_def Let_def)
  then show ?case by (simp add: Cons.IH)
qed simp

lemma maps_idt_init:
  assumes "idt_init handler s = Some t"
  shows "mem_maps t = mem_maps s"
proof -
  from assms obtain p u where u: "pge_alloc s = Some (p, u)"
    by (cases "pge_alloc s") (auto simp: idt_init_def simp del: upt_rec_numeral)
  have "mem_maps t = mem_maps (u\<lparr>idt := p\<rparr>)"
    using assms u maps_idt_fold [where vs = "[255]"]
    by (cases "p = 0") (auto simp: idt_init_def idt_set_trap_vector_def idt_set_irq_vector_def maps_idt_fold
        simp del: upt_rec_numeral)
  then show ?thesis using maps_pge_alloc [OF u] by simp
qed

lemma maps_ccb_new: "ccb_new s = Some t \<Longrightarrow> mem_maps t = mem_maps s"
  by (auto simp: ccb_new_def ccb_alloc_def allocator_alloc_def ccb_allocator_def allocator_pop_def
      allocator_release_def mem_maps_def Let_def bind_eq_Some_conv split: if_splits
      dest!: maps_pmm_alloc [unfolded mem_maps_def])

lemma maps_vector_page: "interrupt_add_vector_page vec vt s = Some t \<Longrightarrow> mem_maps t = mem_maps s"
  by (auto simp: interrupt_add_vector_page_def Let_def bind_eq_Some_conv mem_maps_def split: if_splits
      dest!: maps_pge_alloc [unfolded mem_maps_def])

lemma init_maps:
  assumes "init_kernel handler mm s = Some t" "pmm_init mm s = Some u"
  shows "mem_maps t = mem_maps u"
proof -
  from assms obtain s2 s3 s4 s5 s6 p s7 s8 where c: "pcx_init u = Some s2" "idt_init handler s2 = Some s3"
    "ccb_new s3 = Some s4" "interrupt_add_vector_page 0x0080 pinion_vector_page_vtable s4 = Some s5"
    "interrupt_add_vector_page 0x0100 irq_vector_page_vtable s5 = Some s6"
    "tcb_new s6 = Some (p, s7)" "scheduler_add_tcb p s7 = Some s8" "scheduler_schedule s8 = Some t"
    by (auto simp: init_kernel_def bind_eq_Some_conv)
  have "pg_view t = pg_view s7" using pg_scheduler(2) [OF c(7)] pg_schedule [OF c(8)] by simp
  then have "mem_maps t = mem_maps s7" by (rule maps_fixed.view) simp
  moreover have "mem_maps s7 = mem_maps s6" by (rule maps_fixed.tcb_new [OF c(6)]) simp
  ultimately show ?thesis
    using maps_pcx_init [OF c(1)] maps_idt_init [OF c(2)] maps_ccb_new [OF c(3)]
      maps_vector_page [OF c(4)] maps_vector_page [OF c(5)] by simp
qed

lemma started_maps:
  assumes "started handler mm s k" "pmm_init mm s = Some u"
  shows "mem_maps k = mem_maps u"
proof -
  from assms(1) show ?thesis unfolding started_def
  proof
    assume "init_kernel handler mm s = Some k"
    then show ?thesis using init_maps assms(2) by blast
  next
    assume "\<exists>entry objl m l. init handler entry objl mm m s = Some l \<and> k = lkern l"
    then obtain entry cfg objl m k0 l where l: "init_kernel handler mm s = Some k0"
      "load_kernel entry cfg objl \<lparr>lkern = k0, lmem = m, pinion_load_addr = 0\<rparr> = Some l" "k = lkern l"
      by (auto simp: init_def bind_eq_Some_conv)
    have "mem_maps k0 = mem_maps u" by (rule init_maps [OF l(1) assms(2)])
    then show ?thesis using maps_loader.program [OF l(2)] l(3) by simp
  qed
qed

lemma reached_maps:
  assumes "reached handler mm s es m" "pmm_init mm s = Some u"
  shows "mem_maps (kern m) = mem_maps u"
proof -
  from assms(1) obtain k where k: "started handler mm s k" "mrun \<lparr>kern = k, pending = None\<rparr> es m"
    by (auto simp: reached_def)
  have "mem_maps k = mem_maps u" by (rule started_maps [OF k(1) assms(2)])
  then show ?thesis using maps_fixed.run [OF k(2)] by simp
qed

subsection \<open>What \<open>memory_map_read\<close> tells\<close>

text \<open>The physical addresses of the regions that the call returns for the indices of the map.\<close>

definition told :: "kernel \<Rightarrow> nat set" where
  "told s = {a. \<exists>i < unat (map_count (pmm_map_high s)). \<exists>r.
     apilogic_memory_map_read (of_nat i) s = Some r \<and> unat (region_base r) \<le> a \<and> a < unat (region_limit r)}"

lemma region_read:
  assumes "i < 8" "i \<le> unat (map_count (pmm_map_high s))"
  shows "apilogic_memory_map_read (of_nat i) s =
    (let e = map_entry (pmm_map_high s) i in
     Some \<lparr>region_base = entry_base e, region_limit = entry_size e + entry_base e\<rparr>)"
proof -
  have "unat (of_nat i :: u32) = i" using assms(1) by (simp add: unat_of_nat)
  then have u: "unat (ucast (of_nat i :: u32) :: u64) = i"
    using assms(1) by (simp only: unsigned_ucast_eq) (simp add: take_bit_nat_eq_self)
  then have "\<not> map_count (pmm_map_high s) < ucast (of_nat i :: u32)"
    using assms(2) by (simp add: word_less_nat_alt)
  then show ?thesis
    using u assms(1) by (simp add: apilogic_memory_map_read_def pmm_get_high_memory_map_def in_bounds_def Let_def)
qed

lemma high_from_facts:
  assumes "cut_at mm c k" "high_from mm k s t"
  shows "unat (map_count (pmm_map_high t)) \<le> 8" "0 < unat (map_count (pmm_map_high t))"
    "\<And>i. i < unat (map_count (pmm_map_high t)) \<Longrightarrow>
      unat (entry_size (map_entry (pmm_map_high t) i) + entry_base (map_entry (pmm_map_high t) i)) = mm_end mm (i + k) \<and>
      unat (entry_base (map_entry (pmm_map_high t) i)) + unat (entry_size (map_entry (pmm_map_high t) i)) = mm_end mm (i + k)"
proof -
  show "unat (map_count (pmm_map_high t)) \<le> 8" "0 < unat (map_count (pmm_map_high t))"
    using assms by (auto simp: cut_at_def high_from_def)
  fix i assume i: "i < unat (map_count (pmm_map_high t))"
  then have e: "unat (entry_base (map_entry (pmm_map_high t) i)) + unat (entry_size (map_entry (pmm_map_high t) i)) =
      mm_end mm (i + k)" using assms(2) by (simp add: high_from_def Let_def)
  have "mm_end mm (i + k) < 2 ^ 64"
    using i assms by (auto simp: cut_at_def mm_sorted_def high_from_def)
  then show "unat (entry_size (map_entry (pmm_map_high t) i) + entry_base (map_entry (pmm_map_high t) i)) = mm_end mm (i + k) \<and>
      unat (entry_base (map_entry (pmm_map_high t) i)) + unat (entry_size (map_entry (pmm_map_high t) i)) = mm_end mm (i + k)"
    using e by (simp only: unat_word_ariths add.commute [of "unat (entry_size _)"]) simp
qed

lemma told_high:
  assumes "cut_at mm c k" "high_from mm k s t"
  shows "a \<in> told t \<longleftrightarrow> in_map (unat (map_count (pmm_map_high t))) (map_entry (pmm_map_high t)) a"
proof -
  note F = high_from_facts [OF assms]
  have "(\<exists>r. apilogic_memory_map_read (of_nat i) t = Some r \<and> unat (region_base r) \<le> a \<and> a < unat (region_limit r)) \<longleftrightarrow>
      unat (entry_base (map_entry (pmm_map_high t) i)) \<le> a \<and>
      a < unat (entry_base (map_entry (pmm_map_high t) i)) + unat (entry_size (map_entry (pmm_map_high t) i))"
    if i: "i < unat (map_count (pmm_map_high t))" for i
    using region_read [of i t] F(1) F(3) [OF i] i by (simp add: Let_def)
  then show ?thesis by (auto simp: told_def in_map_def)
qed

lemma mem_maps_cong:
  assumes "mem_maps t = mem_maps u"
  shows "map_split mm t = map_split mm u" "high_from mm k s t = high_from mm k s u"
    "pmm_map_cutoff t = pmm_map_cutoff u"
  using assms by (simp_all add: mem_maps_def map_split_def high_from_def)

lemma reached_split:
  assumes "reached handler mm s es m" "cut_at mm (unat (pmm_cutoff (mmap_total mm))) k"
  shows "map_split mm (kern m)" "high_from mm k s (kern m)" "pmm_map_cutoff (kern m) = pmm_cutoff (mmap_total mm)"
proof -
  from pmm_init_maps [OF assms(2), of s] obtain u where u: "pmm_init mm s = Some u" "map_split mm u"
    "high_from mm k s u" "pmm_map_cutoff u = pmm_cutoff (mmap_total mm)" by blast
  note C = mem_maps_cong [OF reached_maps [OF assms(1) u(1)]]
  show "map_split mm (kern m)" "high_from mm k s (kern m)" "pmm_map_cutoff (kern m) = pmm_cutoff (mmap_total mm)"
    using u(2-4) C by simp_all
qed

lemma reached_told:
  assumes "reached handler mm s es m" "cut_at mm (unat (pmm_cutoff (mmap_total mm))) k"
  shows "told (kern m) = {a. unat (pmm_cutoff (mmap_total mm)) \<le> a \<and> in_map (mm_count mm) (mmap_entry mm) a}"
  using reached_split [OF assms] told_high [OF assms(2)] by (auto simp: map_split_def Let_def)

end
