(* ===== verification/Tester.thy ===== *)
theory Tester
  imports Memory_Maps Log_Specs
begin

text \<open>
  The test program \<open>tester/main.c\<close>: it asks the kernel for the regions of the memory map one
  after the other, prints each on the serial line, and idles after the first empty one. Its
  \<open>outb\<close> and \<open>inb\<close> are those of the log. A call changes nothing, and no other thread can
  change the map (Memory_Maps), so the loop runs on one state of the kernel.
\<close>

subsection \<open>The program\<close>

definition putchar :: "char \<Rightarrow> serial \<Rightarrow> serial option" where
  "putchar c d = do {
     xs \<leftarrow> serial_wait (line_status d);
     let d = d\<lparr>line_status := xs\<rparr>;
     let d = (if c = NL then outb 0x3F8 0x0D d else d);
     Some (outb 0x3F8 (of_char c) d)
   }"

fun puts :: "string \<Rightarrow> serial \<Rightarrow> serial option" where
  "puts [] d = Some d"
| "puts (c # cs) d = do { d \<leftarrow> putchar c d; puts cs d }"

fun putx_from :: "nat \<Rightarrow> u64 \<Rightarrow> serial \<Rightarrow> serial option" where
  "putx_from 0 x d = Some d"
| "putx_from (Suc i) x d = do {
     d \<leftarrow> putchar (digit ! unat (drop_bit (i * 8 + 4) x AND 0xF)) d;
     d \<leftarrow> putchar (digit ! unat (drop_bit (i * 8 + 0) x AND 0xF)) d;
     putx_from i x d
   }"

definition putx :: "u64 \<Rightarrow> serial \<Rightarrow> serial option" where
  "putx x d = putx_from 8 x d"

partial_function (option) tester_loop :: "u32 \<Rightarrow> kernel \<Rightarrow> serial \<Rightarrow> serial option" where
  "tester_loop i s d = do {
     region \<leftarrow> apilogic_memory_map_read i s;
     d \<leftarrow> putx (region_base region) d;
     d \<leftarrow> puts '' '' d;
     d \<leftarrow> putx (region_limit region) d;
     d \<leftarrow> puts [NL] d;
     if region_base region = 0 \<and> region_limit region = 0 then Some d else tester_loop (i + 1) s d
   }"

text \<open>The device when \<open>main\<close> gets to its last loop, which never ends.\<close>

definition tester_main :: "kernel \<Rightarrow> serial \<Rightarrow> serial option" where
  "tester_main s d = tester_loop 0 s d"

subsection \<open>What it prints\<close>

lemma putchar_send: "putchar = serial_send"
  by (intro ext) (simp add: putchar_def serial_send_def)

lemma puts_append: "puts (xs @ ys) d = do { d \<leftarrow> puts xs d; puts ys d }"
  by (induction xs arbitrary: d) (auto split: Option.bind_splits)

lemma puts_sends:
  assumes "length t \<le> sends_left d"
  shows "\<exists>d'. puts t d = Some d' \<and> port_writes d' = port_writes d @ concat (map wire t) \<and>
    sends_left d = sends_left d' + length t"
  using assms
proof (induction t arbitrary: d)
  case (Cons c t)
  then obtain e where e: "serial_send c d = Some e" using serial_send_ready(1) [of c d] by fastforce
  note r = serial_send_ready(2) [OF e]
  then obtain d' where "puts t e = Some d'" "port_writes d' = port_writes e @ concat (map wire t)"
    "sends_left e = sends_left d' + length t" using Cons.IH [of e] Cons.prems by auto
  then show ?case using e r by (simp add: putchar_send)
qed simp

text \<open>Two digits per byte from the top give the number as the log prints it.\<close>

lemma putx_puts: "putx_from n x = puts (map (\<lambda>i. digit ! unat (drop_bit (4 * i) x AND 0xF)) (rev [0..<2 * n]))"
proof (induction n)
  case (Suc n)
  have "[0..<2 * Suc n] = [0..<2 * n] @ [2 * n, 2 * n + 1]" by simp
  moreover have "puts (c # cs) = (\<lambda>d. do { d \<leftarrow> putchar c d; puts cs d })" for c cs by (intro ext) simp
  ultimately show ?case by (intro ext) (simp add: Suc.IH algebra_simps del: upt_Suc puts.simps)
qed (intro ext, simp)

lemma putx_text: "putx x = puts (logputp x)"
proof -
  have "map (\<lambda>i. digit ! unat (drop_bit (4 * i) x AND 0xF)) (rev [0..<2 * 8]) = logputp x"
    by (simp add: logputp_def upt_rec)
  then show ?thesis by (intro ext) (simp only: putx_def putx_puts)
qed

definition region_line :: "memory_map_region \<Rightarrow> string" where
  "region_line r = logputp (region_base r) @ '' '' @ logputp (region_limit r) @ [NL]"

lemma region_line_length: "length (region_line r) = 34"
  by (simp add: region_line_def logputp_def)

lemma tester_loop_line:
  "tester_loop i s d = do {
     r \<leftarrow> apilogic_memory_map_read i s;
     d \<leftarrow> puts (region_line r) d;
     if region_base r = 0 \<and> region_limit r = 0 then Some d else tester_loop (i + 1) s d
   }"
  unfolding tester_loop.simps [of i s d] region_line_def puts_append putx_text by (simp add: bind_assoc)

text \<open>The program gets to its end when there is an empty region and the line takes all the text.\<close>

definition empty_region :: "memory_map_region \<Rightarrow> bool" where
  "empty_region r \<longleftrightarrow> region_base r = 0 \<and> region_limit r = 0"

lemma tester_loop_prints:
  assumes "\<And>j. i \<le> j \<Longrightarrow> j \<le> n \<Longrightarrow> apilogic_memory_map_read (of_nat j) s = Some (r j)" "i \<le> n"
    and "\<And>j. i \<le> j \<Longrightarrow> j < n \<Longrightarrow> \<not> empty_region (r j)" "empty_region (r n)"
    and "34 * (Suc n - i) \<le> sends_left d"
  shows "\<exists>d'. tester_loop (of_nat i) s d = Some d' \<and>
    port_writes d' = port_writes d @ concat (map wire (concat (map (region_line \<circ> r) [i..<Suc n])))"
  using assms
proof (induction "n - i" arbitrary: i d)
  case 0
  then have "i = n" by simp
  moreover obtain d' where "puts (region_line (r n)) d = Some d'"
    "port_writes d' = port_writes d @ concat (map wire (region_line (r n)))"
    using puts_sends [of "region_line (r n)" d] 0(6) \<open>i = n\<close> by (auto simp: region_line_length)
  ultimately show ?case
    using 0(2) [of n] 0(5) by (simp add: tester_loop_line [of "of_nat n"] empty_region_def)
next
  case (Suc k)
  then have i: "i < n" by simp
  have "Suc 0 \<le> Suc n - i" using i by simp
  then have line: "length (region_line (r i)) \<le> sends_left d" using Suc.prems(5) by (simp add: region_line_length)
  obtain e where e: "puts (region_line (r i)) d = Some e"
    "port_writes e = port_writes d @ concat (map wire (region_line (r i)))" "sends_left d = sends_left e + 34"
    using puts_sends [OF line] by (auto simp: region_line_length)
  have "\<exists>d'. tester_loop (of_nat (Suc i)) s e = Some d' \<and>
      port_writes d' = port_writes e @ concat (map wire (concat (map (region_line \<circ> r) [Suc i..<Suc n])))"
    using Suc.prems e(3) i Suc.hyps(2) by (intro Suc.hyps(1)) auto
  moreover have "[i..<Suc n] = i # [Suc i..<Suc n]" using i by (simp add: upt_conv_Cons)
  ultimately show ?case
    using Suc.prems(1) [of i] Suc.prems(3) [of i] i e(1,2)
    by (auto simp: tester_loop_line [of "of_nat i"] empty_region_def add.commute simp del: upt_Suc)
qed

subsection \<open>On the running kernel\<close>

lemma tester_reached:
  assumes "reached handler mm s es m" "cut_at mm (unat (pmm_cutoff (mmap_total mm))) k" "pmm_map_high s = no_map"
    and "mm_count mm < k + 8" "\<forall>i < mm_count mm. 0 < mm_end mm i" "34 * 9 \<le> sends_left d"
  shows "\<exists>d' rs. tester_main (kern m) d = Some d' \<and>
    port_writes d' = port_writes d @ concat (map wire (concat (map region_line rs))) \<and>
    {a. \<exists>r \<in> set rs. unat (region_base r) \<le> a \<and> a < unat (region_limit r)} =
      {a. unat (pmm_cutoff (mmap_total mm)) \<le> a \<and> in_map (mm_count mm) (mmap_entry mm) a}"
proof -
  let ?n = "unat (map_count (pmm_map_high (kern m)))" and ?e = "map_entry (pmm_map_high (kern m))"
  let ?r = "\<lambda>i. \<lparr>region_base = entry_base (?e i), region_limit = entry_size (?e i) + entry_base (?e i)\<rparr>"
  note S = reached_split [OF assms(1,2)] and F = high_from_facts [OF assms(2) reached_split(2) [OF assms(1,2)]]
  have n: "?n = mm_count mm - k" "?n < 8" using S(2) F(2) assms(4) by (simp_all add: high_from_def)
  have read: "apilogic_memory_map_read (of_nat j) (kern m) = Some (?r j)" if "j \<le> ?n" for j
    using region_read [of j "kern m"] that n(2) by (simp add: Let_def)
  have nonempty: "\<not> empty_region (?r j)" if j: "j < ?n" for j
  proof -
    have "0 < mm_end mm (j + k)" using assms(5) j n(1) by simp
    then have "unat (entry_size (?e j) + entry_base (?e j)) \<noteq> 0" using F(3) [OF j] by simp
    then show ?thesis by (auto simp: empty_region_def)
  qed
  have "?e ?n = \<lparr>entry_base = 0, entry_size = 0\<rparr>"
    using S(2) assms(3) n(1) by (simp add: high_from_def no_map_def)
  then have last: "?r ?n = \<lparr>region_base = 0, region_limit = 0\<rparr>" "empty_region (?r ?n)"
    by (simp_all add: empty_region_def)
  from tester_loop_prints [of 0 ?n "kern m" ?r d] read nonempty last(2) n(2) assms(6) obtain d' where
    d': "tester_loop 0 (kern m) d = Some d'"
    "port_writes d' = port_writes d @ concat (map wire (concat (map (region_line \<circ> ?r) [0..<Suc ?n])))"
    by fastforce
  have "{a. \<exists>r \<in> set (map ?r [0..<Suc ?n]). unat (region_base r) \<le> a \<and> a < unat (region_limit r)} = told (kern m)"
    (is "?A = _")
  proof -
    have "a \<in> ?A \<longleftrightarrow> (\<exists>i < ?n. unat (region_base (?r i)) \<le> a \<and> a < unat (region_limit (?r i)))" for a
      using last(1) by (auto simp: less_Suc_eq)
    moreover have "a \<in> told (kern m) \<longleftrightarrow> (\<exists>i < ?n. unat (region_base (?r i)) \<le> a \<and> a < unat (region_limit (?r i)))" for a
      unfolding told_def mem_Collect_eq
      by (rule ex_cong1, rule conj_cong [OF refl]) (simp only: read [OF less_imp_le] option.inject ex_simps simp_thms)
    ultimately show ?thesis by blast
  qed
  with reached_told [OF assms(1,2)] d' show ?thesis
    by (intro exI [of _ d'] exI [of _ "map ?r [0..<Suc ?n]"]) (simp add: tester_main_def)
qed

end
