(* ===== verification/Devices.thy ===== *)
theory Devices
  imports Entry_Code Log_Specs
begin

text \<open>
  The device instructions and the screen: \<open>port.s\<close> of the kernel and the tester (arguments in
  registers) and of the boot loader (arguments on the stack), instruction by instruction, and
  the VGA device of both copies of \<open>log.c\<close>, which \<open>log.h\<close> leaves switched off.
\<close>

subsection \<open>Ports\<close>

text \<open>
  Accesses to the ports with their width in bits, in order; \<open>port_in\<close> is what the next read
  of a port returns. Only the low bits of a register are written by a narrow access, and an
  access of 32 bits clears the upper half.
\<close>

record io =
  io_gpr :: "reg \<Rightarrow> u64"
  io_stack :: "u64 \<Rightarrow> u64"       \<comment> \<open>words at offsets from the stack pointer\<close>
  port_in :: "u16 \<Rightarrow> u64"
  port_out :: "(u16 \<times> nat \<times> u64) list"

datatype io_instr =
    Mov_part nat reg reg | Load_part nat reg u64 | Clear reg | Out nat | In nat

definition set_part :: "nat \<Rightarrow> u64 \<Rightarrow> u64 \<Rightarrow> u64" where
  "set_part n w v = (if n = 32 then take_bit 32 w else (v AND NOT (mask n)) OR take_bit n w)"

definition io_set :: "reg \<Rightarrow> u64 \<Rightarrow> io \<Rightarrow> io" where
  "io_set r w c = c\<lparr>io_gpr := (io_gpr c)(r := w)\<rparr>"

fun io_exec :: "io_instr \<Rightarrow> io \<Rightarrow> io" where
  "io_exec (Mov_part n r q) c = io_set r (set_part n (io_gpr c q) (io_gpr c r)) c"
| "io_exec (Load_part n r k) c = io_set r (set_part n (io_stack c k) (io_gpr c r)) c"
| "io_exec (Clear r) c = io_set r 0 c"
| "io_exec (Out n) c =
     c\<lparr>port_out := port_out c @ [(ucast (io_gpr c RDX), n, take_bit n (io_gpr c RAX))]\<rparr>"
| "io_exec (In n) c = io_set RAX (set_part n (port_in c (ucast (io_gpr c RDX))) (io_gpr c RAX)) c"

definition io_run :: "io_instr list \<Rightarrow> io \<Rightarrow> io" where
  "io_run = fold io_exec"

text \<open>The kernel's routines.\<close>

definition outb_code :: "io_instr list" where
  "outb_code = [Mov_part 16 RAX RSI, Mov_part 16 RDX RDI, Out 8]"
definition outw_code :: "io_instr list" where
  "outw_code = [Mov_part 16 RAX RSI, Mov_part 16 RDX RDI, Out 16]"
definition outd_code :: "io_instr list" where
  "outd_code = [Mov_part 32 RAX RSI, Mov_part 16 RDX RDI, Out 32]"
definition inb_code :: "io_instr list" where
  "inb_code = [Mov_part 16 RDX RDI, Clear RAX, In 8]"
definition inw_code :: "io_instr list" where
  "inw_code = [Mov_part 16 RDX RDI, Clear RAX, In 16]"
definition ind_code :: "io_instr list" where
  "ind_code = [Mov_part 16 RDX RDI, Clear RAX, In 32]"

text \<open>Those of the boot loader.\<close>

definition unfold_outb_code :: "io_instr list" where
  "unfold_outb_code = [Load_part 16 RDX 4, Load_part 8 RAX 8, Out 8]"
definition unfold_outw_code :: "io_instr list" where
  "unfold_outw_code = [Load_part 16 RDX 4, Load_part 16 RAX 8, Out 16]"
definition unfold_outd_code :: "io_instr list" where
  "unfold_outd_code = [Load_part 16 RDX 4, Load_part 32 RAX 8, Out 32]"
definition unfold_inb_code :: "io_instr list" where
  "unfold_inb_code = [Load_part 16 RDX 4, Clear RAX, In 8]"
definition unfold_inw_code :: "io_instr list" where
  "unfold_inw_code = [Load_part 16 RDX 4, Clear RAX, In 16]"
definition unfold_ind_code :: "io_instr list" where
  "unfold_ind_code = [Load_part 16 RDX 4, In 32]"

text \<open>The tester's, which are the kernel's.\<close>

definition tester_outb_code :: "io_instr list" where
  "tester_outb_code = [Mov_part 16 RAX RSI, Mov_part 16 RDX RDI, Out 8]"
definition tester_inb_code :: "io_instr list" where
  "tester_inb_code = [Mov_part 16 RDX RDI, Clear RAX, In 8]"

lemma set_part_simps:
  "n \<le> 16 \<Longrightarrow> take_bit n (set_part 16 w v) = take_bit n w"
  "take_bit 8 (set_part 8 w v) = take_bit 8 w" "take_bit 32 (set_part 32 w v) = take_bit 32 w"
  "ucast (set_part 16 w v) = (ucast w :: u16)"
  "n \<le> 32 \<Longrightarrow> set_part n w 0 = take_bit n w" "set_part 32 w v = take_bit 32 w"
proof -
  show "n \<le> 16 \<Longrightarrow> take_bit n (set_part 16 w v) = take_bit n w"
    "take_bit 8 (set_part 8 w v) = take_bit 8 w" "ucast (set_part 16 w v) = (ucast w :: u16)"
    unfolding set_part_def by (rule bit_word_eqI; auto simp: bit_simps)+
qed (simp_all add: set_part_def)

lemma port_writes_done:
  "port_out (io_run outb_code c) = port_out c @ [(ucast (io_gpr c RDI), 8, take_bit 8 (io_gpr c RSI))]"
  "port_out (io_run outw_code c) = port_out c @ [(ucast (io_gpr c RDI), 16, take_bit 16 (io_gpr c RSI))]"
  "port_out (io_run outd_code c) = port_out c @ [(ucast (io_gpr c RDI), 32, take_bit 32 (io_gpr c RSI))]"
  "port_out (io_run unfold_outb_code c) = port_out c @ [(ucast (io_stack c 4), 8, take_bit 8 (io_stack c 8))]"
  "port_out (io_run unfold_outw_code c) = port_out c @ [(ucast (io_stack c 4), 16, take_bit 16 (io_stack c 8))]"
  "port_out (io_run unfold_outd_code c) = port_out c @ [(ucast (io_stack c 4), 32, take_bit 32 (io_stack c 8))]"
  by (simp_all add: io_run_def outb_code_def outw_code_def outd_code_def unfold_outb_code_def
      unfold_outw_code_def unfold_outd_code_def io_set_def set_part_simps)

lemma port_reads_done:
  "io_gpr (io_run inb_code c) RAX = take_bit 8 (port_in c (ucast (io_gpr c RDI)))"
  "io_gpr (io_run inw_code c) RAX = take_bit 16 (port_in c (ucast (io_gpr c RDI)))"
  "io_gpr (io_run ind_code c) RAX = take_bit 32 (port_in c (ucast (io_gpr c RDI)))"
  "io_gpr (io_run unfold_inb_code c) RAX = take_bit 8 (port_in c (ucast (io_stack c 4)))"
  "io_gpr (io_run unfold_inw_code c) RAX = take_bit 16 (port_in c (ucast (io_stack c 4)))"
  "io_gpr (io_run unfold_ind_code c) RAX = take_bit 32 (port_in c (ucast (io_stack c 4)))"
  by (simp_all add: io_run_def inb_code_def inw_code_def ind_code_def unfold_inb_code_def
      unfold_inw_code_def unfold_ind_code_def io_set_def set_part_simps)

text \<open>Registers other than \<open>rax\<close> and \<open>rdx\<close> are left alone, as the calling convention demands.\<close>

lemma port_registers:
  assumes "r \<noteq> RAX" "r \<noteq> RDX" "code \<in> {outb_code, outw_code, outd_code, inb_code, inw_code, ind_code,
      unfold_outb_code, unfold_outw_code, unfold_outd_code, unfold_inb_code, unfold_inw_code, unfold_ind_code}"
  shows "io_gpr (io_run code c) r = io_gpr c r"
  using assms
  by (auto simp: io_run_def outb_code_def outw_code_def outd_code_def unfold_outb_code_def
      unfold_outw_code_def unfold_outd_code_def inb_code_def inw_code_def ind_code_def
      unfold_inb_code_def unfold_inw_code_def unfold_ind_code_def io_set_def)

text \<open>The log's \<open>outb\<close> records the same access.\<close>

definition byte_accesses :: "(u16 \<times> u8) list \<Rightarrow> (u16 \<times> nat \<times> u64) list" where
  "byte_accesses ws = map (\<lambda>(p, v). (p, 8, ucast v)) ws"

lemma outb_log:
  assumes "port_out c = byte_accesses (port_writes d)" "ucast (io_gpr c RDI) = p" "ucast (io_gpr c RSI) = v"
  shows "port_out (io_run outb_code c) = byte_accesses (port_writes (outb p v d))"
proof -
  have "take_bit 8 (io_gpr c RSI) = ucast (ucast (io_gpr c RSI) :: u8)"
    by (rule bit_word_eqI) (auto simp: bit_simps)
  then show ?thesis using assms by (simp add: port_writes_done(1) byte_accesses_def outb_def)
qed

subsection \<open>The screen\<close>

text \<open>The buffer as the code writes it, by the index of a character, behind its end as well.\<close>

record screen =
  vgabuf :: "nat \<Rightarrow> u16"
  vgacursor :: u16
  cleared :: bool

definition TAB :: char where "TAB = char_of (9 :: nat)"
definition CR :: char where "CR = char_of (13 :: nat)"

definition vgaclear :: "screen \<Rightarrow> screen" where
  "vgaclear v = v\<lparr>vgabuf := (\<lambda>i. if i < 1920 then 0x0720 else vgabuf v i)\<rparr>"

text \<open>A \<open>char\<close> is signed, so characters from 128 on set the whole upper byte.\<close>

definition vgaputc :: "char \<Rightarrow> screen \<Rightarrow> screen" where
  "vgaputc c v =
     (let v = (if cleared v then v else (vgaclear v)\<lparr>cleared := True\<rparr>); k = vgacursor v in
      if c = NL then v\<lparr>vgacursor := k - (k mod 80) + 80\<rparr>
      else if c = TAB then v\<lparr>vgacursor := k - (k mod 8) + 8\<rparr>
      else if c = CR then v\<lparr>vgacursor := k - (k mod 80)\<rparr>
      else v\<lparr>vgabuf := (vgabuf v)(unat k := 0x0700 OR scast (of_char c :: u8)), vgacursor := k + 1\<rparr>)"

definition unfold_vgaclear :: "screen \<Rightarrow> screen" where
  "unfold_vgaclear v = v\<lparr>vgabuf := (\<lambda>i. if i < 1920 then 0x0720 else vgabuf v i)\<rparr>"

definition unfold_vgaputc :: "char \<Rightarrow> screen \<Rightarrow> screen" where
  "unfold_vgaputc c v =
     (let v = (if cleared v then v else (unfold_vgaclear v)\<lparr>cleared := True\<rparr>); k = vgacursor v in
      if c = NL then v\<lparr>vgacursor := k - (k mod 80) + 80\<rparr>
      else if c = TAB then v\<lparr>vgacursor := k - (k mod 8) + 8\<rparr>
      else if c = CR then v\<lparr>vgacursor := k - (k mod 80)\<rparr>
      else v\<lparr>vgabuf := (vgabuf v)(unat k := 0x0700 OR scast (of_char c :: u8)), vgacursor := k + 1\<rparr>)"

lemma unfold_vga_same: "unfold_vgaputc = vgaputc"
  by (intro ext) (simp add: unfold_vgaputc_def vgaputc_def unfold_vgaclear_def vgaclear_def)

definition vgaputs :: "string \<Rightarrow> screen \<Rightarrow> screen" where
  "vgaputs = fold vgaputc"

text \<open>A line feed goes to the start of the next line, as long as the cursor does not wrap.\<close>

lemma vga_newline:
  assumes "unat (vgacursor v) + 80 < 2 ^ 16"
  shows "unat (vgacursor (vgaputc NL v)) = 80 * (unat (vgacursor v) div 80 + 1)"
proof -
  let ?k = "vgacursor v"
  have m: "unat (?k mod 80) = unat ?k mod 80" by (simp add: unat_mod_distrib)
  have "?k mod 80 \<le> ?k" by (simp add: word_le_nat_alt m)
  then have "unat (?k - ?k mod 80) = unat ?k - unat ?k mod 80" by (simp only: unat_sub m)
  also have "\<dots> = 80 * (unat ?k div 80)" by (simp add: minus_mod_eq_mult_div)
  finally have u: "unat (?k - ?k mod 80) = 80 * (unat ?k div 80)" .
  have "vgacursor (vgaputc NL v) = ?k - ?k mod 80 + 80" by (simp add: vgaputc_def vgaclear_def Let_def)
  then have "unat (vgacursor (vgaputc NL v)) = (80 * (unat ?k div 80) + 80) mod 2 ^ 16"
    by (simp only: unat_word_ariths u) simp
  moreover have "80 * (unat ?k div 80) \<le> unat ?k" by simp
  ultimately show ?thesis using assms by simp
qed

text \<open>Nothing scrolls: every line feed moves on, so after 25 of them text lands behind the screen.\<close>

lemma vga_newlines:
  assumes "vgacursor v = 0" "n \<le> 100"
  shows "unat (vgacursor (vgaputs (replicate n NL) v)) = 80 * n"
  using assms(2)
proof (induction n)
  case 0
  then show ?case using assms(1) by (simp add: vgaputs_def)
next
  case (Suc n)
  have "replicate (Suc n) NL = replicate n NL @ [NL]" by (simp add: replicate_append_same)
  then have "vgaputs (replicate (Suc n) NL) v = vgaputc NL (vgaputs (replicate n NL) v)"
    by (simp add: vgaputs_def del: replicate_Suc)
  then show ?case using Suc vga_newline [of "vgaputs (replicate n NL) v"] by simp
qed

text \<open>Printable text is written from the cursor on, in the colours of the screen.\<close>

definition printable :: "char \<Rightarrow> bool" where
  "printable c \<longleftrightarrow> c \<noteq> NL \<and> c \<noteq> TAB \<and> c \<noteq> CR \<and> (of_char c :: nat) < 128"

lemma vga_cell:
  assumes "printable c"
  shows "(0x0700 OR scast (of_char c :: u8) :: u16) = 0x0700 + of_char c"
proof -
  have "list_all (\<lambda>n. (0x0700 OR scast (of_nat n :: u8) :: u16) = 0x0700 + of_nat n) [0..<128]" by code_simp
  then have "(0x0700 OR scast (of_nat (of_char c) :: u8) :: u16) = 0x0700 + of_nat (of_char c)"
    using assms by (simp only: list_all_iff set_upt) (simp add: printable_def)
  then show ?thesis by (simp add: of_char_def)
qed

lemma vga_text:
  assumes "list_all printable cs" "cleared v" "unat (vgacursor v) + length cs < 2 ^ 16"
  shows "unat (vgacursor (vgaputs cs v)) = unat (vgacursor v) + length cs \<and>
    (\<forall>i < length cs. vgabuf (vgaputs cs v) (unat (vgacursor v) + i) = 0x0700 + of_char (cs ! i)) \<and>
    (\<forall>j < unat (vgacursor v). vgabuf (vgaputs cs v) j = vgabuf v j)"
  using assms
proof (induction cs arbitrary: v)
  case Nil
  then show ?case by (simp add: vgaputs_def)
next
  case (Cons c cs)
  let ?u = "vgaputc c v"
  have u: "?u = v\<lparr>vgabuf := (vgabuf v)(unat (vgacursor v) := 0x0700 + of_char c), vgacursor := vgacursor v + 1\<rparr>"
    using Cons.prems(1,2) vga_cell [of c] by (simp add: vgaputc_def printable_def Let_def)
  have k: "unat (vgacursor ?u) = Suc (unat (vgacursor v))"
    using Cons.prems(3) by (simp add: u unat_word_ariths)
  have run: "vgaputs (c # cs) v = vgaputs cs ?u" by (simp add: vgaputs_def)
  have "cleared ?u" using Cons.prems(2) by (simp add: u)
  from Cons.IH [OF _ this] Cons.prems(1,3) k have IH:
    "unat (vgacursor (vgaputs cs ?u)) = unat (vgacursor ?u) + length cs"
    "\<forall>i < length cs. vgabuf (vgaputs cs ?u) (unat (vgacursor ?u) + i) = 0x0700 + of_char (cs ! i)"
    "\<forall>j < unat (vgacursor ?u). vgabuf (vgaputs cs ?u) j = vgabuf ?u j" by simp_all
  have "vgabuf (vgaputs cs ?u) (unat (vgacursor v) + i) = 0x0700 + of_char ((c # cs) ! i)"
    if "i < length (c # cs)" for i
    using that IH(2,3) k by (cases i) (auto simp: u)
  moreover have "vgabuf (vgaputs cs ?u) j = vgabuf v j" if "j < unat (vgacursor v)" for j
    using that IH(3) k by (simp add: u)
  ultimately show ?case unfolding run using IH(1) k by simp
qed

end
