(* ===== verification/Spec2Isabelle.thy ===== *)
theory Spec2Isabelle
  imports Kernel_Specs Samples Page_Calls Pmm_Map Gates Contexts Config_Specs Relocation_Specs
    Mutex Layout Log_Specs Acpi Unfold_Specs Call_Errors Stays Readers
    Long_Mode Tester Devices
begin

text \<open>
  The pinion64 kernel and what is proved of it. Paths are relative to \<open>src/src\<close>; \<open>pinion64/\<close>
  holds the kernel, \<open>unfold/\<close> the boot loader that enters long mode and starts it.

  The program. \<open>pinion64\<close> is a 64-bit exokernel. Threads are 256-byte control blocks, one to a
  page, that a two-level table finds by id (\<open>tcb.c\<close>); free blocks, processor blocks and pages
  come from free lists filled from a bump allocator (\<open>alloc.s\<close>, \<open>pmm.c\<close>). A run queue
  (\<open>scheduler.c\<close>) and three fault queues (\<open>queues.c\<close>) run through one \<open>next\<close> field. Interrupts
  and faults enter through \<open>interrupt.s\<close> into \<open>fault\<close> of \<open>init.c\<close>, which switches threads, queues
  faulted ones and fires vectors; \<open>interrupt_vector.c\<close> routes vectors to the threads whose taps
  name them. Threads call the kernel through \<open>api.s\<close> and \<open>api/*.c\<close>. Paging contexts are walked
  and filled by \<open>page.c\<close>. \<open>unfold\<close> gathers the memory map and the modules of the multiboot
  loader, puts the kernel at its physical address and enters it in long mode. There \<open>init\<close>
  reads its configuration (\<open>config.c\<close>), builds all its structures and loads a first program,
  which is linked against the calls by name (\<open>load.c\<close>, \<open>api_resolve.c\<close>).

  The state. One record \<open>kernel\<close> (Kernel_State) has a field per static variable. Blocks
  live in \<open>tcbs\<close>, indexed by address; their first word doubles as the link of the free list,
  as in the code. Page tables and all other kernel memory are the words \<open>mem\<close>. The images
  that the loader, the tables of the firmware and the boot loader read are memories of bytes
  (Bytes), apart from \<open>mem\<close>. Integers have the width of the C types, so sums wrap. An
  operation is a function \<open>kernel \<Rightarrow> ('a \<times> kernel) option\<close>: \<open>None\<close> is code that does not
  come back (a null pointer, an index out of bounds, a mutex that is spun on for ever), and
  the errors that the code itself returns are ordinary results. That a call returns is a
  theorem of its own (C4, C6 and the totality part of the others).

  The machine. There is one processor, as in the code that is linked in, and the kernel runs
  with interrupts off; so a call is one step. Machine has the entry points of \<open>api.s\<close> and
  \<open>interrupt.s\<close> as the steps of a relation \<open>mstep\<close>: a call, the \<open>int 0xFF\<close> that some entry
  points execute after it with interrupts enabled in between (\<open>pending\<close>), and any interrupt
  or fault. A preempted thread may have such a yield left; it is covered by letting any
  thread execute \<open>int 0xFF\<close> at any time. \<open>reached\<close> (Start_Up) is what can follow \<open>init\<close>, with
  the first program loaded or not. Entry_Code takes the single steps apart again: it has the
  instructions around the C functions and shows that they implement them (C28).

  The theories.
  Prelude: word types, linked lists, shared lemmas. Kernel_State: the record.
  Pmm (\<open>mutex.s\<close>, \<open>pmm.c\<close>, \<open>api/memory_map_read.c\<close>, \<open>start.s\<close>) with Pmm_Map for its
  specification; Mutex has the lock routines once more, as instructions of any number of
  processors. Alloc (\<open>alloc.s\<close>): the macro as operations over a record of accessors, its
  contract a locale with an interpretation for each instance. Tcb (\<open>tcb.c\<close>): the table and the
  memory invariant. Scheduler (\<open>scheduler.c\<close>, \<open>ccb.s\<close>), Queues (\<open>queues.c\<close>), Interrupts
  (\<open>interrupt_vector.c\<close>, \<open>api/interrupt_*.c\<close>) with Vectors for what firing does, Threads
  (\<open>api/thread_*.c\<close>), Faults (\<open>init.c\<close>, \<open>interrupt.s\<close>, \<open>api/fault_*.c\<close>, \<open>api/thread.c\<close>) with
  Contexts for the registers and Entry_Code for the instructions, Paging and Page_Api
  (\<open>page.c\<close>, \<open>api/page_*.c\<close>) with Page_Tables and Page_Calls for the tree of tables. Kernel_Inv
  and Kernel_Ops: the invariant that ties table, free lists, run queue, routes and active
  thread together, and that every operation keeps it. Machine and Kernel_Specs: whole
  entries. Call_Errors: when calls fail. Stays: what lets a suspended thread run again.
  Boot with Gates: \<open>pcx_init\<close>, \<open>idt_init\<close>, \<open>ccb_new\<close> and \<open>init\<close> up to the first program.
  Page_Inv: a locale for properties of the page tables that every operation keeps if mapping
  a frame and handing out a page do; Window and Boot_Paging instantiate it with the kernel's
  window onto physical memory, which \<open>pcx_init\<close> sets up. Hardware_Walk: tables as the
  processor walks them, and those of \<open>unfold/long.s\<close>. Processor: descriptors, task state
  segment, \<open>gs\<close> bases and local APIC (\<open>start.s\<close>, \<open>ccb.s\<close>, \<open>init.c\<close>), and the passing of arguments
  from \<open>long.s\<close> to \<open>init\<close>. Long_Mode: the multiboot header, \<open>boot.s\<close>, and \<open>long.s\<close> up to 64-bit
  mode. Memory_Maps: that the maps of \<open>pmm_init\<close> never change, and what threads learn of them.
  Tester (\<open>tester/main.c\<close>): the test program, run on the kernel. Devices: \<open>port.s\<close> of all three
  programs, and the screen device of \<open>log.c\<close>. Start_Up: the whole of \<open>init\<close>, with a locale for what loading a
  program keeps. Config and Config_Specs (\<open>config.c\<close>): the parser, and a grammar of lines it
  is compared with. Bytes, Loader (\<open>load.c\<close>, \<open>api_resolve.c\<close>) with Loader_Specs and
  Relocation_Specs. Log and Log_Specs (\<open>log.c\<close> of both programs). Acpi (\<open>acpi.c\<close>, \<open>apic.c\<close>,
  \<open>mp.s\<close>). Unfold and Unfold_Specs (\<open>unfold/*.c\<close>). Layout: the offsets the compiler gives to
  fields; Readers: that the loaders and table walks read the fields they mean. Samples:
  concrete states for the witnesses.

  The theorems. C1 to C8: invariants and totality of the running system, from boot to any
  sequence of calls and interrupts. C9 to C18: what single calls and faults do, branch by
  branch. C19: the page allocator. C20 to C22: paging. C23 and C24: the memory map, as threads
  see it and as the test program prints it. C25 and C26: gates and the processor at boot. C27
  and C28: register contexts. C29: the configuration. C30 to C32: loading and linking a
  program. C33 to C35: failed calls, layouts and locks. C36 and C37: the log and the firmware's
  tables. C38 to C40: the boot loader, up to the first instruction of the kernel.

  Termination. Lists are walked with the number of steps bounded by their length, which the
  invariant provides; loops over regions, entries and names recurse structurally or with a
  measure; loops whose end depends on memory (strings, image pages, relocations) are
  partial functions into \<open>option\<close>, and that they end is part of their theorems. Page-table
  walks have four levels. Parameters: \<open>handler\<close> of \<open>init_kernel\<close>, the addresses of the
  interrupt stubs, and \<open>entry\<close> of the loader, the addresses of the entry points; both are
  fixed by the linker.

  Not modelled: what devices do when their ports are accessed; the bits of control registers
  other than those the code sets; arithmetic flags and segment loads in the instruction model,
  and the placement of code, so that a jump is the value of the instruction pointer; the calls
  of \<open>log\<close> in the kernel and the boot loader, and the linker scripts. \<open>mp.s\<close>, \<open>apic.c\<close>, \<open>acpi.c\<close>
  and \<open>apic_init\<close> of \<open>interrupt.s\<close> are modelled on their own: nothing calls \<open>apic_init\<close>, the only
  caller of the first two, and \<open>init\<close> ignores what \<open>init_acpi\<close> finds. The local APIC is a map of
  registers in Processor and the number of EOI writes in the kernel's record.
\<close>

section \<open>The running kernel\<close>

text \<open>
  C1. Initialisation followed by any sequence of calls and interrupts keeps the scheduler
  consistent: the run queue is a well-formed list without repetition that holds exactly the
  \<open>QUEUED\<close> threads, and the active thread is a thread that is not in it.
\<close>

theorem run_queue_exact:
  assumes "reached handler mm s es m"
  shows "\<exists>L. run_queue L (kern m) \<and> distinct L \<and>
    set L = {p \<in> insert (idle_tcb (kern m)) (live (kern m)). st (kern m) p = TCB_STATE_QUEUED} \<and>
    active (kern m) \<in> insert (idle_tcb (kern m)) (live (kern m)) \<and> active (kern m) \<notin> set L"
proof -
  from machine_invE [OF reached_inv [OF assms]] obtain L F
    where k: "kernel_inv L F (kern m)" "active (kern m) \<noteq> 0" by metis
  show ?thesis
    using kernel_invD(3,4,6,8) [OF k(1)] k(2) run_queue_distinct [of L] by (auto simp: threads_def)
qed

lemma boot_reached: "\<exists>m. reached (\<lambda>v. 0) boot_mmap boot_kernel [] m"
  using init_spec [OF boot_kernel_state boot_kernel_room boot_kernel_maps, of "\<lambda>v. 0"]
    boot_kernel_state boot_kernel_room boot_kernel_maps mrun.Nil
  by (fastforce simp: reached_def started_def)

theorem run_queue_exact_witness:
  "\<exists>m L. reached (\<lambda>v. 0) boot_mmap boot_kernel [] m \<and> run_queue L (kern m) \<and> distinct L"
  using boot_reached run_queue_exact by blast

text \<open>
  C2. In every reachable state the blocks of the threads, the idle block and the free blocks
  are apart, all of them lie in the kernel's area, and two ids never share a block: a block
  on the free list is never in the table.
\<close>

theorem blocks_apart:
  assumes "reached handler mm s es m"
  shows "\<exists>F. llist (\<lambda>p. tcb_word0 (tcbs (kern m) p)) (tcb_list (kern m)) F \<and> distinct F \<and>
    set F \<inter> live (kern m) = {} \<and> idle_tcb (kern m) \<notin> set F \<union> live (kern m) \<and>
    (\<forall>p \<in> set F \<union> live (kern m). unat p < unat (brk (kern m))) \<and>
    (\<forall>i < TCB_LIMIT. \<forall>j < TCB_LIMIT. tcb_entry (kern m) i = tcb_entry (kern m) j \<longrightarrow>
       tcb_entry (kern m) i \<noteq> 0 \<longrightarrow> i = j)"
proof -
  from machine_invE [OF reached_inv [OF assms]] obtain L F where "kernel_inv L F (kern m)" by metis
  then have inv: "mem_inv F (kern m)" by (rule kernel_invD)
  then have l: "llist (\<lambda>p. tcb_word0 (tcbs (kern m) p)) (tcb_list (kern m)) F" by (simp add: mem_inv_def)
  have "i = j" if "i < TCB_LIMIT" "j < TCB_LIMIT" "tcb_entry (kern m) i = tcb_entry (kern m) j"
    "tcb_entry (kern m) i \<noteq> 0" for i j
  proof -
    have "(of_nat i :: u32) = of_nat j" using inv that by (metis mem_inv_def)
    then have "unat (of_nat i :: u32) = unat (of_nat j :: u32)" by simp
    then show ?thesis using that(1,2) by (simp add: TCB_LIMIT_def unat_of_nat)
  qed
  then show ?thesis
    using inv l llist_distinct [OF l] by (intro exI [of _ F]) (auto simp: mem_inv_def block_def)
qed

theorem blocks_apart_witness:
  "\<exists>m F. reached (\<lambda>v. 0) boot_mmap boot_kernel [] m \<and>
    llist (\<lambda>p. tcb_word0 (tcbs (kern m) p)) (tcb_list (kern m)) F \<and> set F \<inter> live (kern m) = {}"
  using boot_reached blocks_apart by blast

text \<open>
  C3. Whenever a thread executes its own code, that is when no yield is pending, its state is
  \<open>RUNNING\<close>: no call or interrupt returns to a thread that was paused, waits or was reaped.
\<close>

theorem active_runs:
  assumes "reached handler mm s es m" "pending m = None" "active (kern m) \<noteq> idle_tcb (kern m)"
  shows "active (kern m) \<in> live (kern m) \<and> st (kern m) (active (kern m)) = TCB_STATE_RUNNING"
proof -
  note inv = reached_inv [OF assms(1)]
  from machine_invE [OF inv] obtain L F where "kernel_inv L F (kern m)" "active (kern m) \<noteq> 0" by metis
  from kernel_invD(6) [OF this] assms(3) have "active (kern m) \<in> live (kern m)" by (simp add: threads_def)
  with inv assms(2) show ?thesis by (simp add: machine_inv_def resumes_def)
qed

theorem active_runs_witness:
  "\<exists>m :: machine. active (kern m) \<in> live (kern m) \<and> st (kern m) (active (kern m)) = TCB_STATE_RUNNING"
proof -
  from init_spec [OF boot_kernel_state boot_kernel_room boot_kernel_maps, of "\<lambda>v. 0"]
  obtain k F where k: "init_kernel (\<lambda>v. 0) boot_mmap boot_kernel = Some k" "kernel_inv [] F k"
    "live k = {active k}" by blast
  have "reached (\<lambda>v. 0) boot_mmap boot_kernel [] \<lparr>kern = k, pending = None\<rparr>"
    using k(1) boot_kernel_state boot_kernel_room boot_kernel_maps mrun.Nil
    by (auto simp: reached_def started_def)
  moreover have "active k \<noteq> idle_tcb k" using kernel_invD(1) [OF k(2)] k(3) by (auto simp: mem_inv_def)
  ultimately show ?thesis
    using active_runs [of "\<lambda>v. 0" boot_mmap boot_kernel "[]" "\<lparr>kern = k, pending = None\<rparr>"]
    by (intro exI [of _ "\<lparr>kern = k, pending = None\<rparr>"]) simp
qed

text \<open>
  C4. Initialisation succeeds whenever the memory map fits the kernel's arrays and there is
  room for 264 pages, and leaves one running thread with id 1, an empty run queue and the
  invariant established.
\<close>

theorem init_ok:
  assumes "boot_state s" "boot_room mm s" "pmm_init mm s \<noteq> None"
  shows "\<exists>k F. init_kernel handler mm s = Some k \<and> kernel_inv [] F k \<and> active k \<noteq> 0 \<and>
    live k = {active k} \<and> st k (active k) = TCB_STATE_RUNNING \<and> tcb_id (tcbs k (active k)) = 1"
  using init_spec [OF assms, of handler] by blast

theorem init_ok_witness:
  "\<exists>k F. init_kernel (\<lambda>v. 0) boot_mmap boot_kernel = Some k \<and> kernel_inv [] F k"
  using init_ok [OF boot_kernel_state boot_kernel_room boot_kernel_maps] by blast

text \<open>
  C5. The scheduler is fair: timer interrupts rotate the list of the active thread and the
  queued ones, so after \<open>n\<close> of them the thread at position \<open>n\<close> of that list (modulo its
  length) runs, and every queued thread gets its turn.
\<close>

theorem round_robin:
  assumes "kernel_inv L F s" "active s \<noteq> 0"
  shows "\<exists>t. ticks fs s = Some t \<and> active t = (active s # L) ! (length fs mod Suc (length L)) \<and>
    kernel_inv (tl (rotate (length fs) (active s # L))) F t"
proof -
  have "hd (rotate (length fs) (active s # L)) = (active s # L) ! (length fs mod Suc (length L))"
    by (simp add: hd_rotate_conv_nth)
  with round_robin_ticks [OF assms, of fs] show ?thesis by simp
qed

definition blank_frame :: frame where
  "blank_frame = \<lparr>fr_regs = \<lparr>ts_rip = 0, ts_rsp = 0, ts_rbx = 0, ts_rbp = 0, ts_r12 = 0, ts_r13 = 0,
     ts_r14 = 0, ts_r15 = 0, ts_rax = 0, ts_rcx = 0, ts_rdx = 0, ts_rdi = 0, ts_rsi = 0, ts_r8 = 0,
     ts_r9 = 0, ts_r10 = 0, ts_r11 = 0, ts_fs = 0, ts_gs = 0, ts_cs = 0, ts_ss = 0, ts_ds = 0\<rparr>,
     fr_error = 0, fr_rflags = 0\<rparr>"

theorem round_robin_witness:
  "\<exists>t. ticks [(blank_frame, 0)] sample_kernel = Some t \<and> active t = B2"
  using round_robin [OF sample_inv, of "[(blank_frame, 0)]"] by auto



text \<open>
  C7. A suspended thread stays suspended. Once a thread is suspended and off the processor, its
  id keeps its block, and no sequence of calls, yields, interrupts and faults makes it run,
  queue or wait again, as long as nobody calls \<open>thread_resume\<close> or \<open>thread_reap\<close> with its id.
\<close>

theorem suspended_stays:
  assumes "machine_inv m" "mrun m es m'" "unat n < TCB_LIMIT" "tcb_entry (kern m) (unat n) = p"
    and "p \<noteq> 0" "st (kern m) p = TCB_STATE_SUSPENDED" "p \<noteq> active (kern m)"
    and "\<forall>e \<in> set es. \<not> wakes_event n e"
  shows "tcb_entry (kern m') (unat n) = p \<and> st (kern m') p = TCB_STATE_SUSPENDED \<and>
    p \<noteq> active (kern m')"
proof -
  have "rests n p (kern m)" using assms(3-7) by (simp add: rests_def)
  from rests_mrun [OF assms(2,1) this assms(8)] show ?thesis by (simp add: rests_def)
qed

lemma sample_machine: "machine_inv \<lparr>kern = sample_kernel, pending = None\<rparr>"
  using caller_ok_resumes [OF sample_caller] by (simp add: machine_inv_def resumes_def)

theorem suspended_stays_witness:
  "\<exists>r m. mrun \<lparr>kern = sample_kernel, pending = None\<rparr> [Call (Thread_pause 2) r, Interrupt 32 blank_frame 0] m \<and>
    st (kern m) B4 = TCB_STATE_SUSPENDED \<and> B4 \<noteq> active (kern m)"
proof -
  let ?m = "\<lparr>kern = sample_kernel, pending = None\<rparr>"
  from total_calls [OF sample_caller, of "Thread_pause 2"] obtain r t
    where t: "apilogic (Thread_pause 2) sample_kernel = Some (r, t)" by auto
  from apilogic_caller [OF t sample_caller] obtain L F where "kernel_inv L F t" "active t \<noteq> 0"
    by (auto simp: caller_def kernel_ok_def dest: live_nonzero)
  from timer_rotates [OF this, of blank_frame 0] obtain u where "interrupt_entry 32 blank_frame 0 t = Some u"
    by blast
  with t have run: "mrun ?m [Call (Thread_pause 2) r, Interrupt 32 blank_frame 0] \<lparr>kern = u, pending = None\<rparr>"
    by (auto simp: mstep_call mstep_interrupt sample_live intro!: mrun.intros)
  show ?thesis
    using suspended_stays [OF sample_machine run, of 4 B4] run
    by (intro exI [of _ r] exI [of _ "\<lparr>kern = u, pending = None\<rparr>"])
       (simp add: sample_entry TCB_LIMIT_def)
qed

text \<open>
  C8. The kernel's window onto physical memory is never lost. In every state the running system
  reaches, the page tables form a tree of four levels below the root, in pages that the
  allocator has handed out, and whatever threads have mapped, the window translates: the
  kernel's address of a physical address (\<open>pmm_vaddr\<close>) leads to that address, both in the
  processor's walk and in the kernel's own, through an entry that is closed to programs.
\<close>

theorem window_fixed:
  assumes "reached handler mm s es m"
  shows "\<exists>lv. pt_tree lv (mem (kern m)) \<and> lv (pcx_root (kern m)) = 4 \<and>
    (\<forall>p. lv p \<noteq> 0 \<longrightarrow> unat p < unat (brk (kern m))) \<and>
    (\<forall>p. pmm_vaddr p \<noteq> 0 \<longrightarrow>
      hw_walk (phys_words (mem (kern m))) (pmm_vaddr p) 4 (pcx_root (kern m) - page_base) = Some p \<and>
      pcx_get_trans 0 (pmm_vaddr p) (kern m) = Some (p, pcx_unlock (kern m)) \<and>
      (\<exists>f. pcx_get_flags 0 (pmm_vaddr p) (kern m) = Some (f, pcx_unlock (kern m)) \<and>
        f AND PF_PRES \<noteq> 0 \<and> f AND PF_USER = 0))"
proof -
  have inv: "paging_inv (kern m)" by (rule reached_paging [OF assms])
  then obtain lv where lv: "tables lv (kern m)" "lv (pcx_root (kern m)) = 4"
    "window (mem (kern m)) (pcx_root (kern m))" by (auto simp: paging_inv_def)
  show ?thesis
    using lv paging_inv_window [OF inv window_vaddr(1)] window_hw [OF lv(3) window_vaddr(1)] window_vaddr(2)
    by (intro exI [of _ lv]) (simp add: tables_def)
qed

theorem window_fixed_witness:
  "\<exists>m. reached (\<lambda>v. 0) boot_mmap boot_kernel [] m \<and>
    hw_walk (phys_words (mem (kern m))) (pmm_vaddr 0xFEE00000) 4 (pcx_root (kern m) - page_base) = Some 0xFEE00000"
proof -
  obtain m where m: "reached (\<lambda>v. 0) boot_mmap boot_kernel [] m" using boot_reached by blast
  have "pmm_vaddr 0xFEE00000 \<noteq> 0" by (simp add: pmm_vaddr_def page_base_def)
  then show ?thesis using m window_fixed [OF m] by blast
qed

section \<open>Thread calls\<close>






text \<open>
  Pausing a queued thread and resuming it costs it its place: it ends up queued again, at
  the back of the run queue, and all other threads keep their order.
\<close>

lemma pause_then_resume:
  assumes "kernel_inv L F s" "active s \<in> live s" "target n s = p" "p \<noteq> 0"
    and "st s p = TCB_STATE_QUEUED" "n \<noteq> THREAD_ID_SELF" "st s (active s) = TCB_STATE_RUNNING"
  shows "\<exists>t u. apilogic_thread_pause n s = Some (True, t) \<and> apilogic_thread_resume n t = Some (True, u) \<and>
    kernel_inv (removeAll p L @ [p]) F u \<and> (\<forall>q. st u q = st s q)"
proof -
  have known: "st s p \<in> {TCB_STATE_SUSPENDED, TCB_STATE_SUSPENDEDWAITING, TCB_STATE_WAITING,
      TCB_STATE_QUEUED, TCB_STATE_RUNNING}" using assms(5) by simp
  show ?thesis
  proof (rule pause_spec [OF assms(1-4) known])
    fix t
    assume t: "apilogic_thread_pause n s = Some (True, t)" "kernel_inv (removeAll p L) F t"
      "\<And>q. st t q = ((st s)(p := paused (st s p))) q" "the_ccb t = the_ccb s" "live t = live s"
      "tcb_entry t = tcb_entry s"
    have stp: "st t p = TCB_STATE_SUSPENDED" using t(3) [of p] assms(5) by (simp add: paused_def)
    have ap: "active s \<noteq> p" using assms(5,7) by auto
    have na: "st t (active t) \<noteq> TCB_STATE_SUSPENDED" using t(3) [of "active s"] t(4) ap assms(7) by simp
    have al: "active t \<in> live t" using t(4,5) assms(2) by simp
    have "target n t = target n s" using assms(6) t(6) by (simp add: target_def)
    then have tt: "target n t = p" using assms(3) by simp
    show ?thesis
    proof (rule resume_spec [OF t(2) al tt assms(4) na])
      fix u
      assume u: "apilogic_thread_resume n t =
          Some (st t p = TCB_STATE_SUSPENDED \<or> st t p = TCB_STATE_SUSPENDEDWAITING, u)"
        "kernel_inv (if st t p = TCB_STATE_SUSPENDED then removeAll p L @ [p] else removeAll p L) F u"
        "\<And>q. st u q = ((st t)(p := resumed (st t p))) q"
      have "st u q = st s q" for q
        using t(3) [of q] u(3) [of q] stp assms(5) by (simp add: resumed_def)
      then show ?thesis using t(1) u(1,2) stp by auto
    qed
  qed
qed










section \<open>Interrupts and faults\<close>

text \<open>
  C15. Firing a vector affects exactly the blocks that are routed to it and have it in a tap:
  their tap is flagged, a waiting one becomes queued and a suspended-waiting one suspended,
  with the vector in \<open>rax\<close>. All other blocks keep state, taps and \<open>rax\<close>.
\<close>

theorem fire_wakes_tappers:
  assumes "interrupt_vector_fire vec s = Some t"
  shows "\<forall>q. (if q \<noteq> 0 \<and> q \<in> set (routes vec s) \<and> taps vec s q
     then st t q = woken (st s q) \<and> flagged vec t q \<and>
       (woken (st s q) \<noteq> st s q \<longrightarrow> tcb_rax (tcbs t q) = ucast vec)
     else st t q = st s q \<and> tcb_tap (tcbs t q) = tcb_tap (tcbs s q) \<and>
       tcb_rax (tcbs t q) = tcb_rax (tcbs s q))"
  using fire_fired [OF assms] unfolding fired_def by auto

lemma sample_routes: "routes 0x100 sample_kernel = [B3, 0, 0, 0]"
  by (simp add: routes_def sample_kernel_def boot_kernel_def TCB_LIMIT_def TAP_COUNT_def upt_rec)

lemma sample_taps: "taps 0x100 sample_kernel B3"
  unfolding taps_def by (intro exI [of _ 0]) (simp add: TAP_COUNT_def)

theorem fire_wakes_tappers_witness:
  "\<exists>t. interrupt_vector_fire 0x100 sample_kernel = Some t \<and> st t B3 = TCB_STATE_QUEUED \<and>
    tcb_rax (tcbs t B3) = 0x100 \<and> st t B4 = TCB_STATE_SUSPENDED"
proof -
  have "not_waiting sample_kernel" by (simp add: not_waiting_def)
  moreover have "unat (drop_bit 7 (0x100 :: u16)) < INTERRUPT_VECTOR_PAGES"
    by (simp add: INTERRUPT_VECTOR_PAGES_def)
  ultimately obtain t where t: "interrupt_vector_fire 0x100 sample_kernel = Some t"
    using fire_inv [OF sample_inv sample_vtables] by blast
  show ?thesis
    using t fire_wakes_tappers [OF t] sample_taps
    by (auto simp: sample_routes woken_def dest: spec [of _ B3] spec [of _ B4])
qed

text \<open>
  C16. No wakeup is lost. If a vector that the caller taps fires before the caller waits, the
  wait returns at once, with a vector that has fired, and leaves the caller running; if it
  fires after the caller has blocked and left the processor, the caller is queued with the
  vector in \<open>rax\<close>.
\<close>

theorem no_lost_wakeup:
  assumes "caller_ok s" "taps vec s (active s)" "active s \<in> set (routes vec s)"
    and "unat (drop_bit 7 vec) < INTERRUPT_VECTOR_PAGES"
  shows "(\<exists>t i. interrupt_vector_fire vec s = Some t \<and> i < TAP_COUNT \<and>
      tcb_tap (tcbs t (active s)) i AND 0x8000 \<noteq> 0 \<and>
      apilogic_interrupt_wait t = Some (ucast (tcb_tap (tcbs t (active s)) i AND NOT 0x8000), t) \<and>
      st t (active s) = TCB_STATE_RUNNING) \<and>
    ((\<forall>i < TAP_COUNT. tcb_tap (tcbs s (active s)) i AND 0x8000 = 0) \<longrightarrow>
      (\<exists>w. apilogic_interrupt_wait s = Some (0, w) \<and>
        (\<forall>t. interrupt_vector_fire vec (snd (ccb_unload_tcb w)) = Some t \<longrightarrow>
          st t (active s) = TCB_STATE_QUEUED \<and> tcb_rax (tcbs t (active s)) = ucast vec)))"
proof (intro conjI impI)
  let ?p = "active s"
  from caller_okE [OF assms(1)] obtain L F where inv: "kernel_inv L F s" "vtables_ok s"
    "?p \<noteq> 0" "st s ?p = TCB_STATE_RUNNING" "not_waiting s" by metis
  from fire_inv [OF inv(1,2,5) assms(4)] obtain t M where t: "interrupt_vector_fire vec s = Some t"
    "wakes s t" by blast
  have at: "active t = ?p" using wakesD(3) [OF t(2)] by simp
  have "flagged vec t ?p" using fire_fired [OF t(1)] assms(2,3) inv(3) unfolding fired_def by auto
  then have "find (\<lambda>i. tcb_tap (tcbs t ?p) i AND 0x8000 \<noteq> 0) [0..<TAP_COUNT] \<noteq> None"
    unfolding flagged_def find_None_iff by auto
  then obtain i where i: "find (\<lambda>i. tcb_tap (tcbs t ?p) i AND 0x8000 \<noteq> 0) [0..<TAP_COUNT] = Some i"
    by blast
  then have "i < TAP_COUNT" "tcb_tap (tcbs t ?p) i AND 0x8000 \<noteq> 0" by (auto simp: find_Some_iff)
  moreover have "apilogic_interrupt_wait t = Some (ucast (tcb_tap (tcbs t ?p) i AND NOT 0x8000), t)"
    using i at inv(3) by (simp add: apilogic_interrupt_wait_def Let_def)
  ultimately show "\<exists>t i. interrupt_vector_fire vec s = Some t \<and> i < TAP_COUNT \<and>
      tcb_tap (tcbs t ?p) i AND 0x8000 \<noteq> 0 \<and>
      apilogic_interrupt_wait t = Some (ucast (tcb_tap (tcbs t ?p) i AND NOT 0x8000), t) \<and>
      st t ?p = TCB_STATE_RUNNING"
    using t(1) wakesD(6) [OF t(2) inv(4)] by blast
  assume "\<forall>i < TAP_COUNT. tcb_tap (tcbs s ?p) i AND 0x8000 = 0"
  then have "find (\<lambda>i. tcb_tap (tcbs s ?p) i AND 0x8000 \<noteq> 0) [0..<TAP_COUNT] = None"
    by (auto simp: find_None_iff)
  then have w: "apilogic_interrupt_wait s = Some (0, set_state ?p TCB_STATE_WAITING s)"
    using inv(3) by (simp add: apilogic_interrupt_wait_def Let_def)
  let ?w = "set_state ?p TCB_STATE_WAITING s"
  obtain q u where un: "ccb_unload_tcb ?w = (q, u)" by fastforce
  note U = unload_spec [OF un]
  have "fixed u = fixed ?w" using U(7) by (simp add: thread_step_def)
  from fixedD(4) [OF this] have "routes vec u = routes vec s" by (simp add: routes_def)
  moreover have "taps vec u ?p" using assms(2) U(9) by (simp add: taps_def)
  moreover have "st u ?p = TCB_STATE_WAITING"
    using fun_cong [OF U(4), of ?p] fun_cong [OF st_set_state [of ?p TCB_STATE_WAITING s], of ?p] by simp
  ultimately have "st t ?p = TCB_STATE_QUEUED \<and> tcb_rax (tcbs t ?p) = ucast vec"
    if "interrupt_vector_fire vec u = Some t" for t
    using fire_fired [OF that] assms(3) inv(3) unfolding fired_def by (auto simp: woken_def)
  with w un show "\<exists>w. apilogic_interrupt_wait s = Some (0, w) \<and>
      (\<forall>t. interrupt_vector_fire vec (snd (ccb_unload_tcb w)) = Some t \<longrightarrow>
        st t ?p = TCB_STATE_QUEUED \<and> tcb_rax (tcbs t ?p) = ucast vec)" by simp
qed

text \<open>The sample with a caller that taps vector \<open>0x100\<close> too.\<close>

definition sample_tapping :: kernel where
  "sample_tapping = set_route 0x100 1 B1 (set_tap B1 0 0x100 sample_kernel)"

lemma sample_tapping_caller: "caller_ok sample_tapping"
proof -
  note t = set_tap_inv [OF sample_inv sample_caller, of B1 0 "0x100"]
  have "B1 \<in> insert 0 (live (set_tap B1 0 0x100 sample_kernel) \<union> set [B5])" by (simp add: sample_live)
  from set_route_inv [OF t(1) this] show ?thesis
    unfolding sample_tapping_def by (intro caller_ok_cong [OF t(2)]) simp_all
qed

lemma sample_tapping_facts:
  "active sample_tapping = B1" "routes 0x100 sample_tapping = [B3, B1, 0, 0]"
  "tcb_tap (tcbs sample_tapping B1) = (\<lambda>i. 0)(0 := 0x100)"
  by (simp_all add: sample_tapping_def routes_def set_route_def set_tap_def sample_kernel_def
      boot_kernel_def TAP_COUNT_def upt_rec Let_def)

theorem no_lost_wakeup_witness:
  "(\<exists>t i. interrupt_vector_fire 0x100 sample_tapping = Some t \<and>
    apilogic_interrupt_wait t = Some (ucast (tcb_tap (tcbs t B1) i AND NOT 0x8000), t)) \<and>
   (\<exists>w. apilogic_interrupt_wait sample_tapping = Some (0, w))"
proof -
  have "taps 0x100 sample_tapping B1"
    unfolding taps_def sample_tapping_facts(3) by (intro exI [of _ 0]) (simp add: TAP_COUNT_def)
  moreover have "unat (drop_bit 7 (0x100 :: u16)) < INTERRUPT_VECTOR_PAGES"
    by (simp add: INTERRUPT_VECTOR_PAGES_def)
  moreover have "\<forall>i < TAP_COUNT. tcb_tap (tcbs sample_tapping B1) i AND 0x8000 = 0"
    by (simp add: sample_tapping_facts)
  ultimately show ?thesis
    using no_lost_wakeup [OF sample_tapping_caller, of "0x100"]
    unfolding sample_tapping_facts(1,2) by auto
qed



lemma page_fault_parks:
  assumes "caller_ok s" "interrupt_entry 14 f cr2 s = Some t"
  shows "\<exists>M F. kernel_inv M F t \<and> pagefault_queue t = active s \<and> active t \<noteq> active s \<and>
    active s \<notin> set M \<and> active s \<in> live t \<and> st t (active s) = TCB_STATE_RUNNING"
proof -
  let ?u = "pcx_unlock (save_state_full 14 f s)"
  have "caller_ok (save_state_full 14 f s)"
    using assms(1) save_state_ok by (simp add: caller_ok_def caller_def)
  moreover from this obtain L F where "kernel_inv L F (save_state_full 14 f s)"
    "vtables_ok (save_state_full 14 f s)" by (auto simp: caller_ok_def caller_def kernel_ok_def)
  then have "kernel_ok ?u"
    using quiet_view [OF _ pcx_unlock_quiet] vtables_ok_cong [of ?u "save_state_full 14 f s"]
    by (intro kernel_okI) (simp_all add: pcx_unlock_def)
  ultimately have c: "caller_ok ?u" by (rule quiet_caller(2) [OF pcx_unlock_quiet(1), rotated])
  have vec: "unat (drop_bit 7 PINION_INTERRUPT_PAGEFAULT) < INTERRUPT_VECTOR_PAGES"
    by (simp add: PINION_INTERRUPT_PAGEFAULT_def INTERRUPT_VECTOR_PAGES_def)
  have a: "active ?u = active s" by (simp add: pcx_unlock_def)
  from fault_path_spec [OF c vec, of Pagefault_queue] obtain t' M F where t':
    "(case ccb_unload_tcb ?u of (p, s) \<Rightarrow> do {
      s \<leftarrow> enqueue Pagefault_queue p s; s \<leftarrow> interrupt_vector_fire PINION_INTERRUPT_PAGEFAULT s;
      scheduler_schedule s }) = Some t'" "kernel_inv M F t'" "queue_head Pagefault_queue t' = active s"
    "active t' \<noteq> active s" "active s \<notin> set M" "active s \<in> live t'"
    "st t' (active s) = TCB_STATE_RUNNING" unfolding a by blast
  have "t' = t"
    using assms(2) t'(1)
    by (auto simp: interrupt_entry_def fault_def Let_def pcx_get_trans_def pcx_get_flags_def
        bind_eq_Some_conv queue_pagefault_def case_prod_beta)
  with t' show ?thesis by auto
qed

lemma unmapped_trans: "trans_loop (\<lambda>p. 0) addr (Suc k) pt = Some (- 1)"
  by (simp add: Let_def)

lemma misc_fault_parks:
  assumes "caller_ok s" "v < 32" "v \<noteq> 14" "v \<noteq> 8"
  shows "\<exists>t M F. interrupt_entry v f cr2 s = Some t \<and> kernel_inv M F t \<and>
    miscfault_queue t = active s \<and> active t \<noteq> active s \<and> active s \<notin> set M \<and> active s \<in> live t \<and>
    st t (active s) = TCB_STATE_RUNNING"
proof -
  let ?u = "save_state_full v f s"
  have c: "caller_ok ?u" using assms(1) save_state_ok by (simp add: caller_ok_def caller_def)
  have vec: "unat (drop_bit 7 PINION_INTERRUPT_MISCFAULT) < INTERRUPT_VECTOR_PAGES"
    by (simp add: PINION_INTERRUPT_MISCFAULT_def INTERRUPT_VECTOR_PAGES_def)
  have "v \<noteq> 32" "v \<noteq> 0x100" using assms(2) by auto
  then have "interrupt_entry v f cr2 s = (case ccb_unload_tcb ?u of (p, s) \<Rightarrow> do {
      s \<leftarrow> enqueue Miscfault_queue p s; s \<leftarrow> interrupt_vector_fire PINION_INTERRUPT_MISCFAULT s;
      scheduler_schedule s })"
    using assms(2-4) by (simp add: interrupt_entry_def fault_def Let_def queue_miscfault_def)
  with fault_path_spec [OF c vec, of Miscfault_queue] show ?thesis by auto
qed

text \<open>
  C18. A fault takes the thread off the processor: for every exception but a double fault, the
  faulting thread goes to the front of the queue of page faults or of the other faults, is
  neither active nor in the run queue when another thread runs, and stays in the table. Its
  state word still says \<open>RUNNING\<close>.
\<close>

theorem faults_park:
  assumes "caller_ok s" "v < 32" "v \<noteq> 8" "v = 14 \<Longrightarrow> interrupt_entry v f cr2 s \<noteq> None"
  shows "\<exists>t M F. interrupt_entry v f cr2 s = Some t \<and> kernel_inv M F t \<and>
    queue_head (if v = 14 then Pagefault_queue else Miscfault_queue) t = active s \<and>
    active t \<noteq> active s \<and> active s \<notin> set M \<and> active s \<in> live t \<and> st t (active s) = TCB_STATE_RUNNING"
  using assms page_fault_parks [OF assms(1)] misc_fault_parks [OF assms(1,2)] by (cases "v = 14") fastforce+

theorem faults_park_witness:
  "\<exists>t. interrupt_entry 14 blank_frame 0x1234 sample_kernel = Some t \<and> pagefault_queue t = B1 \<and>
    active t \<noteq> B1"
proof -
  let ?u = "pcx_unlock (save_state_full 14 blank_frame sample_kernel)"
  have "kernel_inv [B2] [B5] (save_state_full 14 blank_frame sample_kernel)"
    unfolding save_state_full_def by (rule kernel_inv_upd_tcb [OF sample_inv]) simp_all
  from quiet_view [OF this pcx_unlock_quiet] have u: "kernel_inv [B2] [B5] ?u" .
  have ok: "vtables_ok ?u" "active ?u \<noteq> 0"
    using sample_vtables by (simp_all add: vtables_ok_def pcx_unlock_def save_state_full_def)
  have vec: "unat (drop_bit 7 PINION_INTERRUPT_PAGEFAULT) < INTERRUPT_VECTOR_PAGES"
    by (simp add: PINION_INTERRUPT_PAGEFAULT_def INTERRUPT_VECTOR_PAGES_def)
  have m: "mem (save_state_full 14 blank_frame sample_kernel) = (\<lambda>p. 0)"
    by (simp add: save_state_full_def)
  have tr: "pcx_get_trans 0 v (save_state_full 14 blank_frame sample_kernel) = Some (- 1, ?u)" for v
    using unmapped_trans [of v 3] by (simp add: pcx_get_trans_def m numeral_eq_Suc)
  have iv: "tcb_ivect (tcbs (save_state_full 14 blank_frame sample_kernel) B1) = 14"
    using save_state_frame(4) [of 14 blank_frame sample_kernel] by simp
  have "\<exists>t. interrupt_entry 14 blank_frame 0x1234 sample_kernel = Some t"
    using fault_path_resumes [OF u ok vec, of Pagefault_queue]
    by (auto simp: interrupt_entry_def fault_def Let_def tr iv pcx_get_flags_def queue_pagefault_def case_prod_beta)
  then show ?thesis using faults_park [OF sample_caller, of 14 blank_frame "0x1234"] by auto
qed

text \<open>
  The queue of exited threads is a stack: blocks put into it come out in reverse order and
  the queue is as before.
\<close>

lemma zombies_last_first:
  assumes "fault_queue Zombie_queue L s" "distinct xs" "set xs \<inter> set L = {}" "0 \<notin> set xs"
  shows "\<exists>t u. pushes queue_zombie xs s = Some t \<and> pops get_zombie (length xs) t = (rev xs, u) \<and>
    fault_queue Zombie_queue L u"
  unfolding queue_zombie_def get_zombie_def by (rule zombies.push_pop_reverse [OF assms])

section \<open>Memory\<close>

text \<open>
  C19. While the area has room, consecutive page allocations return pages one after the other:
  each starts where the one before ends, so no page is handed out twice, and all of them lie
  between the break and the end of the area.
\<close>

theorem pages_fresh:
  assumes "pmm_ok s" "unat (pmm_alloc_base s) + n * 0x1000 \<le> unat (pmm_alloc_limit s)"
  shows "\<exists>ps t. pmm_allocs n s = Some (ps, t) \<and> pmm_ok t \<and> distinct ps \<and>
    (\<forall>i < n. unat (ps ! i) = unat (brk s) + i * 0x1000 \<and>
       unat (ps ! i) + 0x1000 \<le> unat (pmm_base s) + unat (pmm_alloc_limit s))"
proof -
  from pmm_allocs_spec [OF assms] obtain ps t where t: "pmm_allocs n s = Some (ps, t)" "pmm_ok t"
    "map unat ps = map (\<lambda>i. unat (brk s) + i * 0x1000) [0..<n]" by blast
  have len: "length ps = n" using arg_cong [OF t(3), of length] by simp
  have nth: "unat (ps ! i) = unat (brk s) + i * 0x1000" if "i < n" for i
    using arg_cong [OF t(3), of "\<lambda>xs. xs ! i"] that len by simp
  have "unat (ps ! i) + 0x1000 \<le> unat (pmm_base s) + unat (pmm_alloc_limit s)" if "i < n" for i
    using nth [OF that] unat_brk [OF assms(1)] assms(2) that by linarith
  moreover have "distinct (map unat ps)"
    unfolding t(3) by (auto simp: distinct_map inj_on_def)
  then have "distinct ps" by (simp add: distinct_map)
  ultimately show ?thesis using t(1,2) nth by blast
qed

theorem pages_fresh_witness:
  "\<exists>ps t. pmm_allocs 3 sample_kernel = Some (ps, t) \<and> distinct ps \<and> unat (ps ! 2) = 0xFFFFFFFFC0248000"
proof -
  have "unat (pmm_alloc_base sample_kernel) + 3 * 0x1000 \<le> unat (pmm_alloc_limit sample_kernel)"
    by (simp add: sample_kernel_def)
  from pages_fresh [OF sample_ok this] obtain ps t where "pmm_allocs 3 sample_kernel = Some (ps, t)"
    "distinct ps" "\<forall>i < 3. unat (ps ! i) = unat (brk sample_kernel) + i * 0x1000" by blast
  then show ?thesis by (simp add: sample_brk)
qed

text \<open>
  A block given back to the allocator is the one it hands out next, and the other free
  blocks stay on the list in their order.
\<close>

lemma block_reuse:
  assumes "tcb_free_list F s" "p \<noteq> 0" "p \<notin> set F" "unat p < unat (brk s)"
  shows "\<exists>t u. tcb_free p s = Some t \<and> tcb_alloc t = Some (p, u) \<and> tcb_free_list F u"
  using tcb_fl.free_then_alloc [of F s p] assms
  by (simp add: tcb_free_def tcb_alloc_def tcb_free_list_eq)

section \<open>Page tables\<close>


text \<open>A kernel whose root table is empty, and the levels of its only table.\<close>

definition empty_root :: kernel where
  "empty_root = boot_kernel\<lparr>pmm_base := 0xFFFFFFFFC0000000, pmm_alloc_base := 0x246000,
     pmm_alloc_limit := 0x800000, pcx_root := 0xFFFFFFFFC0245000\<rparr>"

definition empty_levels :: "ptr \<Rightarrow> nat" where
  "empty_levels p = (if p = 0xFFFFFFFFC0245000 then 4 else 0)"

lemma empty_rooted: "rooted empty_levels empty_root"
proof -
  have "pt_tree empty_levels (mem empty_root)"
    by (rule pt_treeI)
      (auto simp: empty_levels_def empty_root_def boot_kernel_def descends_def page_aligned_iff split: if_splits)
  moreover have "pages_ok empty_root"
    by (simp add: pages_ok_def pmm_ok_def empty_root_def boot_kernel_def dvd_def)
  moreover have "brk empty_root = 0xFFFFFFFFC0246000" by (simp add: brk_def empty_root_def)
  ultimately show ?thesis
    by (simp add: rooted_def tables_def empty_levels_def empty_root_def)
qed

lemma empty_left: "pages_left empty_root = 0x5BA"
  by (simp add: pages_left_def empty_root_def)




text \<open>
  C22. The kernel replaces the page tables of the boot loader while it runs, and the switch does
  not move it: with room for 258 pages \<open>pcx_init\<close> returns, and every address of the kernel's half
  gigabyte leads to the same place through the tables of \<open>long.s\<close> and through those it has built.
  The tables of \<open>long.s\<close> also map the first gigabyte to itself, where the loader runs when it
  turns paging on.
\<close>

theorem tables_switch:
  assumes "pages_ok s" "258 \<le> pages_left s" "pmm_base s = page_base" "long_tables pm pt4"
  shows "\<exists>t. pcx_init s = Some t \<and>
    (\<forall>v. page_base \<le> v \<and> v - page_base < 0x20000000 \<longrightarrow>
      hw_walk pm v 4 pt4 = Some (v - page_base) \<and>
      hw_walk (phys_words (mem t)) v 4 (cr3 t) = hw_walk pm v 4 pt4) \<and>
    (\<forall>a < 0x40000000. hw_walk pm a 4 pt4 = Some a)"
proof -
  from pcx_init_switch [OF assms(1-3)] obtain t where "pcx_init s = Some t"
    "\<And>v. page_base \<le> v \<Longrightarrow> v - page_base < 0x20000000 \<Longrightarrow>
       hw_walk (phys_words (mem t)) v 4 (cr3 t) = Some (v - page_base)" by metis
  then show ?thesis using long_window [OF assms(4)] long_identity [OF assms(4)] by auto
qed

text \<open>The tables of the boot loader at addresses above 1 MB.\<close>

definition sample_tables :: "u64 \<Rightarrow> u64" where
  "sample_tables = place_words 0x101000 (long_pt4 0x102000 0x103000)
     (place_words 0x102000 (long_pt30 0x104000)
       (place_words 0x103000 (long_pt31 0x104000) (place_words 0x104000 long_pt2 (\<lambda>a. 0))))"

lemma sample_long_tables: "long_tables sample_tables 0x101000"
  unfolding long_tables_def
proof (intro exI conjI)
  show "low_page 0x102000" "low_page 0x103000" "low_page 0x104000" by (simp_all add: low_page_def)
  show "stored sample_tables 0x101000 (long_pt4 0x102000 0x103000)" "stored sample_tables 0x102000 (long_pt30 0x104000)"
    "stored sample_tables 0x103000 (long_pt31 0x104000)" "stored sample_tables 0x104000 long_pt2"
    unfolding sample_tables_def
    by (intro place_words_stored place_words_other; simp)+
qed

lemma empty_pages: "pages_ok empty_root"
  using empty_rooted by (simp add: rooted_def tables_def)

theorem tables_switch_witness:
  "\<exists>t. pcx_init empty_root = Some t \<and>
    hw_walk sample_tables 0xFFFFFFFFC0201000 4 0x101000 = Some 0x201000 \<and>
    hw_walk (phys_words (mem t)) 0xFFFFFFFFC0201000 4 (cr3 t) = Some 0x201000"
proof -
  have b: "258 \<le> pages_left empty_root" by (simp add: empty_left)
  have "pmm_base empty_root = page_base" by (simp add: empty_root_def page_base_def)
  from tables_switch [OF empty_pages b this sample_long_tables] obtain t where t: "pcx_init empty_root = Some t"
    "\<forall>v. page_base \<le> v \<and> v - page_base < 0x20000000 \<longrightarrow>
      hw_walk sample_tables v 4 0x101000 = Some (v - page_base) \<and>
      hw_walk (phys_words (mem t)) v 4 (cr3 t) = hw_walk sample_tables v 4 0x101000" by blast
  have "page_base \<le> 0xFFFFFFFFC0201000" "0xFFFFFFFFC0201000 - page_base < 0x20000000"
    "0xFFFFFFFFC0201000 - page_base = 0x201000" by (simp_all add: page_base_def)
  then show ?thesis using t by metis
qed

section \<open>The machine at boot\<close>

text \<open>
  C23. Threads are told of exactly the memory they may use. When the entry of the loader's map in
  which the cutoff falls is one of the first three and both maps have room, then in every
  reachable state the low map holds the addresses of the loader's map below the cutoff, the high
  map those from the cutoff on, and the regions that \<open>memory_map_read\<close> returns are the latter.
\<close>

theorem memory_map_split:
  assumes "reached handler mm s es m" "cut_at mm (unat (pmm_cutoff (mmap_total mm))) k"
  shows "map_split mm (kern m) \<and>
    told (kern m) = {a. unat (pmm_cutoff (mmap_total mm)) \<le> a \<and> in_map (mm_count mm) (mmap_entry mm) a}"
  using reached_split(1) [OF assms] reached_told [OF assms] by blast

lemma boot_cut: "cut_at boot_mmap (unat (pmm_cutoff (mmap_total boot_mmap))) 0"
  by (simp add: cut_at_def mm_sorted_def below_cut_def boot_mmap_def pmm_cutoff_def)

theorem memory_map_split_witness:
  "\<exists>m. reached (\<lambda>v. 0) boot_mmap boot_kernel [] m \<and> 0x800000 \<in> told (kern m) \<and> 0x7FFFFF \<notin> told (kern m)"
proof -
  obtain m where m: "reached (\<lambda>v. 0) boot_mmap boot_kernel [] m" using boot_reached by blast
  have "told (kern m) = {a. 0x800000 \<le> a \<and> in_map 1 (mmap_entry boot_mmap) a}"
    using memory_map_split [OF m boot_cut] by (simp add: boot_mmap_def pmm_cutoff_def)
  moreover have "in_map 1 (mmap_entry boot_mmap) 0x800000" by (simp add: in_map_def boot_mmap_def)
  ultimately show ?thesis using m by auto
qed

text \<open>
  C24. The test program, run on the kernel in any reachable state, comes to its last loop when
  the serial line takes its text, and the regions it has printed on the way, as hexadecimal
  numbers one pair to a line, are exactly the loader's memory from the cutoff on.
\<close>

theorem tester_prints:
  assumes "reached handler mm s es m" "cut_at mm (unat (pmm_cutoff (mmap_total mm))) k" "pmm_map_high s = no_map"
    and "mm_count mm < k + 8" "\<forall>i < mm_count mm. 0 < mm_end mm i" "34 * 9 \<le> sends_left d"
  shows "\<exists>d' rs. tester_main (kern m) d = Some d' \<and>
    port_writes d' = port_writes d @ concat (map wire (concat (map region_line rs))) \<and>
    (\<forall>r \<in> set rs. \<exists>b l. region_line r = b @ '' '' @ l @ [NL] \<and>
      config_hex 0 b = Some (region_base r) \<and> config_hex 0 l = Some (region_limit r)) \<and>
    {a. \<exists>r \<in> set rs. unat (region_base r) \<le> a \<and> a < unat (region_limit r)} =
      {a. unat (pmm_cutoff (mmap_total mm)) \<le> a \<and> in_map (mm_count mm) (mmap_entry mm) a}"
proof -
  have "\<exists>b l. region_line r = b @ '' '' @ l @ [NL] \<and>
      config_hex 0 b = Some (region_base r) \<and> config_hex 0 l = Some (region_limit r)" for r
    by (rule exI [of _ "logputp (region_base r)"], rule exI [of _ "logputp (region_limit r)"])
      (simp add: region_line_def logputp_read)
  moreover obtain d' rs where "tester_main (kern m) d = Some d'"
    "port_writes d' = port_writes d @ concat (map wire (concat (map region_line rs)))"
    "{a. \<exists>r \<in> set rs. unat (region_base r) \<le> a \<and> a < unat (region_limit r)} =
      {a. unat (pmm_cutoff (mmap_total mm)) \<le> a \<and> in_map (mm_count mm) (mmap_entry mm) a}"
    using tester_reached [OF assms] by blast
  ultimately show ?thesis by blast
qed

theorem tester_prints_witness:
  "\<exists>m d. reached (\<lambda>v. 0) boot_mmap boot_kernel [] m \<and> tester_main (kern m)
    \<lparr>serialinit = False, line_status = replicate 306 0x20, port_writes = []\<rparr> = Some d"
proof -
  let ?d = "\<lparr>serialinit = False, line_status = replicate 306 (0x20 :: u8), port_writes = []\<rparr>"
  obtain m where m: "reached (\<lambda>v. 0) boot_mmap boot_kernel [] m" using boot_reached by blast
  have "pmm_map_high boot_kernel = no_map" by (simp add: boot_kernel_def)
  moreover have "mm_count boot_mmap < 0 + 8" "\<forall>i < mm_count boot_mmap. 0 < mm_end boot_mmap i"
    by (simp_all add: boot_mmap_def)
  moreover have "34 * 9 \<le> sends_left ?d" by (simp add: sends_left_def)
  ultimately show ?thesis using tester_prints [OF m boot_cut, of ?d] m by blast
qed

text \<open>
  C25. \<open>idt_init\<close> builds a table in which every fault vector, every interrupt vector and the
  vector of the yield leads to its stub, for every placement of the stubs.
\<close>

theorem idt_gates:
  assumes "pages_ok s" "0 < pages_left s"
  shows "\<exists>t. idt_init handler s = Some t \<and> idt t = brk s \<and> (\<forall>v. gated v \<longrightarrow> idt_target t v = handler v)"
proof -
  obtain u where "pge_alloc s = Some (brk s, u)" using pge_alloc_table [OF assms] by metis
  moreover have "brk s \<noteq> 0" using assms(1) brk_nonzero by (simp add: pages_ok_def)
  ultimately obtain t where t: "idt_init handler s = Some t" "idt t = brk s"
    by (simp add: idt_init_def idt_set_trap_vector_def idt_set_irq_vector_def del: upt_rec_numeral)
  moreover have "take_bit 12 (brk s) = 0" using brk_page [OF assms(1)] by simp
  ultimately show ?thesis using idt_init_targets [of handler s t] by metis
qed

theorem idt_gates_witness:
  "\<exists>t. idt_init (\<lambda>v. 0xFFFFFFFFC0201000 + 16 * of_nat v) empty_root = Some t \<and>
    idt_target t 33 = 0xFFFFFFFFC0201210"
proof -
  have "pages_ok empty_root" using empty_rooted by (simp add: rooted_def tables_def)
  moreover have "gated 33" by (simp add: gated_def)
  ultimately show ?thesis using idt_gates [of empty_root "\<lambda>v. 0xFFFFFFFFC0201000 + 16 * of_nat v"] empty_left
    by fastforce
qed

text \<open>
  C26. The processor is set up as the kernel relies on. After \<open>gdt_init\<close> and \<open>ccb_new\<close> the limit of
  the descriptor table is its length, the segments are as assembled, both \<open>gs\<close> bases name the
  control block, and the task register selects a present 64-bit task state segment whose base and
  limit are those of the field \<open>tss\<close> of the control block. \<open>init\<close> programs the local APIC to raise
  vector 32 periodically, and in every reachable state the page tables lead each of its writes
  to the hardware address of the register.
\<close>

theorem processor_setup:
  assumes "c' = ccb_new_processor 0 p (gdt_init c)"
    and "msr c MSR_APIC_BASE AND 0xFFFFF000 = 0xFEE00000" "reached handler mm s es m"
  shows "gdt_register c' = Some (8 * length (gdt_table c') - 1) \<and> take 16 (gdt_table c') = take 16 gdt \<and>
    msr c' MSR_GS_BASE = p \<and> msr c' MSR_KERNEL_GS_BASE = p \<and>
    (let lo = selected (gdt_table c') (task_register c'); hi = selected (gdt_table c') (task_register c' + 8)
     in desc_present lo \<and> desc_type lo = 9 \<and> desc_limit lo + 1 = of_nat (sizeof 8 tss_struct) \<and>
       Some (desc_base lo hi) = map_option (\<lambda>n. p + of_nat n) (offsetof 8 ccb_struct ''tss'')) \<and>
    (let r = lapic_writes (lapic_setup (regs ''logical_destination'')) regs
     in lvt_vector (r ''lvt_timer'') = 32 \<and> \<not> lvt_masked (r ''lvt_timer'') \<and> lvt_periodic (r ''lvt_timer'') \<and>
       lvt_vector (r ''spurious_interrupt_vector'') = 33 \<and>
       apic_software_enabled (r ''spurious_interrupt_vector'')) \<and>
    (\<forall>x w. (x, w) \<in> set (lapic_setup d) \<longrightarrow> (\<exists>a n. lapic_register c' x = Some a \<and> (x, n) \<in> set lapic_hardware \<and>
      hw_walk (phys_words (mem (kern m))) a 4 (pcx_root (kern m) - page_base) = Some (0xFEE00000 + of_nat n)))"
proof -
  note S = kernel_segments [OF assms(1)]
  have w: "window (mem (kern m)) (pcx_root (kern m))"
    using reached_paging [OF assms(3)] by (auto simp: paging_inv_def)
  have l: "lapic_pointer c' = pmm_vaddr 0xFEE00000" using S(7) assms(2) by simp
  have "\<exists>a n. lapic_register c' x = Some a \<and> (x, n) \<in> set lapic_hardware \<and>
      hw_walk (phys_words (mem (kern m))) a 4 (pcx_root (kern m) - page_base) = Some (0xFEE00000 + of_nat n)"
    if "(x, v) \<in> set (lapic_setup d)" for x v
    using lapic_located [OF that] lapic_reached [OF w l] by (fastforce simp: lapic_register_def)
  moreover have "offsetof 8 ccb_struct ''tss'' = Some 0xC00" by code_simp
  moreover have "sizeof 8 tss_struct = 104" by (rule kernel_sizes)
  ultimately show ?thesis
    using S(1-3,5,6) task_descriptor [OF assms(1)] lapic_programmed(1-3,6,7) [of regs] by (simp add: Let_def)
qed

text \<open>A processor as it comes out of reset, with the local APIC at its usual address.\<close>

definition reset_processor :: processor where
  "reset_processor = \<lparr>gdt_table = [], gdt_register = None, data_selector = 0, task_register = 0,
     msr = (\<lambda>r. if r = MSR_APIC_BASE then 0xFEE00900 else 0), lapic_pointer = 0\<rparr>"

theorem processor_setup_witness:
  "\<exists>m a. reached (\<lambda>v. 0) boot_mmap boot_kernel [] m \<and>
    lapic_register (ccb_new_processor 0 0xFFFFFFFFC0300000 (gdt_init reset_processor)) ''lvt_timer'' = Some a \<and>
    hw_walk (phys_words (mem (kern m))) a 4 (pcx_root (kern m) - page_base) = Some 0xFEE00320"
proof -
  obtain m where m: "reached (\<lambda>v. 0) boot_mmap boot_kernel [] m" using boot_reached by blast
  have "msr reset_processor MSR_APIC_BASE AND 0xFFFFF000 = 0xFEE00000" by (simp add: reset_processor_def)
  note P = processor_setup [OF refl this m, where p = "0xFFFFFFFFC0300000" and d = 0]
  have t: "(''lvt_timer'', 0x10000) \<in> set (lapic_setup 0)" by (simp add: lapic_setup_def)
  from P t obtain a n where
    "lapic_register (ccb_new_processor 0 0xFFFFFFFFC0300000 (gdt_init reset_processor)) ''lvt_timer'' = Some a"
    "(''lvt_timer'', n) \<in> set lapic_hardware"
    "hw_walk (phys_words (mem (kern m))) a 4 (pcx_root (kern m) - page_base) = Some (0xFEE00000 + of_nat n)"
    by blast
  moreover from this(2) have "n = 0x320" by (simp add: lapic_hardware_def)
  ultimately show ?thesis using m by auto
qed

section \<open>Register contexts\<close>

text \<open>
  C27. A thread that the timer interrupts gets its turn again after every queued thread had
  one, and resumes with exactly the registers it was interrupted with, whatever the others
  did to theirs. Only \<open>fs\<close>, \<open>gs\<close> and \<open>ds\<close> are not part of the context.
\<close>

theorem context_restored:
  assumes "kernel_inv L F s" "active s \<noteq> 0" "length fs = length L" "ticks ((f, cr2) # fs) s = Some t"
  shows "active t = active s \<and> resume_state_full t cur = restored f cur"
proof -
  from timer_rotates [OF assms(1,2), of f cr2] obtain u where u: "interrupt_entry 32 f cr2 s = Some u"
    "active u \<noteq> 0" "active u = hd (L @ [active s])" "kernel_inv (tl (L @ [active s])) F u" by metis
  have turn: "active u # tl (L @ [active s]) = L @ [active s]" using u(3) by (cases L) simp_all
  have "length fs \<le> length (tl (L @ [active s]))" "ticks fs u = Some t" using assms(3,4) u(1) by simp_all
  from ticks_turn [OF u(4,2) this] assms(3)
  have t: "active t = active s" "load_frame (tcbs t (active s)) = load_frame (tcbs u (active s))"
    unfolding turn by simp_all
  then show ?thesis unfolding resume_state_full_def using timer_registers(1) [OF u(1)] by simp
qed

theorem context_restored_witness:
  "\<exists>t. ticks [(blank_frame, 0), (blank_frame, 0)] sample_kernel = Some t \<and> active t = B1 \<and>
    resume_state_full t blank_frame = blank_frame"
proof -
  have a: "active sample_kernel = B1" by (simp add: sample_kernel_def)
  obtain t where t: "ticks [(blank_frame, 0), (blank_frame, 0)] sample_kernel = Some t"
    using round_robin_ticks [OF sample_inv, of "[(blank_frame, 0), (blank_frame, 0)]"] a by auto
  then show ?thesis
    using context_restored [OF sample_inv, of "[(blank_frame, 0)]" blank_frame 0 t blank_frame] a
    by (simp add: restored_def blank_frame_def)
qed

text \<open>
  C28. The instructions around the kernel's C functions implement what the model takes for single
  steps. When memory holds the registers that the kernel state has for the blocks \<open>P\<close>, delivery
  of an interrupt or fault followed by its stub and \<open>save_state_full\<close> leaves memory that holds
  the state after \<open>save_state_full\<close> of the model, and calls \<open>fault\<close> with the active block, on the
  processor's stack, with interrupts off. Loading a block with the stores of \<open>ccb_load_tcb\<close> and
  then executing \<open>resume_state_full\<close> gives the registers that the model resumes with. Vector 8,
  whose stub does not fit the processor's error code, is left out.
\<close>

theorem context_code:
  assumes "represents P b k c s" "kernel_gs_base c = b" "gated v" "v \<noteq> 8"
    and "blocks_hold P b k c' s'" "gs_base c' = b" "gpr c' RDI \<in> P" "active s' = 0"
  shows "let d = enter_kernel v err c;
      t = save_state_full (vect v) (cpu_frame c (if v \<in> error_vectors then err else 0) f) s;
      d' = exec_all ccb_load_tcb_code c'; t' = snd (ccb_load_tcb (gpr c' RDI) s')
    in represents P b k d t \<and> gpr d RDI = active s \<and> gpr d RSI = b \<and> gpr d RSP = k \<and> gs_base d = b \<and>
      kernel_gs_base d = gs_base c \<and> cpu_rflags d AND RFLAGS_IF = 0 \<and> represents P b k d' t' \<and>
      cpu_frame (exec_all resume_state_full_code d') (fr_error g) g = resume_state_full t' g"
proof -
  let ?p = "active s" and ?d' = "exec_all ccb_load_tcb_code c'"
  have "ready c ?p b k" using assms(1,2) by (auto simp: represents_def blocks_hold_def ready_def)
  note E = enter_kernel_spec(3-7,9) [OF this assms(3,4), of err]
  have r: "represents P b k ?d' (snd (ccb_load_tcb (gpr c' RDI) s'))"
    by (rule load_tcb_represents [OF assms(5-8)])
  have "gs_base ?d' = b" using assms(6) by (simp add: ccb_load_tcb_code_def set_reg_def)
  from resume_represents [OF r this] r enter_kernel_represents [OF assms(1-4), of err f] E
  show ?thesis unfolding Let_def by blast
qed

text \<open>A processor that runs the first thread of the sample, whose registers are all zero.\<close>

definition sample_cpu :: cpu where
  "sample_cpu = \<lparr>gpr = (\<lambda>r. 7), cpu_rip = 0x400000, cpu_cs = 0x1B, cpu_rflags = 0x202, cpu_ss = 0x23,
     gs_base = 0, kernel_gs_base = 0xFFFFFFFFC0300000, tss_sp0 = B1 + 0x100, tss_sp1 = B1 + 0x100,
     words = (\<lambda>a. 0)(0xFFFFFFFFC0300010 := 0xFFFFFFFFC0300C00, 0xFFFFFFFFC0300018 := B1,
       0xFFFFFFFFC0300030 := 0xFFFFFFFFC0300000)\<rparr>"

lemma sample_represents: "represents {B1, B2} 0xFFFFFFFFC0300000 0xFFFFFFFFC0300C00 sample_cpu sample_kernel"
  by (simp add: represents_def blocks_hold_def sample_cpu_def block_addr_defs block_tcb_def block_word_def
      block_offsets sample_tcb_def blank_tcb_def Let_def)

theorem context_code_witness:
  "gpr (enter_kernel 14 2 sample_cpu) RDI = B1 \<and>
   cpu_frame (exec_all resume_state_full_code (exec_all ccb_load_tcb_code
     (set_reg RDI B2 (sample_cpu\<lparr>gs_base := 0xFFFFFFFFC0300000\<rparr>)))) 0 blank_frame =
   resume_state_full (snd (ccb_load_tcb B2 (snd (ccb_unload_tcb sample_kernel)))) blank_frame"
proof -
  have "blocks_hold {B1, B2} 0xFFFFFFFFC0300000 0xFFFFFFFFC0300C00
      (set_reg RDI B2 (sample_cpu\<lparr>gs_base := 0xFFFFFFFFC0300000\<rparr>)) (snd (ccb_unload_tcb sample_kernel))"
    using unload_blocks [OF sample_represents] by (simp add: blocks_hold_def set_reg_def)
  note hold = this
  have "gated 14" "kernel_gs_base sample_cpu = 0xFFFFFFFFC0300000"
    by (simp_all add: gated_def fault_vectors_def sample_cpu_def)
  moreover have "active (snd (ccb_unload_tcb sample_kernel)) = 0" by (simp add: ccb_unload_tcb_def Let_def)
  ultimately show ?thesis
    using context_code [OF sample_represents _ _ _ hold, of 14 2 blank_frame blank_frame]
    by (simp add: set_reg_def Let_def blank_frame_def)
qed

section \<open>The configuration\<close>

text \<open>
  C29. Parsing a well-formed text of at most 64 entries, with comments, empty lines and any
  amount of blanks, and then reading a property gives the value of the first entry whose
  section and property match, for every section and property asked for.
\<close>

theorem config_roundtrip:
  assumes "\<forall>l \<in> set ls. wf_line l" "length (entries ls) \<le> CONFIG_INDEX_SIZE"
  shows "\<exists>c. config_parse (render_all ls) (\<lambda>n. no_item) = Some c \<and> (\<forall>sname pname.
    config_value_of sname pname c = Some (map_option (\<lambda>(s, p, v). v) (List.find (matches sname pname) (entries ls))))"
  using assms by (rule config_parse_read)

definition sample_lines :: "conf_line list" where
  "sample_lines = [Comment '' boot'', Empty_line, Entry '''' ''loader'' '' '' ''image'' ''  '' ''/boot/kernel'',
     Entry '' '' ''loader'' '' '' ''base'' '' '' ''FFFFFFFF80000000'']"

theorem config_roundtrip_witness:
  "\<exists>c. config_parse (render_all sample_lines) (\<lambda>n. no_item) = Some c \<and>
    config_value_of ''loader'' ''base'' c = Some (Some ''FFFFFFFF80000000'')"
proof -
  have "\<forall>l \<in> set sample_lines. wf_line l"
    by (simp add: sample_lines_def blanks_def blank_def word_def in_word_def in_line_def)
  moreover have "length (entries sample_lines) \<le> CONFIG_INDEX_SIZE"
    by (simp add: sample_lines_def CONFIG_INDEX_SIZE_def)
  ultimately obtain c where c: "config_parse (render_all sample_lines) (\<lambda>n. no_item) = Some c"
    "\<forall>sname pname. config_value_of sname pname c =
      Some (map_option (\<lambda>(s, p, v). v) (List.find (matches sname pname) (entries sample_lines)))"
    using config_roundtrip by blast
  moreover have "List.find (matches ''loader'' ''base'') (entries sample_lines) =
      Some (''loader'', ''base'', ''FFFFFFFF80000000'')"
    by (simp add: sample_lines_def matches_def)
  ultimately show ?thesis by simp
qed

text \<open>
  A property read as an address is the hexadecimal number it spells, kept to 64 bits; it
  is the default when the property is missing or a character is no digit.
\<close>

lemma config_address:
  assumes "config_value_of sname pname c = Some r"
  shows "config_read_as_ptr sname pname sentinel c =
    Some (case r of None \<Rightarrow> sentinel
      | Some v \<Rightarrow> if is_hex v then of_nat (hex_value v) else sentinel)"
  using assms by (rule read_as_ptr_value)

section \<open>Loading the kernel\<close>

text \<open>
  C30. Every name of the API resolves to the entry point of that name, moved to where the
  image was loaded, although names are compared as prefixes of each other; a name that is
  neither a prefix nor an extension of one resolves to 0.
\<close>

theorem api_names:
  assumes "string_at (lmem l) p s"
  shows "(\<forall>n \<in> set api_symbols. s = pinion_name n \<longrightarrow> fst (api_resolve entry p l) = load_addr l + entry n) \<and>
    ((\<forall>n \<in> set api_symbols. \<not> prefix s (pinion_name n) \<and> \<not> prefix (pinion_name n) s) \<longrightarrow>
      fst (api_resolve entry p l) = 0)"
proof (intro conjI ballI impI)
  fix n assume "n \<in> set api_symbols" "s = pinion_name n"
  then show "fst (api_resolve entry p l) = load_addr l + entry n" using api_resolve_name assms by blast
next
  assume "\<forall>n \<in> set api_symbols. \<not> prefix s (pinion_name n) \<and> \<not> prefix (pinion_name n) s"
  then show "fst (api_resolve entry p l) = 0" using apicatch_unknown [OF assms] by (simp add: api_resolve_simp)
qed

text \<open>Bytes of a text from an address on, and zeros elsewhere.\<close>

definition put_bytes :: "u64 \<Rightarrow> u8 list \<Rightarrow> bytes" where
  "put_bytes a bs b = (let i = unat (b - a) in if i < length bs then bs ! i else 0)"

theorem api_names_witness:
  "fst (api_resolve (\<lambda>n. 0x1000) 0x500 \<lparr>lkern = empty_root,
     lmem = put_bytes 0x500 (map byte_of ''__PINION_page_set''), pinion_load_addr = 0\<rparr>) = 0xFFFFFFFFC0201000"
proof -
  let ?l = "\<lparr>lkern = empty_root, lmem = put_bytes 0x500 (map byte_of ''__PINION_page_set''), pinion_load_addr = 0\<rparr>"
  have "string_at (lmem ?l) 0x500 (pinion_name ''page_set'')" by (simp add: put_bytes_def)
  moreover have "''page_set'' \<in> set api_symbols" by (simp add: api_symbols_def)
  moreover have "load_addr ?l = 0xFFFFFFFFC0200000"
    by (simp add: load_addr_def pmm_get_pinion_load_addr_def empty_root_def)
  ultimately show ?thesis using api_names [of ?l "0x500" "pinion_name ''page_set''" "\<lambda>n. 0x1000"] by auto
qed


lemma range_of_apart:
  assumes "unat a + n \<le> unat d" "unat d + k \<le> 2 ^ 64"
  shows "range_of a n \<inter> range_of d k = {}"
proof -
  have "unat (a + of_nat i) = unat a + i" if "unat a + i < 2 ^ 64" for a :: u64 and i
  proof -
    have "a + of_nat i = of_nat (unat a + i)" by simp
    then show ?thesis using that by (simp only: unsigned_of_nat) (simp add: take_bit_nat_eq_self)
  qed
  note u = this
  have "a + of_nat i \<noteq> d + of_nat j" if "i < n" "j < k" for i j
    using u [of a i] u [of d j] assms that by fastforce
  then show ?thesis by (auto simp: range_of_def)
qed



lemma rd_bytes_numeral:
  "rd_bytes (numeral k) m a = ucast (m a) OR push_bit 8 (rd_bytes (pred_numeral k) m (a + 1))"
  by (simp add: numeral_eq_Suc)






text \<open>
  C32. Carrying out a relocation table ends, and every entry's target then holds the word it
  asks for: the load address plus the addend, or the entry point of the API function named
  plus the addend. No other byte changes. The targets must be apart from each other and from
  what the loop reads.
\<close>

theorem relocations_done:
  assumes "rel_table_ok entry (load_addr l) base (lmem l) d P n w" "load_addr l \<noteq> 0"
  shows "\<exists>l'. relocate_all entry base d 0 l = Some l' \<and>
    (\<forall>i < n. rd64 (lmem l') (rel_target base (lmem l) d i) = w i) \<and>
    (\<forall>b. (\<forall>i < n. b \<notin> range_of (rel_target base (lmem l) d i) 8) \<longrightarrow> lmem l' b = lmem l b)"
  using relocate_all_run [OF assms(1) le0 _ assms(2)] by (auto simp: agree_def)

text \<open>One entry at \<open>0x500\<close>: add \<open>0x10\<close> to the base and store it at offset \<open>0x2000\<close>.\<close>

definition tiny_table :: bytes where
  "tiny_table = (\<lambda>a. 0)(0x501 := 0x20, 0x508 := 8, 0x510 := 0x10)"

theorem relocations_done_witness:
  "\<exists>l'. relocate_all (\<lambda>n. 0) 0xFFFFFFFF00000000 (dyn_init\<lparr>dyn_jmprel := 0x500, dyn_jmprelsz := 24\<rparr>) 0
      \<lparr>lkern = empty_root, lmem = tiny_table, pinion_load_addr = 1\<rparr> = Some l' \<and>
    rd64 (lmem l') 0xFFFFFFFF00002000 = 0xFFFFFFFF00000010"
proof -
  let ?d = "dyn_init\<lparr>dyn_jmprel := 0x500, dyn_jmprelsz := 24\<rparr>"
  let ?l = "\<lparr>lkern = empty_root, lmem = tiny_table, pinion_load_addr = 1\<rparr>"
  let ?P = "range_of 0x500 24"
  have rd: "rd_bytes 8 tiny_table 0x500 = 0x2000" "rd_bytes 4 tiny_table 0x508 = 8" "rd_bytes 8 tiny_table 0x510 = 0x10"
    by (simp_all add: tiny_table_def rd_bytes_numeral)
  have t: "rel_target 0xFFFFFFFF00000000 tiny_table ?d 0 = 0xFFFFFFFF00002000"
    "r_type (rel_at tiny_table ?d 0) = 8" "r_addend (rel_at tiny_table ?d 0) = 0x10"
    using rd by (simp_all add: rel_target_def rel_at_def read_rela_def rd64_def rd32_def)
  have "range_of 0x500 24 \<inter> range_of 0xFFFFFFFF00002000 8 = {}" by (rule range_of_apart) simp_all
  then have "range_of 0xFFFFFFFF00002000 8 \<inter> ?P = {}" by blast
  then have "rel_table_ok (\<lambda>n. 0) (load_addr ?l) 0xFFFFFFFF00000000 (lmem ?l) ?d ?P 1 (\<lambda>i. 0xFFFFFFFF00000010)"
    using t by (simp add: rel_table_ok_def rel_word_def Let_def dyn_init_def R_X86_64_RELATIVE_def)
  moreover have "load_addr ?l \<noteq> 0" by (simp add: load_addr_def)
  ultimately show ?thesis using relocations_done t(1) by fastforce
qed

section \<open>Failures, layouts and locks\<close>




text \<open>
  C35. However any number of processors interleave the instructions of \<open>mutex_acquire\<close>,
  \<open>mutex_trylock\<close> and \<open>mutex_release\<close>, at most one is between its acquire and the store that
  releases, and the byte is not 0 while there is one.
\<close>

theorem mutual_exclusion:
  assumes "all_outside s" "mutex_run s s'"
    and "pc (cores s' i) \<in> {Inside, Release_store}" "pc (cores s' j) \<in> {Inside, Release_store}"
  shows "i = j \<and> lock_byte s' \<noteq> 0"
proof -
  have "mutex_inv s'" using mutex_run_inv [OF assms(2)] all_outside_inv [OF assms(1)] by blast
  moreover have "holds (cores s' i)" "holds (cores s' j)" using assms(3,4) by (simp_all add: holds_def)
  ultimately show ?thesis unfolding mutex_inv_def by blast
qed

definition idle_core :: core where "idle_core = \<lparr>pc = Outside, al = 0, cl = 0, rax = 0\<rparr>"

theorem mutual_exclusion_witness:
  "\<exists>s s'. all_outside s \<and> mutex_run s s' \<and> pc (cores s' 0) = Inside \<and> lock_byte s' \<noteq> 0"
proof -
  let ?s = "\<lambda>m c. \<lparr>lock_byte = m, cores = (\<lambda>i. idle_core)(0 := c)\<rparr>"
  let ?c = "mutex_acquire_call idle_core"
  have start: "all_outside (?s 0 idle_core)" by (simp add: all_outside_def idle_core_def)
  have "mutex_step 0 (?s 0 idle_core) (?s 0 ?c)"
    using Call_acquire [of "?s 0 idle_core" 0] by (simp add: idle_core_def)
  then have "mutex_run (?s 0 idle_core) (?s 0 ?c)" by (rule Run_step [OF Run_nil])
  from mutex_run_instrs [OF this, of 4 0] have
    "mutex_run (?s 0 idle_core) (?s 1 (idle_core\<lparr>cl := 1, al := 0, pc := Inside\<rparr>))"
    by (simp add: acquire_alone)
  then show ?thesis using mutual_exclusion [OF start, of _ 0 0] start by fastforce
qed

section \<open>The log and the firmware\<close>

text \<open>
  C36. Numbers in the log can be read back: what \<open>%p\<close> and \<open>%x\<close> print is read by the parser of
  the configuration as the same number, what \<open>%d\<close> prints is the decimal notation of the
  argument, for every argument but the smallest \<open>int\<close>.
\<close>

theorem log_numbers:
  "config_hex 0 (logputp p) = Some p \<and> config_hex 0 (logputx x) = Some (ucast x) \<and>
   (case logputd n of Some t \<Rightarrow> decimal t = sint n | None \<Rightarrow> n = 0x80000000)"
proof -
  have "n = 0x80000000" if "logputd n = None" using that by (auto simp: logputd_def Let_def split: if_splits)
  then show ?thesis using logputd_reads by (auto simp: logputp_read logputx_read split: option.splits)
qed


section \<open>The boot loader\<close>

text \<open>
  C38. From a memory map of the multiboot loader, \<open>unfold\<close> makes a map of exactly the available
  regions in their order, with their sum as the total, when there are at most 15 of them; with
  more it runs over its static array.
\<close>

theorem multiboot_map:
  assumes "mb_flags mb AND MBOOT_FLAG_MMAP \<noteq> 0"
    and "mb_regions (umem u) (mb_mmap_count mb) 0 (mb_mmap_addr mb) es"
  shows "case multiboot_mmap_init mb u of
      Some u' \<Rightarrow> length (available es) \<le> MMAP_ENTRIES \<and> init_mmap u' = (False, u') \<and>
        (\<exists>mm. u' = u\<lparr>mmap := Some mm\<rparr> \<and> mmap_lists mm (available es))
    | None \<Rightarrow> MMAP_ENTRIES < length (available es)"
  using assms by (rule multiboot_map_lists)

text \<open>A map of one region of 16 MB at \<open>0x100000\<close>.\<close>

definition one_region :: mem32 where
  "one_region = (\<lambda>a. 0)(0x100 := 20, 0x106 := 0x10, 0x10F := 1, 0x114 := 1)"

definition one_header :: multiboot_header where
  "one_header = \<lparr>mb_flags = 0x40, mb_mem_lower = 0, mb_mem_upper = 0, mb_boot_device = 0, mb_cmdline = 0,
     mb_mods_count = 0, mb_mods_addr = 0, mb_syms0 = 0, mb_syms1 = 0, mb_syms2 = 0, mb_syms3 = 0,
     mb_mmap_count = 24, mb_mmap_addr = 0x100\<rparr>"

definition one_boot :: unfold where
  "one_boot = \<lparr>umem = one_region, mmap = None, object_list = None, pinion_image = None\<rparr>"

theorem multiboot_map_witness:
  "\<exists>mm. multiboot_mmap_init one_header one_boot = Some (one_boot\<lparr>mmap := Some mm\<rparr>) \<and>
    mmap_total mm = 0x1000000"
proof -
  let ?e = "\<lparr>mm_size = 20, mm_base_addr = 0x100000, mm_length = 0x1000000, mm_type = 1\<rparr>"
  have e: "read_mb_mmap one_region 0x100 = ?e"
    by (simp add: read_mb_mmap_def ld32_def ld64_def rd32_def rd64_def rd_bytes_numeral wide_def one_region_def)
  have "mb_flags one_header AND MBOOT_FLAG_MMAP \<noteq> 0" by (simp add: one_header_def MBOOT_FLAG_MMAP_def)
  moreover have "mb_regions (umem one_boot) (mb_mmap_count one_header) 0 (mb_mmap_addr one_header) [?e]"
    using e by (simp add: one_header_def one_boot_def)
  ultimately have "case multiboot_mmap_init one_header one_boot of
      Some u' \<Rightarrow> length (available [?e]) \<le> MMAP_ENTRIES \<and> init_mmap u' = (False, u') \<and>
        (\<exists>mm. u' = one_boot\<lparr>mmap := Some mm\<rparr> \<and> mmap_lists mm (available [?e]))
    | None \<Rightarrow> MMAP_ENTRIES < length (available [?e])"
    by (rule multiboot_map)
  then obtain mm where "multiboot_mmap_init one_header one_boot = Some (one_boot\<lparr>mmap := Some mm\<rparr>)"
    "mmap_lists mm (available [?e])"
    by (auto simp: MMAP_ENTRIES_def available_def split: option.splits)
  then show ?thesis by (auto simp: mmap_lists_def available_def)
qed

text \<open>
  C39. \<open>unfold\<close> loads the kernel: for an image whose segments lie apart from each other and from
  the image itself, every loadable segment arrives at its physical address, its tail cleared,
  and nothing else changes. The entry point that is jumped to is the address at which the
  window of \<open>page.c\<close> shows the loaded entry point.
\<close>

theorem kernel_in_place:
  assumes "pimage_ok m elf"
  shows "\<exists>e m'. load_pinion64 elf m = Some (e, m') \<and> ploaded m elf (pnum m elf) m' \<and>
    (unat (e_entry (read_ehdr (wide m) (ucast elf))) + 0x200000 < 0x20000000 \<longrightarrow>
      e = pmm_vaddr (e_entry (read_ehdr (wide m) (ucast elf)) + ucast pinion_phys))"
  using load_pinion64_run [OF assms] pinion_base_window by metis

lemma range32_apart:
  assumes "unat a + n \<le> unat d" "unat d + k \<le> 2 ^ 32"
  shows "range32 a n \<inter> range32 d k = {}"
proof -
  have u: "unat (a + of_nat i) = unat a + i" if "unat a + i < 2 ^ 32" for a :: u32 and i
  proof -
    have "a + of_nat i = of_nat (unat a + i)" by simp
    then show ?thesis using that by (simp only: unsigned_of_nat) (simp add: take_bit_nat_eq_self)
  qed
  have "a + of_nat i \<noteq> d + of_nat j" if "i < n" "j < k" for i j
    using u [of a i] u [of d j] assms that by fastforce
  then show ?thesis by (auto simp: range32_def)
qed

text \<open>An image at \<open>0x1000\<close> with one segment: four bytes of the file and four zeros.\<close>

definition tiny_boot :: mem32 where
  "tiny_boot = (\<lambda>a. 0)(0x1018 := 0x20, 0x1020 := 64, 0x1036 := 56, 0x1038 := 1, 0x1040 := 1, 0x1048 := 0x78,
     0x1051 := 0x20, 0x1060 := 4, 0x1068 := 8, 0x1078 := 0xDE, 0x1079 := 0xAD, 0x107A := 0xBE, 0x107B := 0xEF)"

lemma tiny_boot_segs:
  "e_entry (read_ehdr (wide tiny_boot) 0x1000) = 0x20" "pnum tiny_boot 0x1000 = 1"
  "phdr_at tiny_boot 0x1000 0 = 0x1040" "p_type (pseg tiny_boot 0x1000 0) = 1"
  "p_offset (pseg tiny_boot 0x1000 0) = 0x78" "p_vaddr (pseg tiny_boot 0x1000 0) = 0x2000"
  "p_filesz (pseg tiny_boot 0x1000 0) = 4" "p_memsz (pseg tiny_boot 0x1000 0) = 8"
  "psegs tiny_boot 0x1000 1 = {0}"
proof -
  have rd: "rd_bytes 8 (wide tiny_boot) 0x1018 = 0x20" "rd_bytes 8 (wide tiny_boot) 0x1020 = 0x40"
    "rd_bytes 2 (wide tiny_boot) 0x1036 = 56" "rd_bytes 2 (wide tiny_boot) 0x1038 = 1"
    "rd_bytes 4 (wide tiny_boot) 0x1040 = 1" "rd_bytes 8 (wide tiny_boot) 0x1048 = 0x78"
    "rd_bytes 8 (wide tiny_boot) 0x1050 = 0x2000" "rd_bytes 8 (wide tiny_boot) 0x1060 = 4"
    "rd_bytes 8 (wide tiny_boot) 0x1068 = 8"
    by (simp_all add: wide_def tiny_boot_def rd_bytes_numeral)
  show "e_entry (read_ehdr (wide tiny_boot) 0x1000) = 0x20" "pnum tiny_boot 0x1000 = 1"
    and h: "phdr_at tiny_boot 0x1000 0 = 0x1040"
    using rd(1-4) by (simp_all add: pnum_def phdr_at_def Let_def read_ehdr_def rd16_def rd64_def del: upt_rec_numeral)
  show t: "p_type (pseg tiny_boot 0x1000 0) = 1"
    and "p_offset (pseg tiny_boot 0x1000 0) = 0x78" "p_vaddr (pseg tiny_boot 0x1000 0) = 0x2000"
    "p_filesz (pseg tiny_boot 0x1000 0) = 4" "p_memsz (pseg tiny_boot 0x1000 0) = 8"
    using rd(5-9) h by (simp_all add: pseg_def read_phdr_def rd32_def rd64_def)
  show "psegs tiny_boot 0x1000 1 = {0}" using t by (auto simp: psegs_def less_Suc_eq)
qed

theorem kernel_in_place_witness:
  "\<exists>m'. load_pinion64 0x1000 tiny_boot = Some (0xFFFFFFFFC0200020, m') \<and>
    m' 0x202000 = 0xDE \<and> m' 0x202004 = 0"
proof -
  note seg = tiny_boot_segs
  have "pseg_dest (pseg tiny_boot 0x1000 0) = range32 0x202000 8"
    using seg by (simp add: pseg_dest_def pinion_phys_def)
  moreover have "pimage tiny_boot 0x1000 = range32 0x1000 64 \<union> range32 0x1040 56 \<union> range32 0x1078 4"
    using seg by (simp add: pimage_def pseg_source_def lessThan_Suc)
  moreover have "range32 0x1000 64 \<inter> range32 0x202000 8 = {}" "range32 0x1040 56 \<inter> range32 0x202000 8 = {}"
    "range32 0x1078 4 \<inter> range32 0x202000 8 = {}"
    by (rule range32_apart; simp)+
  ultimately have "pimage_ok tiny_boot 0x1000" using seg by (simp add: pimage_ok_def) blast
  from kernel_in_place [OF this] obtain m' where
    m': "load_pinion64 0x1000 tiny_boot = Some (pmm_vaddr 0x200020, m')" "ploaded tiny_boot 0x1000 1 m'"
    using seg by (auto simp: pinion_phys_def)
  have b: "m' b = pseg_byte tiny_boot 0x1000 (pseg tiny_boot 0x1000 0) b"
    if "b \<in> pseg_dest (pseg tiny_boot 0x1000 0)" for b
    using m'(2) that seg by (simp add: ploaded_def)
  have "0x202000 \<in> pseg_dest (pseg tiny_boot 0x1000 0)" "0x202004 \<in> pseg_dest (pseg tiny_boot 0x1000 0)"
    using seg by (simp_all add: pseg_dest_def range32_iff pinion_phys_def)
  from b [OF this(1)] b [OF this(2)] have "m' 0x202000 = 0xDE" "m' 0x202004 = 0"
    using seg by (simp_all add: pseg_byte_def Let_def pinion_phys_def tiny_boot_def)
  then show ?thesis using m'(1) by (simp add: pmm_vaddr_def page_base_def)
qed

text \<open>
  C40. The boot loader enters the kernel in long mode. After \<open>init_enter_long\<close> long mode is active
  with the tables \<open>pt4\<close>, which show the kernel's window, and a 64-bit code segment is loaded.
  While the code runs, before and after paging is turned on, every address below 1 GB keeps its
  meaning, so it is fetched from where it lies. The kernel is entered at the first argument,
  and its \<open>init\<close> gets the mark of the loader, the third argument and the second one.
\<close>

theorem kernel_entered:
  assumes "long_tables pm (ucast pt4)" "\<not> bit (cr0 c) 31"
  shows "let code = init_enter_long_code pt4 gdt64 enter64; d = exec_all32 code c;
      e = enter_long init_stack (long_cpu u d) in
    long_active d \<and> gdtr d = (of_nat (8 * length long_gdt - 1), gdt64) \<and>
    desc_present (selected long_gdt (cs32 d)) \<and> desc_long (selected long_gdt (cs32 d)) \<and>
    desc_dpl (selected long_gdt (cs32 d)) = 0 \<and>
    (\<forall>n a. a < 0x40000000 \<longrightarrow> fetched pm (exec_all32 (take n code) c) a = Some (ucast a)) \<and>
    (\<forall>v \<ge> page_base. hw_walk pm v 4 (ucast (cr3_32 d)) = Some (v - page_base)) \<and>
    cpu_rip e = stack_pair c 4 \<and> gpr e RDI = 0x3436646C6F666E75 \<and>
    gpr e RSI = stack_pair c 20 \<and> gpr e RDX = stack_pair c 12"
proof -
  let ?d = "exec_all32 (init_enter_long_code pt4 gdt64 enter64) c"
  note S = enter_long_state [OF refl [of ?d]] and A = long_arguments [OF refl [of ?d]]
  have "fetched pm (exec_all32 (take n (init_enter_long_code pt4 gdt64 enter64)) c) a = Some (ucast a)"
    if "a < 0x40000000" for n a
    by (rule enter_long_identity [OF assms(1) that assms(2) refl])
  then show ?thesis
    using enter_long_active [of pt4 gdt64 enter64 c] S(1,5,6) A long_segment long_window [OF assms(1)]
    by (simp add: Let_def long_gdt_def)
qed

text \<open>A processor as \<open>boot.s\<close> leaves it, with the kernel's entry point as the argument on the stack.\<close>

definition boot_cpu :: cpu32 where
  "boot_cpu = \<lparr>r32 = (\<lambda>r. 0)(ESP := 0x107000), eip = 0x106000, cs32 = 0x08, sregs = (\<lambda>x. 0x10), iflag = False,
     cr0 = 0x11, cr3_32 = 0, cr4 = 0, msr64 = (\<lambda>r. 0), gdtr = (0x17, 0x108000),
     words32 = (\<lambda>a. 0)(0x107004 := 0xC0201000, 0x107008 := 0xFFFFFFFF)\<rparr>"

theorem kernel_entered_witness:
  "long_active (exec_all32 (init_enter_long_code 0x101000 0x105000 0x106000) boot_cpu) \<and>
   cpu_rip (enter_long 0 (long_cpu sample_cpu
     (exec_all32 (init_enter_long_code 0x101000 0x105000 0x106000) boot_cpu))) = 0xFFFFFFFFC0201000"
proof -
  have "long_tables sample_tables (ucast (0x101000 :: u32))" "\<not> bit (cr0 boot_cpu) 31"
    using sample_long_tables by (simp_all add: boot_cpu_def)
  from kernel_entered [OF this, of "0x105000" "0x106000" 0 sample_cpu] show ?thesis
    by (simp add: Let_def stack_pair_def boot_cpu_def word_pair_def)
qed

end
